(* ===== verification/Prelude.thy ===== *)
theory Prelude
  imports Main "HOL-Library.Word"
begin

text \<open>
  Shared vocabulary of the development of the ak kernel: the machine integers of the C code
  (32-bit x86), the ways a kernel routine can stop without returning, the state monad in which the
  routines are written, a total-correctness predicate with its rules, and the generic facts on
  words and lists that the component theories share.
\<close>

unbundle bit_operations_syntax

named_theorems kern_simps \<open>evaluation of the monad's combinators\<close>
named_theorems wp \<open>introduction rules of the total-correctness predicate\<close>
named_theorems hw_defs \<open>constants of the source (C macros)\<close>

subsection \<open>Machine integers\<close>

type_synonym u8 = "8 word"
type_synonym u16 = "16 word"
type_synonym u32 = "32 word"

text \<open>Pointers and physical addresses are both 32-bit on this machine; \<open>NULL\<close> is 0.\<close>

type_synonym vaddr_t = u32
type_synonym paddr_t = u32
type_synonym pgaddr_t = u32
type_synonym pgentry_t = u32

abbreviation NULL :: u32 where "NULL \<equiv> 0"

subsection \<open>How a routine stops\<close>

text \<open>
  \<open>Panic\<close> is the \<^verbatim>\<open>PANIC\<close> macro (print, then spin with nothing else running), \<open>BadAccess\<close> a
  read or write outside the object the code means (undefined in C), \<open>NullCall\<close> the use of a null
  pointer, \<open>Spin\<close> a deliberate \<^verbatim>\<open>while (1)\<close>.
\<close>

datatype stop = Panic string | BadAccess | NullCall | Spin

subsection \<open>The kernel state monad\<close>

text \<open>
  A routine takes the state; \<open>None\<close> means that it never returns (a loop that does not end),
  \<open>Some (Inl e)\<close> that it stopped with \<open>e\<close>, \<open>Some (Inr (a, s))\<close> that it returned \<open>a\<close> in
  state \<open>s\<close>.
\<close>

type_synonym ('s, 'a) kern = "'s \<Rightarrow> (stop + 'a \<times> 's) option"

abbreviation Done :: "'a \<Rightarrow> 's \<Rightarrow> (stop + 'a \<times> 's) option" where
  "Done a s \<equiv> Some (Inr (a, s))"

abbreviation Halt :: "stop \<Rightarrow> (stop + 'a \<times> 's) option" where
  "Halt e \<equiv> Some (Inl e)"

definition kret :: "'a \<Rightarrow> ('s, 'a) kern" where
  "kret a s = Done a s"

definition kstop :: "stop \<Rightarrow> ('s, 'a) kern" where
  "kstop e s = Halt e"

definition kbind :: "('s, 'a) kern \<Rightarrow> ('a \<Rightarrow> ('s, 'b) kern) \<Rightarrow> ('s, 'b) kern" where
  "kbind m f s = Option.bind (m s) (\<lambda>r. case r of Inl e \<Rightarrow> Halt e | Inr (a, t) \<Rightarrow> f a t)"

definition kthen :: "('s, 'a) kern \<Rightarrow> ('s, 'b) kern \<Rightarrow> ('s, 'b) kern" where
  "kthen m n = kbind m (\<lambda>_. n)"

definition kget :: "('s \<Rightarrow> 'a) \<Rightarrow> ('s, 'a) kern" where
  "kget f s = Done (f s) s"

definition kmod :: "('s \<Rightarrow> 's) \<Rightarrow> ('s, unit) kern" where
  "kmod f s = Done () (f s)"

definition kwhen :: "bool \<Rightarrow> ('s, unit) kern \<Rightarrow> ('s, unit) kern" where
  "kwhen b m = (if b then m else kret ())"

definition kguard :: "bool \<Rightarrow> stop \<Rightarrow> ('s, unit) kern" where
  "kguard b e = (if b then kret () else kstop e)"

text \<open>A sequence of statements.\<close>

primrec kseq :: "('s, unit) kern list \<Rightarrow> ('s, unit) kern" where
  "kseq [] = kret ()"
| "kseq (m # ms) = kthen m (kseq ms)"

text \<open>A \<^verbatim>\<open>for\<close> loop whose index runs over a list known when the loop starts.\<close>

primrec kfor :: "'i list \<Rightarrow> ('i \<Rightarrow> ('s, unit) kern) \<Rightarrow> ('s, unit) kern" where
  "kfor [] f = kret ()"
| "kfor (i # is) f = kthen (f i) (kfor is f)"

lemma kret_run [simp, kern_simps]: "kret a s = Done a s"
  by (simp add: kret_def)

lemma kstop_run [simp, kern_simps]: "kstop e s = Halt e"
  by (simp add: kstop_def)

lemma kget_run [simp, kern_simps]: "kget f s = Done (f s) s"
  by (simp add: kget_def)

lemma kmod_run [simp, kern_simps]: "kmod f s = Done () (f s)"
  by (simp add: kmod_def)

lemma kbind_Done [simp, kern_simps]: "m s = Done a t \<Longrightarrow> kbind m f s = f a t"
  by (simp add: kbind_def)

text \<open>Instances for truth values, which the simplifier would otherwise turn into propositions.\<close>

lemma kbind_Done_bool [simp, kern_simps]:
  "m s = Done True t \<Longrightarrow> kbind m f s = f True t" "m s = Done False t \<Longrightarrow> kbind m f s = f False t"
  by (simp_all add: kbind_def)

lemma kbind_Halt [simp, kern_simps]: "m s = Halt e \<Longrightarrow> kbind m f s = Halt e"
  by (simp add: kbind_def)

lemma kbind_None [simp, kern_simps]: "m s = None \<Longrightarrow> kbind m f s = None"
  by (simp add: kbind_def)

lemma kthen_Done [simp, kern_simps]: "m s = Done a t \<Longrightarrow> kthen m n s = n t"
  by (simp add: kthen_def)

lemma kthen_Halt [simp, kern_simps]: "m s = Halt e \<Longrightarrow> kthen m n s = Halt e"
  by (simp add: kthen_def)

lemma kthen_None [simp, kern_simps]: "m s = None \<Longrightarrow> kthen m n s = None"
  by (simp add: kthen_def)

lemma kwhen_simps [simp, kern_simps]: "kwhen True m = m" "kwhen False m = kret ()"
  by (simp_all add: kwhen_def)

lemma kguard_simps [simp, kern_simps]: "kguard True e = kret ()" "kguard False e = kstop e"
  by (simp_all add: kguard_def)

lemma kbind_eq_Done:
  "kbind m f s = Done b u \<longleftrightarrow> (\<exists>a t. m s = Done a t \<and> f a t = Done b u)"
  by (auto simp: kbind_def split: sum.splits bind_splits prod.splits)

lemma kthen_eq_Done:
  "kthen m n s = Done b u \<longleftrightarrow> (\<exists>a t. m s = Done a t \<and> n t = Done b u)"
  by (simp add: kthen_def kbind_eq_Done)

lemma kbind_mono [partial_function_mono]:
  assumes "mono_option (\<lambda>f. m f s)" and "\<And>a t. mono_option (\<lambda>f. g f a t)"
  shows "mono_option (\<lambda>f. kbind (m f) (g f) s)"
proof -
  have "mono_option (\<lambda>f. case r of Inl e \<Rightarrow> Halt e | Inr (a, t) \<Rightarrow> g f a t)" for r
    by (cases r) (auto intro: assms(2) option.const_mono split: prod.splits)
  with assms(1) show ?thesis
    unfolding kbind_def by (rule bind_mono)
qed

lemma kthen_mono [partial_function_mono]:
  assumes "mono_option (\<lambda>f. m f s)" and "\<And>t. mono_option (\<lambda>f. n f t)"
  shows "mono_option (\<lambda>f. kthen (m f) (n f) s)"
  unfolding kthen_def using assms by (rule kbind_mono)

lemma if_mono_state [partial_function_mono]:
  assumes "mono_option (\<lambda>f. m f s)" and "mono_option (\<lambda>f. n f s)"
  shows "mono_option (\<lambda>f. (if b then m f else n f) s)"
  using assms by (cases b) simp_all

subsection \<open>Total correctness\<close>

text \<open>
  \<open>runs m s Q\<close>: started in \<open>s\<close>, the routine returns (it neither stops nor loops), and its
  result and final state satisfy \<open>Q\<close>.
\<close>

definition runs :: "('s, 'a) kern \<Rightarrow> 's \<Rightarrow> ('a \<Rightarrow> 's \<Rightarrow> bool) \<Rightarrow> bool" where
  "runs m s Q \<longleftrightarrow> (\<exists>a t. m s = Done a t \<and> Q a t)"

lemma runsI: "m s = Done a t \<Longrightarrow> Q a t \<Longrightarrow> runs m s Q"
  by (simp add: runs_def)

lemma runsE: "runs m s Q \<Longrightarrow> (\<And>a t. m s = Done a t \<Longrightarrow> Q a t \<Longrightarrow> P) \<Longrightarrow> P"
  by (auto simp: runs_def)

lemma runs_weaken: "runs m s Q \<Longrightarrow> (\<And>a t. Q a t \<Longrightarrow> R a t) \<Longrightarrow> runs m s R"
  by (auto simp: runs_def)

lemma runs_kret [wp]: "Q a s \<Longrightarrow> runs (kret a) s Q"
  by (simp add: runs_def)

lemma runs_kget [wp]: "Q (f s) s \<Longrightarrow> runs (kget f) s Q"
  by (simp add: runs_def)

lemma runs_kmod [wp]: "Q () (f s) \<Longrightarrow> runs (kmod f) s Q"
  by (simp add: runs_def)

lemma runs_kbind [wp]: "runs m s (\<lambda>a t. runs (f a) t Q) \<Longrightarrow> runs (kbind m f) s Q"
  by (auto simp: runs_def)

lemma runs_kthen [wp]: "runs m s (\<lambda>_ t. runs n t Q) \<Longrightarrow> runs (kthen m n) s Q"
  by (auto simp: runs_def)

lemma runs_kguard [wp]: "b \<Longrightarrow> Q () s \<Longrightarrow> runs (kguard b e) s Q"
  by (simp add: runs_def)

lemma runs_kwhen [wp]: "(b \<Longrightarrow> runs m s Q) \<Longrightarrow> (\<not> b \<Longrightarrow> Q () s) \<Longrightarrow> runs (kwhen b m) s Q"
  by (cases b) (auto simp: runs_def)

text \<open>The loop rule: an invariant indexed by the part of the index list already done.\<close>

lemma runs_kfor_append:
  assumes "I done s"
    and "\<And>d i r t. I d t \<Longrightarrow> done @ is = d @ i # r \<Longrightarrow> runs (f i) t (\<lambda>_. I (d @ [i]))"
  shows "runs (kfor is f) s (\<lambda>_. I (done @ is))"
  using assms
proof (induction "is" arbitrary: "done" s)
  case Nil
  then show ?case by (simp add: runs_def)
next
  case (Cons i "is")
  from Cons.prems(2) [OF Cons.prems(1), of i "is"]
  have step: "runs (f i) s (\<lambda>_. I (done @ [i]))" by simp
  have "runs (kfor is f) t (\<lambda>_. I ((done @ [i]) @ is))" if "I (done @ [i]) t" for t
    using Cons.IH [OF that] Cons.prems(2) by simp
  with step show ?case by (auto simp: runs_def)
qed

lemma runs_kfor:
  assumes "I [] s"
    and "\<And>d i r t. I d t \<Longrightarrow> is = d @ i # r \<Longrightarrow> runs (f i) t (\<lambda>_. I (d @ [i]))"
    and "\<And>t. I is t \<Longrightarrow> Q () t"
  shows "runs (kfor is f) s Q"
proof -
  have "runs (kfor is f) s (\<lambda>_. I ([] @ is))"
    by (rule runs_kfor_append) (use assms(1,2) in auto)
  then show ?thesis using assms(3) by (auto simp: runs_def)
qed

text \<open>An invariant that does not depend on the index.\<close>

lemma runs_kfor_inv:
  assumes "I s" and "\<And>i t. i \<in> set is \<Longrightarrow> I t \<Longrightarrow> runs (f i) t (\<lambda>_. I)"
  shows "runs (kfor is f) s (\<lambda>_. I)"
  by (rule runs_kfor [where I = "\<lambda>_. I"]) (use assms in auto)

lemma kthen_assoc: "kthen (kthen a b) c = kthen a (kthen b c)"
  by (rule ext) (auto simp: kthen_def kbind_def split: sum.splits prod.splits bind_splits)

lemma kthen_kret: "kthen (kret x) m = m"
  by (rule ext) simp

lemma kfor_append: "kfor (xs @ ys) f = kthen (kfor xs f) (kfor ys f)"
  by (induction xs) (auto simp: kthen_assoc kthen_kret simp del: kret_run)

text \<open>A \<^verbatim>\<open>for (i = 0; i < n; i++)\<close> loop with an invariant in terms of \<open>i\<close>.\<close>

lemma runs_kfor_upt:
  assumes "I 0 s" and "\<And>i t. i < n \<Longrightarrow> I i t \<Longrightarrow> runs (f i) t (\<lambda>_. I (Suc i))"
  shows "runs (kfor [0..<n] f) s (\<lambda>_. I n)"
  using assms(2)
proof (induction n)
  case 0
  then show ?case using assms(1) by (simp add: runs_def)
next
  case (Suc n)
  then have "runs (kfor [0..<n] f) s (\<lambda>_. I n)" by simp
  moreover have "runs (kfor [n] f) t (\<lambda>_. I (Suc n))" if "I n t" for t
    unfolding kfor.simps
    by (rule runs_kthen, rule runs_weaken [OF Suc.prems [OF lessI that]], rule runs_kret)
  ultimately have "runs (kfor ([0..<n] @ [n]) f) s (\<lambda>_. I (Suc n))"
    unfolding kfor_append by (blast intro: runs_kthen runs_weaken)
  then show ?case by simp
qed

end
