(* ===== verification/Machine.thy ===== *)
theory Machine
  imports Prelude
begin

text \<open>
  The hardware the kernel runs on: byte-addressed physical memory with little-endian 32-bit
  accesses, page frames and their 1024 entries, the control registers and the interrupt flag,
  and the I/O ports (\<^verbatim>\<open>arch/x86/io.c\<close>, \<^verbatim>\<open>arch/x86/mem/types.h\<close>, \<^verbatim>\<open>mmu_inline.h\<close>,
  \<^verbatim>\<open>intr.h\<close>, \<^verbatim>\<open>map.h\<close>). The addresses that the linker chooses are the fields of
  \<open>symtab\<close>.
\<close>

subsection \<open>Memory map\<close>

definition PAGE_SIZE :: u32 where [hw_defs]: "PAGE_SIZE = 0x1000"
definition MEMMAX :: u32 where [hw_defs]: "MEMMAX = 0xFFFFFFFF"
definition KZERO :: u32 where [hw_defs]: "KZERO = 0xC0000000"
definition KTEXT :: u32 where [hw_defs]: "KTEXT = 0x00100000 + 0xC0000000"
definition KTMPMEM :: u32 where [hw_defs]: "KTMPMEM = 0xFFFFFFFF - (0x400000 - 1)"
definition KSTACK :: u32 where [hw_defs]: "KSTACK = 0xC0000000"
definition VGA_TEXT_BASE :: u32 where [hw_defs]: "VGA_TEXT_BASE = 0xB8000 + 0xC0000000"

definition KBSSTOPHYS :: "u32 \<Rightarrow> paddr_t" where "KBSSTOPHYS a = a - KZERO"
definition PHYSTOKBSS :: "u32 \<Rightarrow> vaddr_t" where "PHYSTOKBSS a = a + KZERO"

definition PGADDR :: "u32 \<Rightarrow> pgaddr_t" where "PGADDR a = a - (a mod PAGE_SIZE)"

lemma KBSSTOPHYS_PHYSTOKBSS [simp]: "KBSSTOPHYS (PHYSTOKBSS a) = a" "PHYSTOKBSS (KBSSTOPHYS a) = a"
  by (simp_all add: KBSSTOPHYS_def PHYSTOKBSS_def)

subsection \<open>Bytes and 32-bit words in memory\<close>

type_synonym bytes = "u32 \<Rightarrow> u8"

definition get16 :: "bytes \<Rightarrow> u32 \<Rightarrow> u16" where
  "get16 m a = ucast (m a) OR push_bit 8 (ucast (m (a + 1)))"

definition get32 :: "bytes \<Rightarrow> u32 \<Rightarrow> u32" where
  "get32 m a = ucast (m a) OR push_bit 8 (ucast (m (a + 1)))
     OR push_bit 16 (ucast (m (a + 2))) OR push_bit 24 (ucast (m (a + 3)))"

definition set32 :: "bytes \<Rightarrow> u32 \<Rightarrow> u32 \<Rightarrow> bytes" where
  "set32 m a v = m(a := ucast v, a + 1 := ucast (drop_bit 8 v),
     a + 2 := ucast (drop_bit 16 v), a + 3 := ucast (drop_bit 24 v))"

text \<open>\<^verbatim>\<open>memcpy\<close> of \<open>n\<close> bytes and \<^verbatim>\<open>memset\<close>, on a memory and a range that may wrap.\<close>

definition mem_copy :: "bytes \<Rightarrow> u32 \<Rightarrow> u32 \<Rightarrow> u32 \<Rightarrow> bytes" where
  "mem_copy m dest src n = (\<lambda>a. if a - dest < n then m (src + (a - dest)) else m a)"

definition mem_fill :: "bytes \<Rightarrow> u32 \<Rightarrow> u8 \<Rightarrow> u32 \<Rightarrow> bytes" where
  "mem_fill m dest b n = (\<lambda>a. if a - dest < n then b else m a)"

lemma bytes_join:
  fixes v :: u32
  shows "ucast (ucast v :: u8) OR push_bit 8 (ucast (ucast (drop_bit 8 v) :: u8))
     OR push_bit 16 (ucast (ucast (drop_bit 16 v) :: u8))
     OR push_bit 24 (ucast (ucast (drop_bit 24 v) :: u8)) = v"
proof (rule bit_word_eqI)
  fix n assume "n < LENGTH(32)"
  then show "bit (ucast (ucast v :: u8) OR push_bit 8 (ucast (ucast (drop_bit 8 v) :: u8))
     OR push_bit 16 (ucast (ucast (drop_bit 16 v) :: u8))
     OR push_bit 24 (ucast (ucast (drop_bit 24 v) :: u8)) :: u32) n = bit v n"
    by (cases "n < 8"; cases "n < 16"; cases "n < 24") (auto simp: bit_simps)
qed

lemma add_const_neq [simp]:
  fixes a :: u32
  shows "a + 1 \<noteq> a" "a + 2 \<noteq> a" "a + 3 \<noteq> a" "a + 1 \<noteq> a + 2" "a + 1 \<noteq> a + 3" "a + 2 \<noteq> a + 3"
    "a \<noteq> a + 1" "a \<noteq> a + 2" "a \<noteq> a + 3" "a + 2 \<noteq> a + 1" "a + 3 \<noteq> a + 1" "a + 3 \<noteq> a + 2"
  by simp_all

lemma get32_set32_same [simp]: "get32 (set32 m a v) a = v"
  by (simp add: get32_def set32_def bytes_join)

lemma set32_other:
  "b \<noteq> a \<Longrightarrow> b \<noteq> a + 1 \<Longrightarrow> b \<noteq> a + 2 \<Longrightarrow> b \<noteq> a + 3 \<Longrightarrow> set32 m a v b = m b"
  by (simp add: set32_def)

lemma get32_cong:
  "m a = m' a \<Longrightarrow> m (a + 1) = m' (a + 1) \<Longrightarrow> m (a + 2) = m' (a + 2) \<Longrightarrow> m (a + 3) = m' (a + 3)
     \<Longrightarrow> get32 m a = get32 m' a"
  by (simp add: get32_def)

lemma u8_high_bits [simp]: "\<not> bit (b :: u8) (8 + n)" "\<not> bit (b :: u8) (16 + n)" "\<not> bit (b :: u8) (24 + n)"
  using bit_imp_le_length [of b] by fastforce+

lemma get32_byte:
  "ucast (get32 m a) = m a" "ucast (drop_bit 8 (get32 m a)) = m (a + 1)"
  "ucast (drop_bit 16 (get32 m a)) = m (a + 2)" "ucast (drop_bit 24 (get32 m a)) = m (a + 3)"
  by (auto simp: get32_def bit_simps intro!: bit_word_eqI)

lemma get32_eq_bytes:
  assumes "get32 m a = get32 m' a"
  shows "m a = m' a" "m (a + 1) = m' (a + 1)" "m (a + 2) = m' (a + 2)" "m (a + 3) = m' (a + 3)"
  using assms get32_byte [of m a] get32_byte [of m' a] by metis+

subsection \<open>Page frames and their entries\<close>

definition page_aligned :: "u32 \<Rightarrow> bool" where
  "page_aligned p \<longleftrightarrow> p mod PAGE_SIZE = 0"

text \<open>Entry \<open>i\<close> of the 1024-entry array in the frame at \<open>p\<close> (\<^verbatim>\<open>dir[i]\<close>, \<^verbatim>\<open>table[i]\<close>).\<close>

definition ent_get :: "bytes \<Rightarrow> paddr_t \<Rightarrow> nat \<Rightarrow> pgentry_t" where
  "ent_get m p i = get32 m (p + 4 * of_nat i)"

definition ent_set :: "bytes \<Rightarrow> paddr_t \<Rightarrow> nat \<Rightarrow> pgentry_t \<Rightarrow> bytes" where
  "ent_set m p i v = set32 m (p + 4 * of_nat i) v"

lemma unat_lt32: "unat (a :: u32) < 2 ^ 32"
  using unsigned_less [of a] by simp

lemma u32_less_inc: "x \<noteq> 0xFFFFFFFF \<Longrightarrow> x < x + 1" for x :: u32
proof -
  assume "x \<noteq> 0xFFFFFFFF"
  then have "unat x \<noteq> unat (0xFFFFFFFF :: u32)" by (simp only: word_unat_eq_iff) simp
  with unat_lt32 [of x] have "unat x + unat (1 :: u32) < 2 ^ 32" by simp
  then have "unat (x + 1) = unat x + 1" using unat_add_lem [of x 1] by simp
  then show ?thesis by (simp add: word_less_nat_alt)
qed

lemma page_aligned_unat: "page_aligned p \<longleftrightarrow> unat p mod 4096 = 0"
  by (simp add: page_aligned_def PAGE_SIZE_def unat_eq_zero [symmetric] unat_mod del: unat_eq_zero)

lemma page_aligned_ex: "page_aligned p \<Longrightarrow> \<exists>k. unat p = 4096 * k"
  by (auto simp: page_aligned_unat elim: dvdE)

lemma page_aligned_bound: "page_aligned p \<Longrightarrow> unat p \<le> 2 ^ 32 - 4096"
proof -
  assume "page_aligned p"
  then obtain k where "unat p = 4096 * k" using page_aligned_ex by blast
  with unat_lt32 [of p] show ?thesis by simp
qed

lemma unat_in_page:
  assumes "page_aligned p" and "n < 4096"
  shows "unat (p + of_nat n) = unat p + n"
proof -
  have "unat (of_nat n :: u32) = n" using assms(2) by (simp add: unat_of_nat)
  moreover have "unat p + n < 2 ^ 32" using page_aligned_bound [OF assms(1)] assms(2) by simp
  ultimately show ?thesis using unat_add_lem [of p "of_nat n"] by simp
qed

text \<open>Two bytes of page frames are the same byte only if frame and offset agree.\<close>

lemma in_page_eq_iff:
  assumes "page_aligned p" "page_aligned q" "n < 4096" "k < 4096"
  shows "p + of_nat n = q + of_nat k \<longleftrightarrow> p = q \<and> n = k"
proof
  assume "p + of_nat n = q + of_nat k"
  then have eq: "unat p + n = unat q + k"
    using assms unat_in_page by metis
  have "(unat p + n) mod 4096 = n" and "(unat q + k) mod 4096 = k"
    using assms by (simp_all add: page_aligned_unat mod_add_eq [symmetric] del: mod_add_eq)
  with eq have "n = k" by simp
  with eq show "p = q \<and> n = k" by (simp add: word_unat_eq_iff)
qed simp

lemma ent_addr: "p + 4 * of_nat i = p + of_nat (4 * i)"
  "p + 4 * of_nat i + 1 = p + of_nat (4 * i + 1)"
  "p + 4 * of_nat i + 2 = p + of_nat (4 * i + 2)"
  "p + 4 * of_nat i + 3 = p + of_nat (4 * i + 3)"
  for p :: u32
  by simp_all

text \<open>Writing one entry changes that entry and no other entry of any frame.\<close>

lemma ent_get_set:
  assumes "page_aligned p" "page_aligned q" "i < 1024" "j < 1024"
  shows "ent_get (ent_set m p i v) q j = (if p = q \<and> i = j then v else ent_get m q j)"
proof (cases "p = q \<and> i = j")
  case True
  then show ?thesis by (simp add: ent_get_def ent_set_def)
next
  case False
  have sep: "q + of_nat (4 * j + c) \<noteq> p + of_nat (4 * i + d)" if "c < 4" "d < 4" for c d
  proof -
    have "4 * j + c < 4096" "4 * i + d < 4096" using assms that by auto
    moreover have "4 * j + c \<noteq> 4 * i + d \<or> p \<noteq> q" using False that by (cases "p = q") auto
    ultimately show ?thesis using in_page_eq_iff assms(1,2) by metis
  qed
  have "ent_set m p i v (q + of_nat (4 * j + c)) = m (q + of_nat (4 * j + c))" if "c < 4" for c
    unfolding ent_set_def ent_addr
    by (rule set32_other)
      (use sep [OF that, of 0] sep [OF that, of 1] sep [OF that, of 2] sep [OF that, of 3]
        in \<open>simp_all add: algebra_simps\<close>)
  from this [of 0] this [of 1] this [of 2] this [of 3]
  have "get32 (ent_set m p i v) (q + 4 * of_nat j) = get32 m (q + 4 * of_nat j)"
    by (intro get32_cong) (simp_all add: algebra_simps)
  with False show ?thesis unfolding ent_get_def by auto
qed

lemma ent_get_set_same [simp]: "ent_get (ent_set m p i v) p i = v"
  by (simp add: ent_get_def ent_set_def)

text \<open>Filling a frame with zero bytes (\<^verbatim>\<open>memset(dir, 0, sizeof(pgentry_t) * 1024)\<close>) makes every
  entry nil and leaves every other frame alone.\<close>

lemma in_page_diff: "(p + of_nat n :: u32) - p = of_nat n"
  by simp

lemma mem_fill_in_page:
  assumes "page_aligned p" "page_aligned q" "n < 4096"
  shows "mem_fill m p b 4096 (q + of_nat n) = (if p = q then b else m (q + of_nat n))"
proof (cases "p = q")
  case True
  then show ?thesis using assms(3)
    by (simp add: mem_fill_def in_page_diff word_less_nat_alt unat_of_nat)
next
  case False
  have "\<not> q + of_nat n - p < 4096"
  proof
    assume less: "q + of_nat n - p < 4096"
    define k where "k = unat (q + of_nat n - p)"
    have k: "k < 4096" using less by (simp add: k_def word_less_nat_alt)
    have "q + of_nat n = p + of_nat k" by (simp add: k_def)
    then show False using in_page_eq_iff [OF assms(2,1,3) k] False by simp
  qed
  with False show ?thesis by (simp add: mem_fill_def)
qed

lemma get32_bytes:
  "get32 m (p + 4 * of_nat i) = ucast (m (p + of_nat (4 * i))) OR push_bit 8 (ucast (m (p + of_nat (4 * i + 1))))
     OR push_bit 16 (ucast (m (p + of_nat (4 * i + 2)))) OR push_bit 24 (ucast (m (p + of_nat (4 * i + 3))))"
  by (simp add: get32_def algebra_simps)

lemma ent_get_zero_frame:
  assumes "page_aligned p" "page_aligned q" "j < 1024"
  shows "ent_get (mem_fill m p 0 4096) q j = (if p = q then 0 else ent_get m q j)"
proof -
  have "mem_fill m p 0 4096 (q + of_nat (4 * j + c)) = (if p = q then 0 else m (q + of_nat (4 * j + c)))"
    if "c < 4" for c
    using assms that by (intro mem_fill_in_page) auto
  from this [of 0] this [of 1] this [of 2] this [of 3] show ?thesis
    by (simp add: ent_get_def get32_bytes del: of_nat_add of_nat_mult)
qed

subsection \<open>Registers, ports and linker symbols\<close>

text \<open>
  A port read returns what the device answers; the device is an argument of the model, a function
  of the port events so far (\<open>devices\<close>).
\<close>

datatype ioev = Out8 u16 u8 | Out16 u16 u16 | In8 u16 | In16 u16

record symtab =
  sym_KernelPageDir :: vaddr_t
  sym_TmpPageTbl :: vaddr_t
  sym_KernelStackTbl :: vaddr_t
  sym_PreallocFrames :: vaddr_t
  sym_stack_top :: vaddr_t
  sym_stack_bottom :: vaddr_t
  sym_kern_end :: vaddr_t
  sym_KernelTask :: vaddr_t
  sym_GDT :: vaddr_t
  sym_IDT :: vaddr_t

record machine =
  mem :: bytes
  cr2 :: vaddr_t
  cr3 :: pgaddr_t
  esp :: u32
  ebp :: u32
  iflag :: bool
  iotrace :: "ioev list"
  devices :: "ioev list \<Rightarrow> u16 \<Rightarrow> u16"
  syms :: symtab

definition io_put8 :: "u16 \<Rightarrow> u8 \<Rightarrow> ('a machine_scheme, unit) kern" where
  "io_put8 port v = kmod (\<lambda>s. s\<lparr>iotrace := iotrace s @ [Out8 port v]\<rparr>)"

definition io_put16 :: "u16 \<Rightarrow> u16 \<Rightarrow> ('a machine_scheme, unit) kern" where
  "io_put16 port v = kmod (\<lambda>s. s\<lparr>iotrace := iotrace s @ [Out16 port v]\<rparr>)"

definition io_get8 :: "u16 \<Rightarrow> ('a machine_scheme, u8) kern" where
  "io_get8 port = kbind (kget (\<lambda>s. ucast (devices s (iotrace s) port)))
     (\<lambda>v. kthen (kmod (\<lambda>s. s\<lparr>iotrace := iotrace s @ [In8 port]\<rparr>)) (kret v))"

definition io_get16 :: "u16 \<Rightarrow> ('a machine_scheme, u16) kern" where
  "io_get16 port = kbind (kget (\<lambda>s. devices s (iotrace s) port))
     (\<lambda>v. kthen (kmod (\<lambda>s. s\<lparr>iotrace := iotrace s @ [In16 port]\<rparr>)) (kret v))"

lemma io_put8_run [simp]: "io_put8 port v s = Done () (s\<lparr>iotrace := iotrace s @ [Out8 port v]\<rparr>)"
  by (simp add: io_put8_def)

lemma io_get8_run [simp]:
  "io_get8 port s = Done (ucast (devices s (iotrace s) port)) (s\<lparr>iotrace := iotrace s @ [In8 port]\<rparr>)"
  by (simp add: io_get8_def)

text \<open>\<^verbatim>\<open>intr.h\<close> and \<^verbatim>\<open>mmu_inline.h\<close>. The TLB is not modelled: every translation reads memory, so
  the flushes do nothing more than rewrite \<^verbatim>\<open>cr3\<close>.\<close>

definition intr_enable :: "('a machine_scheme, unit) kern" where
  "intr_enable = kmod (\<lambda>s. s\<lparr>iflag := True\<rparr>)"

definition intr_disable :: "('a machine_scheme, unit) kern" where
  "intr_disable = kmod (\<lambda>s. s\<lparr>iflag := False\<rparr>)"

definition mmu_read_cr2 :: "('a machine_scheme, vaddr_t) kern" where
  "mmu_read_cr2 = kget cr2"

definition mmu_read_cr3 :: "('a machine_scheme, pgaddr_t) kern" where
  "mmu_read_cr3 = kget cr3"

definition mmu_write_cr3 :: "pgaddr_t \<Rightarrow> ('a machine_scheme, unit) kern" where
  "mmu_write_cr3 v = kmod (\<lambda>s. s\<lparr>cr3 := v\<rparr>)"

definition tlb_flush :: "('a machine_scheme, unit) kern" where
  "tlb_flush = kbind mmu_read_cr3 mmu_write_cr3"

definition pg_switch_dir :: "pgaddr_t \<Rightarrow> ('a machine_scheme, unit) kern" where
  "pg_switch_dir dirframe = kthen (mmu_write_cr3 dirframe) tlb_flush"

lemma tlb_flush_run [simp]: "tlb_flush s = Done () s"
  by (simp add: tlb_flush_def mmu_read_cr3_def mmu_write_cr3_def)

text \<open>A concrete machine, used by the witnesses of the component theories: memory is zero, no
  device answers, and the symbols are laid out from 2 MiB up.\<close>

definition demo_syms :: symtab where
  "demo_syms = \<lparr>sym_KernelPageDir = 0xC0200000, sym_TmpPageTbl = 0xC0201000,
     sym_KernelStackTbl = 0xC0202000, sym_PreallocFrames = 0xC0203000, sym_stack_top = 0xC020B000,
     sym_stack_bottom = 0xC020C000, sym_kern_end = 0xC020C000, sym_KernelTask = 0xC0180000,
     sym_GDT = 0xC0181000, sym_IDT = 0xC0182000\<rparr>"

definition demo_machine :: machine where
  "demo_machine = \<lparr>mem = (\<lambda>_. 0), cr2 = 0, cr3 = 0x200000, esp = 0, ebp = 0, iflag = False,
     iotrace = [], devices = (\<lambda>_ _. 0), syms = demo_syms\<rparr>"

end
