(* ===== verification/Interrupts.thy ===== *)
theory Interrupts
  imports Machine
begin

text \<open>
  Descriptor tables and interrupt routing (\<^verbatim>\<open>arch/x86/mem/gdt.c\<close>, \<^verbatim>\<open>arch/x86/intr/idt.h\<close>,
  \<^verbatim>\<open>idt.c\<close>, \<^verbatim>\<open>pic.c\<close>, \<^verbatim>\<open>pit.c\<close>). A handler pointer is a value of \<open>isr\<close>; the dispatcher
  takes the code that a handler value stands for as an argument, because the handlers belong to
  other components.
\<close>

subsection \<open>Interrupt numbers and state\<close>

definition INT_PAGE_FAULT :: nat where "INT_PAGE_FAULT = 14"
definition INT_PIC1_BASE :: nat where "INT_PIC1_BASE = 32"
definition INT_PIT :: nat where "INT_PIT = INT_PIC1_BASE + 0"
definition INT_KBD :: nat where "INT_KBD = INT_PIC1_BASE + 1"
definition INT_PIC2_BASE :: nat where "INT_PIC2_BASE = INT_PIC1_BASE + 8"
definition INT_PIC_END :: nat where "INT_PIC_END = INT_PIC2_BASE + 8"
definition INT_SYSCALL :: nat where "INT_SYSCALL = 128"
definition NUM_INTERRUPTS :: nat where "NUM_INTERRUPTS = 256"

lemmas int_defs = INT_PAGE_FAULT_def INT_PIC1_BASE_def INT_PIT_def INT_KBD_def INT_PIC2_BASE_def
  INT_PIC_END_def INT_SYSCALL_def NUM_INTERRUPTS_def

datatype isr = IsrPgFault | IsrPit | IsrPreempt | IsrKbd | IsrSyscall | IsrNop

record isrargs =
  r_ds :: u32
  r_edi :: u32
  r_esi :: u32
  r_ebp :: u32
  r_esp :: u32
  r_ebx :: u32
  r_edx :: u32
  r_ecx :: u32
  r_eax :: u32
  r_int_no :: u32
  r_err_code :: u32
  r_eip :: u32
  r_cs :: u32
  r_eflags :: u32
  r_useresp :: u32
  r_ss :: u32

record idtdescr =
  d_offset_low :: u16
  d_selector :: u16
  d_zero0 :: u8
  d_type :: "5 word"
  d_dpl :: "2 word"
  d_present :: "1 word"
  d_offset_high :: u16

record gdtentry =
  g_limit_low :: u16
  g_base_low :: u16
  g_base_mid :: u8
  g_access :: u8
  g_granularity :: u8
  g_base_high :: u8

definition zero_idtdescr :: idtdescr where
  "zero_idtdescr = \<lparr>d_offset_low = 0, d_selector = 0, d_zero0 = 0, d_type = 0, d_dpl = 0,
     d_present = 0, d_offset_high = 0\<rparr>"

definition zero_gdtentry :: gdtentry where
  "zero_gdtentry = \<lparr>g_limit_low = 0, g_base_low = 0, g_base_mid = 0, g_access = 0,
     g_granularity = 0, g_base_high = 0\<rparr>"

text \<open>\<open>gdtr\<close> and \<open>idtr\<close> are the limit and base that \<^verbatim>\<open>lgdt\<close> and \<^verbatim>\<open>lidt\<close> loaded.\<close>

record intr = machine +
  GDT :: "gdtentry list"
  gdtr :: "u16 \<times> u32"
  IDT :: "idtdescr list"
  idtr :: "u16 \<times> u32"
  IDTCallbacks :: "nat \<Rightarrow> isr option"
  ISRRoots :: "nat \<Rightarrow> vaddr_t"
  cs_reg :: u16

subsection \<open>The segment table\<close>

definition gdt_encode_entry :: "gdtentry \<Rightarrow> u32 \<Rightarrow> u32 \<Rightarrow> u8 \<Rightarrow> u8 \<Rightarrow> gdtentry" where
  "gdt_encode_entry e base limit access granularity =
     (let e1 = e\<lparr>g_base_low := ucast (base AND 0xFFFF),
                 g_base_mid := ucast (drop_bit 16 base) AND 0xFF,
                 g_base_high := ucast (drop_bit 24 base) AND 0xFF,
                 g_limit_low := ucast (limit AND 0xFFFF),
                 g_granularity := ucast (drop_bit 16 limit) AND 0x0F\<rparr>
      in e1\<lparr>g_granularity := g_granularity e1 OR push_bit 4 granularity, g_access := access\<rparr>)"

definition SEG_PRESENT :: u8 where "SEG_PRESENT = push_bit 7 1"
definition SEG_TYPE_CODE :: u8 where "SEG_TYPE_CODE = push_bit 3 3"
definition SEG_TYPE_DATA :: u8 where "SEG_TYPE_DATA = push_bit 3 2"
definition SEG_RW :: u8 where "SEG_RW = push_bit 1 1"
definition SEG_SHL_RING :: nat where "SEG_SHL_RING = 5"
definition GRAN_KBYTE :: u8 where "GRAN_KBYTE = push_bit 3 1"
definition GRAN_32BIT :: u8 where "GRAN_32BIT = push_bit 2 1"

definition gdt_init :: "('a intr_scheme, unit) kern" where
  "gdt_init =
     (let granularity = GRAN_KBYTE OR GRAN_32BIT; access_base = SEG_PRESENT OR SEG_RW in
      kthen (kmod (\<lambda>s. s\<lparr>GDT :=
          [gdt_encode_entry (GDT s ! 0) 0 0 0 0,
           gdt_encode_entry (GDT s ! 1) 0 0xFFFFFFFF (access_base OR SEG_TYPE_CODE) granularity,
           gdt_encode_entry (GDT s ! 2) 0 0xFFFFFFFF (access_base OR SEG_TYPE_DATA) granularity,
           gdt_encode_entry (GDT s ! 3) 0 0xFFFFFFFF
             (access_base OR SEG_TYPE_CODE OR push_bit SEG_SHL_RING 3) granularity,
           gdt_encode_entry (GDT s ! 4) 0 0xFFFFFFFF
             (access_base OR SEG_TYPE_DATA OR push_bit SEG_SHL_RING 3) granularity]\<rparr>))
        (kmod (\<lambda>s. s\<lparr>gdtr := (5 * 8 - 1, sym_GDT (syms s))\<rparr>)))"

subsection \<open>The interrupt controllers and the timer\<close>

definition PIC1_COMMAND :: u16 where "PIC1_COMMAND = 0x20"
definition PIC1_DATA :: u16 where "PIC1_DATA = 0x20 + 1"
definition PIC2_COMMAND :: u16 where "PIC2_COMMAND = 0xA0"
definition PIC2_DATA :: u16 where "PIC2_DATA = 0xA0 + 1"
definition PIC_EOI :: u8 where "PIC_EOI = 0x20"

definition pic_remap :: "('a machine_scheme, unit) kern" where
  "pic_remap =
     kbind (io_get8 PIC1_DATA) (\<lambda>m1.
     kbind (io_get8 PIC2_DATA) (\<lambda>m2.
     kseq [io_put8 PIC1_COMMAND (0x10 + 0x1), io_put8 PIC2_COMMAND (0x10 + 0x1),
       io_put8 PIC1_DATA (of_nat INT_PIC1_BASE), io_put8 PIC2_DATA (of_nat INT_PIC2_BASE),
       io_put8 PIC1_DATA 0x04, io_put8 PIC2_DATA 0x02,
       io_put8 PIC1_DATA 0x1, io_put8 PIC2_DATA 0x1,
       io_put8 PIC1_DATA m1, io_put8 PIC2_DATA m2]))"

definition pic_init :: "('a machine_scheme, unit) kern" where
  "pic_init = pic_remap"

definition pic_eoi :: "isrargs \<Rightarrow> ('a machine_scheme, unit) kern" where
  "pic_eoi args =
     kthen (kwhen (unat (r_int_no args) > INT_PIC2_BASE) (io_put8 PIC2_COMMAND PIC_EOI))
           (io_put8 PIC1_COMMAND PIC_EOI)"

definition pic_line :: "u8 \<Rightarrow> u16 \<times> nat" where
  "pic_line irq = (if irq < 8 then (PIC1_DATA, unat irq) else (PIC2_DATA, unat (irq - 8)))"

text \<open>A shift by 32 or more is undefined.\<close>

definition pic_mask :: "u8 \<Rightarrow> ('a machine_scheme, unit) kern" where
  "pic_mask irq = (case pic_line irq of (port, n) \<Rightarrow>
     kbind (io_get8 port) (\<lambda>v. kthen (kguard (n < 32) BadAccess) (io_put8 port (v OR push_bit n 1))))"

definition pic_unmask :: "u8 \<Rightarrow> ('a machine_scheme, unit) kern" where
  "pic_unmask irq = (case pic_line irq of (port, n) \<Rightarrow>
     kbind (io_get8 port) (\<lambda>v. kthen (kguard (n < 32) BadAccess) (io_put8 port (v AND NOT (push_bit n 1)))))"

definition pit_freq :: u32 where "pit_freq = 200"
definition pit_divisor :: u32 where "pit_divisor = 1193180 div pit_freq"

subsection \<open>The interrupt table\<close>

definition idt_encode_addrs :: "idtdescr \<Rightarrow> vaddr_t \<Rightarrow> u16 \<Rightarrow> idtdescr" where
  "idt_encode_addrs d offset selector =
     d\<lparr>d_offset_low := ucast (offset AND 0xFFFF),
       d_offset_high := ucast (drop_bit 16 offset AND 0xFFFF),
       d_selector := selector AND 0xFFFF, d_present := 1, d_zero0 := 0\<rparr>"

definition idt_encode_interrupt :: "idtdescr \<Rightarrow> idtdescr" where
  "idt_encode_interrupt d = d\<lparr>d_type := 0xE\<rparr>"

definition idt_encode_trap :: "idtdescr \<Rightarrow> idtdescr" where
  "idt_encode_trap d = d\<lparr>d_type := 0xF\<rparr>"

text \<open>The interrupt number is passed as a \<^verbatim>\<open>uint8_t\<close>.\<close>

definition idt_set_handler :: "nat \<Rightarrow> isr \<Rightarrow> ('a intr_scheme, unit) kern" where
  "idt_set_handler n func = kmod (\<lambda>s. s\<lparr>IDTCallbacks := (IDTCallbacks s)(n mod 256 := Some func)\<rparr>)"

definition idt_load :: "u16 \<times> u32 \<Rightarrow> ('a intr_scheme, unit) kern" where
  "idt_load p = kmod (\<lambda>s. s\<lparr>idtr := p\<rparr>)"

definition idt_init :: "('a intr_scheme, unit) kern" where
  "idt_init =
     kthen (kmod (\<lambda>s. s\<lparr>IDT := replicate NUM_INTERRUPTS zero_idtdescr, IDTCallbacks := (\<lambda>_. None)\<rparr>))
    (kthen (kfor [0..<NUM_INTERRUPTS] (\<lambda>i. kmod (\<lambda>s. s\<lparr>IDT := (IDT s)[i :=
              idt_encode_interrupt (idt_encode_addrs (IDT s ! i) (ISRRoots s i) (cs_reg s))]\<rparr>)))
    (kthen (kbind (kget (\<lambda>s. sym_IDT (syms s))) (\<lambda>base. idt_load (of_nat (8 * NUM_INTERRUPTS) - 1, base)))
           pic_init))"

definition pit_init :: "('a intr_scheme, unit) kern" where
  "pit_init =
     kthen (idt_set_handler INT_PIT IsrPit)
    (kthen (io_put8 0x43 0x36)
    (kthen (io_put8 0x40 (ucast (pit_divisor AND 0xFF)))
           (io_put8 0x40 (ucast (drop_bit 16 pit_divisor AND 0xFF)))))"

text \<open>\<open>call\<close> runs a handler on the saved registers, which it may change.\<close>

definition idt_handler ::
  "(isr \<Rightarrow> isrargs \<Rightarrow> ('a intr_scheme, isrargs) kern) \<Rightarrow> isrargs \<Rightarrow> ('a intr_scheme, isrargs) kern" where
  "idt_handler call regs =
     kthen (kwhen (INT_PIC1_BASE \<le> unat (r_int_no regs) \<and> unat (r_int_no regs) < INT_PIC_END) (pic_eoi regs))
    (kthen (kguard (unat (r_int_no regs) < NUM_INTERRUPTS) BadAccess)
    (kbind (kget (\<lambda>s. IDTCallbacks s (unat (r_int_no regs)))) (\<lambda>cb.
       case cb of Some f \<Rightarrow> call f regs | None \<Rightarrow> kret regs)))"

definition demo_intr :: intr where
  "demo_intr = machine.extend demo_machine
     \<lparr>GDT = replicate 5 zero_gdtentry, gdtr = (0, 0), IDT = replicate 256 zero_idtdescr, idtr = (0, 0),
      IDTCallbacks = (\<lambda>_. None)(33 := Some IsrKbd), ISRRoots = (\<lambda>i. 0xC0110000 + of_nat i * 16), cs_reg = 8\<rparr>"

subsection \<open>Decoding, as the processor does\<close>

definition seg_base :: "gdtentry \<Rightarrow> u32" where
  "seg_base e = ucast (g_base_low e) OR push_bit 16 (ucast (g_base_mid e)) OR push_bit 24 (ucast (g_base_high e))"

definition seg_limit :: "gdtentry \<Rightarrow> u32" where
  "seg_limit e = ucast (g_limit_low e) OR push_bit 16 (ucast (g_granularity e AND 0x0F))"

definition seg_flags :: "gdtentry \<Rightarrow> u8" where
  "seg_flags e = drop_bit 4 (g_granularity e)"

definition gate_offset :: "idtdescr \<Rightarrow> u32" where
  "gate_offset d = ucast (d_offset_low d) OR push_bit 16 (ucast (d_offset_high d))"

lemma mask_consts:
  "(0xFFFF :: u32) = mask 16" "(0xFFFF :: u16) = mask 16" "(0xFF :: u8) = mask 8"
  "(0x0F :: u8) = mask 4" "(0xFFFFF :: u32) = mask 20"
  by (simp_all add: mask_eq_exp_minus_1)

lemma split_16: "ucast (ucast (v AND 0xFFFF) :: u16) OR push_bit 16 (ucast (ucast (drop_bit 16 v AND 0xFFFF) :: u16)) = v"
  for v :: u32
  unfolding mask_consts
proof (rule bit_word_eqI)
  fix n assume "n < LENGTH(32)"
  then show "bit (ucast (ucast (v AND mask 16) :: u16)
      OR push_bit 16 (ucast (ucast (drop_bit 16 v AND mask 16) :: u16)) :: u32) n = bit v n"
    by (cases "n < 16") (auto simp: bit_simps)
qed

lemma gdt_base: "seg_base (gdt_encode_entry e b l a g) = b"
proof (rule bit_word_eqI)
  fix n assume "n < LENGTH(32)"
  then show "bit (seg_base (gdt_encode_entry e b l a g)) n = bit b n"
    unfolding seg_base_def gdt_encode_entry_def Let_def mask_consts
    by (cases "n < 16"; cases "n < 24") (auto simp: bit_simps)
qed

lemma gdt_limit: "seg_limit (gdt_encode_entry e b l a g) = l AND 0xFFFFF"
proof (rule bit_word_eqI)
  fix n assume "n < LENGTH(32)"
  then show "bit (seg_limit (gdt_encode_entry e b l a g)) n = bit (l AND 0xFFFFF) n"
    unfolding seg_limit_def gdt_encode_entry_def Let_def mask_consts
    by (cases "n < 16"; cases "n < 20") (auto simp: bit_simps)
qed

lemma gdt_flags: "seg_flags (gdt_encode_entry e b l a g) = g AND 0x0F"
proof (rule bit_word_eqI)
  fix n assume "n < LENGTH(8)"
  then show "bit (seg_flags (gdt_encode_entry e b l a g)) n = bit (g AND 0x0F) n"
    unfolding seg_flags_def gdt_encode_entry_def Let_def mask_consts
    by (auto simp: bit_simps)
qed

lemma gate_offset_encode: "gate_offset (idt_encode_addrs d off sel) = off"
  by (simp only: gate_offset_def idt_encode_addrs_def) (simp add: split_16)

subsection \<open>Properties\<close>

text \<open>C25: a segment descriptor that \<^verbatim>\<open>gdt_encode_entry\<close> writes reads back, with the processor's
  layout, as the base, the low 20 bits of the limit, the access byte and the granularity nibble it
  was given.\<close>

theorem gdt_entry_roundtrip:
  "seg_base (gdt_encode_entry e base limit access granularity) = base
   \<and> seg_limit (gdt_encode_entry e base limit access granularity) = limit AND 0xFFFFF
   \<and> g_access (gdt_encode_entry e base limit access granularity) = access
   \<and> seg_flags (gdt_encode_entry e base limit access granularity) = granularity AND 0x0F"
  by (simp only: gdt_base gdt_limit gdt_flags) (simp add: gdt_encode_entry_def Let_def)

lemma idt_fill:
  assumes "length (IDT s) = n"
  shows "runs (kfor [0..<n] (\<lambda>i. kmod (\<lambda>s. s\<lparr>IDT := (IDT s)[i :=
              idt_encode_interrupt (idt_encode_addrs (IDT s ! i) (ISRRoots s i) (cs_reg s))]\<rparr>))) s
    (\<lambda>_ t. t = s\<lparr>IDT := map (\<lambda>k. idt_encode_interrupt (idt_encode_addrs (IDT s ! k) (ISRRoots s k) (cs_reg s))) [0..<n]\<rparr>)"
proof -
  let ?G = "\<lambda>k. idt_encode_interrupt (idt_encode_addrs (IDT s ! k) (ISRRoots s k) (cs_reg s))"
  let ?I = "\<lambda>i t. t = s\<lparr>IDT := map (\<lambda>k. if k < i then ?G k else IDT s ! k) [0..<n]\<rparr>"
  have full: "map (\<lambda>k. if k < n then ?G k else IDT s ! k) [0..<n] = map ?G [0..<n]" by simp
  have "s\<lparr>IDT := map (\<lambda>k. IDT s ! k) [0..<n]\<rparr> = s" using assms map_nth [of "IDT s"] by simp
  then have "?I 0 s" by simp
  then have "runs (kfor [0..<n] (\<lambda>i. kmod (\<lambda>s. s\<lparr>IDT := (IDT s)[i :=
              idt_encode_interrupt (idt_encode_addrs (IDT s ! i) (ISRRoots s i) (cs_reg s))]\<rparr>))) s (\<lambda>_. ?I n)"
    by (rule runs_kfor_upt) (auto simp: runs_def list_eq_iff_nth_eq nth_list_update less_Suc_eq)
  then show ?thesis unfolding full .
qed

lemma idt_gate:
  "gate_offset (idt_encode_interrupt (idt_encode_addrs d off sel)) = off"
  "d_selector (idt_encode_interrupt (idt_encode_addrs d off sel)) = sel"
  "d_present (idt_encode_interrupt (idt_encode_addrs d off sel)) = 1"
  "d_type (idt_encode_interrupt (idt_encode_addrs d off sel)) = 0xE"
proof -
  have "gate_offset (idt_encode_interrupt e) = gate_offset e" for e
    by (simp add: gate_offset_def idt_encode_interrupt_def)
  then show "gate_offset (idt_encode_interrupt (idt_encode_addrs d off sel)) = off"
    by (simp only: gate_offset_encode)
  have "c AND 0xFFFF = c" for c :: u16
    unfolding mask_consts by (rule bit_word_eqI) (simp add: bit_simps)
  then show "d_selector (idt_encode_interrupt (idt_encode_addrs d off sel)) = sel"
    by (simp add: idt_encode_addrs_def idt_encode_interrupt_def)
qed (simp_all add: idt_encode_addrs_def idt_encode_interrupt_def)

text \<open>After \<^verbatim>\<open>idt_init\<close> each of the 256 gates is present, is an interrupt gate of the
  kernel's code segment and leads to the assembly entry point of its own interrupt; no handler is
  registered yet.\<close>

theorem idt_init_gates:
  "runs idt_init s (\<lambda>_ t. length (IDT t) = 256 \<and> IDTCallbacks t = (\<lambda>_. None)
     \<and> idtr t = (2047, sym_IDT (syms s))
     \<and> (\<forall>i < 256. gate_offset (IDT t ! i) = ISRRoots s i \<and> d_selector (IDT t ! i) = cs_reg s
          \<and> d_present (IDT t ! i) = 1 \<and> d_type (IDT t ! i) = 0xE))"
  unfolding idt_init_def pic_init_def pic_remap_def
  by (intro wp runs_weaken [OF idt_fill])
    (auto simp: runs_def NUM_INTERRUPTS_def idt_load_def idt_gate)

theorem idt_init_gates_witness:
  "runs idt_init demo_intr (\<lambda>_ t. gate_offset (IDT t ! 33) = ISRRoots demo_intr 33)"
  by (rule runs_weaken [OF idt_init_gates]) simp

subsection \<open>Interrupt requests\<close>

text \<open>The mask register of a controller holds the byte last written to its data port (all lines
  open before the first write), and reading the port returns it: the 8259A's documented behaviour
  once it is initialised, stated of \<open>devices\<close>.\<close>

definition imr :: "ioev list \<Rightarrow> u16 \<Rightarrow> u8" where
  "imr tr port = fold (\<lambda>e v. case e of Out8 p w \<Rightarrow> if p = port then w else v | _ \<Rightarrow> v) tr 0"

lemma imr_snoc: "imr (tr @ [In8 q, Out8 p v]) port = (if p = port then v else imr tr port)"
  by (simp add: imr_def)

definition imr_readback :: "(ioev list \<Rightarrow> u16 \<Rightarrow> u16) \<Rightarrow> bool" where
  "imr_readback dev \<longleftrightarrow> (\<forall>tr. \<forall>p \<in> {PIC1_DATA, PIC2_DATA}. ucast (dev tr p) = imr tr p)"

definition irq_masked :: "'a machine_scheme \<Rightarrow> nat \<Rightarrow> bool" where
  "irq_masked s j = (if j < 8 then bit (imr (iotrace s) PIC1_DATA) j else bit (imr (iotrace s) PIC2_DATA) (j - 8))"

lemma unat_u8_minus_8: "\<not> irq < 8 \<Longrightarrow> unat (irq - 8) = unat irq - 8" for irq :: u8
  by (simp add: word_less_nat_alt unat_sub word_le_nat_alt)

text \<open>\<^verbatim>\<open>pic_mask\<close> masks the interrupt line it is given and \<^verbatim>\<open>pic_unmask\<close> opens it, whichever of
  the two controllers the line is on, and neither touches any other of the 16 lines.\<close>

theorem pic_mask_only_its_line:
  assumes "imr_readback (devices s)" and "irq < 16" and "j < 16"
  shows "runs (pic_mask irq) s (\<lambda>_ t. irq_masked t j = (j = unat irq \<or> irq_masked s j))
    \<and> runs (pic_unmask irq) s (\<lambda>_ t. irq_masked t j = (j \<noteq> unat irq \<and> irq_masked s j))"
proof -
  have ports: "PIC1_DATA \<noteq> PIC2_DATA" by (simp add: PIC1_DATA_def PIC2_DATA_def)
  have dev: "ucast (devices s tr PIC1_DATA) = imr tr PIC1_DATA" "ucast (devices s tr PIC2_DATA) = imr tr PIC2_DATA" for tr
    using assms(1) by (simp_all add: imr_readback_def)
  have "unat irq < 16" "unat irq - 8 < 32" using assms(2) by (auto simp: word_less_nat_alt)
  moreover have "irq < 8 \<longleftrightarrow> unat irq < 8" by (simp add: word_less_nat_alt)
  ultimately show ?thesis
    using assms(3) ports
    by (auto simp: runs_def pic_mask_def pic_unmask_def pic_line_def irq_masked_def imr_snoc dev
        unat_u8_minus_8 bit_simps)
qed

lemma ucast_ucast_u8: "ucast (ucast v :: u16) = v" for v :: u8
  by (rule bit_word_eqI) (simp add: bit_simps)

definition pic_device :: "ioev list \<Rightarrow> u16 \<Rightarrow> u16" where
  "pic_device tr port = ucast (imr tr port)"

theorem pic_mask_only_its_line_witness:
  "runs (pic_mask 9) (demo_intr\<lparr>devices := pic_device\<rparr>) (\<lambda>_ t. irq_masked t 9)"
  using pic_mask_only_its_line [of "demo_intr\<lparr>devices := pic_device\<rparr>" 9 9]
  by (auto simp: imr_readback_def pic_device_def runs_def ucast_ucast_u8)

text \<open>An interrupt runs the handler registered last for its own number, on the saved registers;
  one that came through a controller other than by line 8 is acknowledged first, at the master
  controller and, exactly when the slave raised it, at the slave before that; nothing is written to a
  port for the processor's own exceptions and for system calls.\<close>

theorem interrupt_dispatch:
  assumes "n < 256" and "n \<noteq> 40" and "unat (r_int_no regs) = n"
  shows "kthen (idt_set_handler n f) (idt_handler call regs) s =
    call f regs (s\<lparr>IDTCallbacks := (IDTCallbacks s)(n \<mapsto> f),
      iotrace := iotrace s @ (if n \<in> {41..47} then [Out8 0xA0 0x20] else []) @
        (if n \<in> {32..47} then [Out8 0x20 0x20] else [])\<rparr>)"
  using assms
  by (auto simp: idt_set_handler_def idt_handler_def pic_eoi_def int_defs
      PIC1_COMMAND_def PIC2_COMMAND_def PIC_EOI_def kwhen_def)

definition demo_regs :: isrargs where
  "demo_regs = \<lparr>r_ds = 0, r_edi = 0, r_esi = 0, r_ebp = 0, r_esp = 0, r_ebx = 0, r_edx = 0, r_ecx = 0,
     r_eax = 0, r_int_no = 33, r_err_code = 0, r_eip = 0, r_cs = 0, r_eflags = 0, r_useresp = 0, r_ss = 0\<rparr>"

theorem interrupt_dispatch_witness:
  "kthen (idt_set_handler 33 IsrKbd) (idt_handler (\<lambda>_. kret) demo_regs) demo_intr =
    kret demo_regs (demo_intr\<lparr>IDTCallbacks := (IDTCallbacks demo_intr)(33 \<mapsto> IsrKbd),
      iotrace := iotrace demo_intr @ [Out8 0x20 0x20]\<rparr>)"
  by (subst interrupt_dispatch [of 33]) (simp_all add: demo_regs_def)

text \<open>Line 8 is the first of the slave controller, but the comparison is strict: its requests are
  acknowledged at the master only.\<close>

lemma irq8_slave_not_acknowledged:
  "pic_eoi (demo_regs\<lparr>r_int_no := of_nat INT_PIC2_BASE\<rparr>) s = Done () (s\<lparr>iotrace := iotrace s @ [Out8 0x20 0x20]\<rparr>)"
  by (simp add: pic_eoi_def int_defs PIC1_COMMAND_def PIC_EOI_def)

text \<open>The timer is meant to fire 200 times a second, from a divisor of 5965; the high byte written is
  bits 16 to 23 of the divisor, so the device is given 77.\<close>

lemma pit_init_programs_77:
  "pit_divisor = 5965
   \<and> runs pit_init s (\<lambda>_ t. iotrace t = iotrace s @ [Out8 0x43 0x36, Out8 0x40 77, Out8 0x40 0])"
  by (simp add: pit_divisor_def pit_freq_def pit_init_def idt_set_handler_def runs_def)

end
