(* ===== verification/Framealloc.thy ===== *)
theory Framealloc
  imports Interrupts
begin

text \<open>
  The physical frame allocator (\<^verbatim>\<open>arch/x86/mem/framealloc.c\<close>): a bitmap with one bit for each
  4 KiB frame, a small pool of preallocated frames used before the bitmap exists, and the page
  loops shared by the memory code. The routines are shown to implement a set of used frames.
  \<^verbatim>\<open>frame_alloc_init\<close> is in theory Brk, since it calls \<^verbatim>\<open>malloc\<close>.
\<close>

record frames = intr +
  FrameAllocInitialized :: bool
  FrameBitmap :: "u32 list"
  FrameCount :: u32
  PreallocCount :: nat

definition PreallocMaxCount :: nat where "PreallocMaxCount = 8"

definition BITS_PER_ENTRY :: u32 where "BITS_PER_ENTRY = 8 * 4"
definition BIT_IDX :: "u32 \<Rightarrow> u32" where "BIT_IDX x = x div BITS_PER_ENTRY"
definition BIT_OFFSET :: "u32 \<Rightarrow> u32" where "BIT_OFFSET x = x mod BITS_PER_ENTRY"
definition ADDR_PAGE :: "u32 \<Rightarrow> u32" where "ADDR_PAGE x = x div PAGE_SIZE"

subsection \<open>Loops over pages\<close>

text \<open>\<^verbatim>\<open>for (i = begin; i < lim; i += PAGE_SIZE)\<close> on 32-bit addresses: \<open>i\<close> may wrap.\<close>

partial_function (option) page_loop ::
  "(u32 \<Rightarrow> 's \<Rightarrow> (stop + unit \<times> 's) option) \<Rightarrow> u32 \<Rightarrow> u32 \<Rightarrow> 's \<Rightarrow> (stop + unit \<times> 's) option" where
  "page_loop f i lim s =
     (if i < lim then kthen (f i) (page_loop f (i + PAGE_SIZE) lim) s else Done () s)"

definition frame_clear :: "paddr_t \<Rightarrow> ('a frames_scheme, unit) kern" where
  "frame_clear ptr s =
     (if FrameAllocInitialized s = False then Done () s
      else let entry = ADDR_PAGE ptr; idx = unat (BIT_IDX entry); off = unat (BIT_OFFSET entry)
           in if length (FrameBitmap s) \<le> idx then Halt BadAccess
              else Done () (s\<lparr>FrameBitmap := (FrameBitmap s)[idx := FrameBitmap s ! idx AND NOT (push_bit off 1)]\<rparr>))"

definition frame_set :: "paddr_t \<Rightarrow> ('a frames_scheme, unit) kern" where
  "frame_set ptr s =
     (if FrameAllocInitialized s = False then Done () s
      else let entry = ADDR_PAGE ptr; idx = unat (BIT_IDX entry); off = unat (BIT_OFFSET entry)
           in if length (FrameBitmap s) \<le> idx then Halt BadAccess
              else Done () (s\<lparr>FrameBitmap := (FrameBitmap s)[idx := FrameBitmap s ! idx OR push_bit off 1]\<rparr>))"

definition frame_clear_range :: "paddr_t \<Rightarrow> paddr_t \<Rightarrow> ('a frames_scheme, unit) kern" where
  "frame_clear_range begin end = page_loop frame_clear begin (end + PAGE_SIZE)"

definition frame_set_range :: "paddr_t \<Rightarrow> paddr_t \<Rightarrow> ('a frames_scheme, unit) kern" where
  "frame_set_range begin end = page_loop frame_set begin (end + PAGE_SIZE)"

definition frame_test :: "paddr_t \<Rightarrow> ('a frames_scheme, bool) kern" where
  "frame_test ptr s =
     (let entry = ADDR_PAGE ptr; idx = unat (BIT_IDX entry); off = unat (BIT_OFFSET entry)
      in if length (FrameBitmap s) \<le> idx then Halt BadAccess
         else Done (FrameBitmap s ! idx AND push_bit off 1 \<noteq> 0) s)"

text \<open>The two nested loops of \<^verbatim>\<open>frame_alloc_after\<close>: \<open>i\<close> indexes the bitmap's words but is
  compared with \<^verbatim>\<open>FrameCount\<close>, the number of frames.\<close>

definition free_bit :: "u32 \<Rightarrow> nat option" where
  "free_bit w = List.find (\<lambda>j. w AND push_bit j 1 = 0) [0..<32]"

function alloc_scan :: "u32 list \<Rightarrow> nat \<Rightarrow> nat \<Rightarrow> stop + paddr_t" where
  "alloc_scan bm i n =
     (if i < n then
        if length bm \<le> i then Inl BadAccess
        else if bm ! i = 0xFFFFFFFF then alloc_scan bm (Suc i) n
        else case free_bit (bm ! i) of
               Some j \<Rightarrow> Inr ((of_nat i * BITS_PER_ENTRY + of_nat j) * PAGE_SIZE)
             | None \<Rightarrow> alloc_scan bm (Suc i) n
      else Inl (Panic ''Out of memory''))"
  by pat_completeness auto
termination
  by (relation "measure (\<lambda>(bm, i, n). n - i)") auto

declare alloc_scan.simps [simp del]

definition frame_alloc_after :: "paddr_t \<Rightarrow> ('a frames_scheme, paddr_t) kern" where
  "frame_alloc_after addr s =
     (case alloc_scan (FrameBitmap s) (unat (ADDR_PAGE addr)) (unat (FrameCount s)) of
        Inl e \<Rightarrow> Halt e | Inr p \<Rightarrow> Done p s)"

definition frame_alloc :: "('a frames_scheme, paddr_t) kern" where
  "frame_alloc s =
     (if FrameAllocInitialized s = False then
        if PreallocCount s = PreallocMaxCount then Halt (Panic ''Out of preallocated frames'')
        else Done (KBSSTOPHYS (sym_PreallocFrames (syms s) + of_nat (PreallocCount s) * 4096))
               (s\<lparr>PreallocCount := PreallocCount s + 1\<rparr>)
      else frame_alloc_after 0 s)"

text \<open>The search loop of \<^verbatim>\<open>frame_alloc_4m\<close>: on a word in use it sets \<open>i\<close> to 0 and \<open>f0\<close> to
  the next word, and then the loop's \<^verbatim>\<open>i++\<close> makes \<open>i\<close> 1.\<close>

function scan_4m :: "u32 list \<Rightarrow> nat \<Rightarrow> nat \<Rightarrow> nat \<Rightarrow> stop + nat" where
  "scan_4m bm bytecount i f0 =
     (if i < 32 \<and> f0 < bytecount then
        if length bm \<le> f0 + i then Inl BadAccess
        else if bm ! (f0 + i) \<noteq> 0 then scan_4m bm bytecount (Suc 0) (f0 + 0 + 1)
        else scan_4m bm bytecount (Suc i) f0
      else Inr f0)"
  by pat_completeness auto
termination
  by (relation "measures [\<lambda>(bm, bc, i, f0). bc - f0, \<lambda>(bm, bc, i, f0). 32 - i]") auto

declare scan_4m.simps [simp del]

definition frame_alloc_4m :: "('a frames_scheme, paddr_t) kern" where
  "frame_alloc_4m s =
     (case scan_4m (FrameBitmap s) (unat (BIT_IDX (FrameCount s))) 0 0 of
        Inl e \<Rightarrow> Halt e | Inr f0 \<Rightarrow> Done (of_nat f0 * BITS_PER_ENTRY * PAGE_SIZE) s)"

subsection \<open>The page loop as a bounded loop\<close>

definition page_count :: "u32 \<Rightarrow> u32 \<Rightarrow> nat" where
  "page_count i lim = (unat lim - unat i + 4095) div 4096"

definition page_list :: "u32 \<Rightarrow> u32 \<Rightarrow> u32 list" where
  "page_list i lim = map (\<lambda>k. i + of_nat k * PAGE_SIZE) [0..<page_count i lim]"

lemma page_list_Nil: "\<not> i < lim \<Longrightarrow> page_list i lim = []"
  by (simp add: page_list_def page_count_def word_less_nat_alt)

lemma unat_next_page:
  assumes "i < lim" and "lim \<le> 0xFFFFF000"
  shows "unat (i + PAGE_SIZE) = unat i + 4096"
proof -
  have "unat i + 4096 < 2 ^ 32" using assms by (simp add: word_less_nat_alt word_le_nat_alt)
  then show ?thesis using unat_add_lem [of i PAGE_SIZE] by (simp add: PAGE_SIZE_def)
qed

lemma ceil_page_Suc: "0 < d \<Longrightarrow> (d + 4095) div 4096 = Suc ((d - 4096 + 4095) div 4096)" for d :: nat
proof (cases "4096 \<le> d")
  case True
  then obtain e where "d = 4096 + e" using le_Suc_ex by blast
  then show ?thesis using div_add_self1 [of 4096 "e + 4095"] by (simp add: add.assoc)
next
  case False
  moreover assume "0 < d"
  ultimately have "d + 4095 = 4096 + (d - 1)" "d - 1 < 4096" by auto
  with False show ?thesis using div_add_self1 [of 4096 "d - 1"] by simp
qed

lemma page_count_Suc:
  assumes "i < lim" and "lim \<le> 0xFFFFF000"
  shows "page_count i lim = Suc (page_count (i + PAGE_SIZE) lim)"
  using assms(1) unat_next_page [OF assms] ceil_page_Suc [of "unat lim - unat i"]
  by (simp add: page_count_def word_less_nat_alt)

lemma page_list_Cons:
  assumes "i < lim" and "lim \<le> 0xFFFFF000"
  shows "page_list i lim = i # page_list (i + PAGE_SIZE) lim"
  by (simp add: page_list_def page_count_Suc [OF assms] upt_conv_Cons map_Suc_upt [symmetric]
      algebra_simps del: upt_Suc)

lemma page_loop_kfor:
  assumes "lim \<le> 0xFFFFF000"
  shows "page_loop f i lim s = kfor (page_list i lim) f s"
proof (induction "page_count i lim" arbitrary: i s)
  case 0
  then have "\<not> i < lim" using page_count_Suc [OF _ assms] by fastforce
  then show ?case by (simp add: page_loop.simps [of f i lim s] page_list_Nil)
next
  case (Suc n)
  show ?case
  proof (cases "i < lim")
    case True
    then have "n = page_count (i + PAGE_SIZE) lim"
      using Suc.hyps(2) page_count_Suc [OF True assms] by simp
    then have "page_loop f (i + PAGE_SIZE) lim = kfor (page_list (i + PAGE_SIZE) lim) f"
      using Suc.hyps(1) by blast
    with True show ?thesis
      by (simp add: page_loop.simps [of f i lim s] page_list_Cons [OF True assms])
  next
    case False
    then show ?thesis by (simp add: page_loop.simps [of f i lim s] page_list_Nil)
  qed
qed

text \<open>A bound in the last page of the address space is never passed: the index wraps to 0.\<close>

lemma low_bits_lt:
  fixes i lim :: u32
  assumes "0xFFFFF000 \<le> lim" and "i mod 0x1000 < lim mod 0x1000"
  shows "i < lim"
proof -
  have l: "unat lim mod 4096 = unat lim - 4294963200" "4294963200 \<le> unat lim"
  proof -
    show ge: "4294963200 \<le> unat lim" using assms(1) by (simp add: word_le_nat_alt)
    then obtain d where d: "unat lim = 4294963200 + d" using le_Suc_ex by blast
    then have "d < 4096" using unat_lt32 [of lim] by simp
    then have "(4294963200 + d) mod 4096 = d" by (subst mod_add_eq [symmetric]) simp
    then show "unat lim mod 4096 = unat lim - 4294963200" by (simp add: d)
  qed
  have "unat i mod 4096 < unat lim mod 4096" using assms(2) by (simp add: word_less_nat_alt unat_mod)
  moreover have "unat i \<le> 4294963200 + unat i mod 4096"
  proof -
    have "unat i div 4096 \<le> 1048575" using unat_lt32 [of i] by simp
    then show ?thesis using div_mult_mod_eq [of "unat i" 4096] by linarith
  qed
  ultimately show ?thesis using l by (simp add: word_less_nat_alt)
qed

lemma next_page_low_bits: "(i + PAGE_SIZE) mod 0x1000 = i mod 0x1000" for i :: u32
proof -
  have "(unat i + 4096) mod 4294967296 mod 4096 = unat i mod 4096"
    by (simp add: mod_mod_cancel)
  then show ?thesis
    by (simp add: word_unat_eq_iff unat_mod PAGE_SIZE_def unat_word_ariths)
qed

lemma page_loop_wraps:
  fixes f :: "u32 \<Rightarrow> 's \<Rightarrow> (stop + unit \<times> 's) option"
  assumes lim: "0xFFFFF000 \<le> lim" and low: "i mod 0x1000 < lim mod 0x1000" and inv: "I s"
    and body: "\<And>j t. I t \<Longrightarrow> \<exists>u. f j t = Done () u \<and> I u"
  shows "page_loop f i lim s = None"
proof (rule ccontr)
  assume "page_loop f i lim s \<noteq> None"
  then obtain r where ret: "page_loop f i lim s = Some r" by blast
  let ?P = "\<lambda>g j l t (_ :: stop + unit \<times> 's). \<not> (g = f \<and> l = lim \<and> j mod 0x1000 < lim mod 0x1000 \<and> I t)"
  have "?P f i lim s r"
  proof (rule page_loop.raw_induct [where P = ?P, OF _ ret], intro notI, elim conjE)
    fix loop :: "(u32 \<Rightarrow> 's \<Rightarrow> (stop + unit \<times> 's) option) \<Rightarrow> u32 \<Rightarrow> u32 \<Rightarrow> 's \<Rightarrow> (stop + unit \<times> 's) option"
      and g j l t r
    assume IH: "\<And>g j l t r. loop g j l t = Some r \<Longrightarrow> ?P g j l t r"
      and eq: "(if j < l then kthen (g j) (loop g (j + PAGE_SIZE) l) t else Done () t) = Some r"
      and c: "g = f" "l = lim" "j mod 0x1000 < lim mod 0x1000" "I t"
    from body [OF c(4), of j] obtain u where u: "g j t = Done () u" "I u" using c(1) by blast
    have "j < l" using low_bits_lt [OF lim c(3)] c(2) by simp
    with eq u have "loop g (j + PAGE_SIZE) l u = Some r" by simp
    from IH [OF this] show False using c u(2) by (simp add: next_page_low_bits)
  qed
  with low inv show False by simp
qed

subsection \<open>The bitmap as a set of frame numbers\<close>

definition page_of :: "u32 \<Rightarrow> nat" where
  "page_of p = unat p div 4096"

definition used :: "u32 list \<Rightarrow> nat set" where
  "used bm = {n. n < 32 * length bm \<and> bit (bm ! (n div 32)) (n mod 32)}"

abbreviation frame_used :: "'a frames_scheme \<Rightarrow> nat set" where
  "frame_used s \<equiv> used (FrameBitmap s)"

definition frame_capacity :: "'a frames_scheme \<Rightarrow> nat" where
  "frame_capacity s = 32 * length (FrameBitmap s)"

definition frames_wf :: "'a frames_scheme \<Rightarrow> bool" where
  "frames_wf s \<longleftrightarrow> FrameAllocInitialized s
     \<and> length (FrameBitmap s) = unat (FrameCount s) div 32 \<and> unat (FrameCount s) < 2 ^ 20"

lemma bit_index: "unat (BIT_IDX (ADDR_PAGE p)) = page_of p div 32"
    "unat (BIT_OFFSET (ADDR_PAGE p)) = page_of p mod 32"
  by (simp_all add: BIT_IDX_def BIT_OFFSET_def ADDR_PAGE_def BITS_PER_ENTRY_def PAGE_SIZE_def
      page_of_def unat_div unat_mod)

lemma index_less: "n < 32 * k \<Longrightarrow> n div 32 < k" for n :: nat
  by (simp add: less_mult_imp_div_less mult.commute)

lemma used_less: "n \<in> used bm \<Longrightarrow> n < 32 * length bm"
  by (simp add: used_def)

lemma same_bit_index: "n div 32 = m div 32 \<Longrightarrow> n mod 32 = m mod 32 \<Longrightarrow> n = m" for n m :: nat
  by (metis div_mult_mod_eq)

lemma bit_pow32: "bit (2 ^ j :: u32) k \<longleftrightarrow> k = j \<and> k < 32"
  by (auto simp: bit_simps)

lemma used_set_bit:
  assumes "n < 32 * length bm"
  shows "used (bm[n div 32 := bm ! (n div 32) OR push_bit (n mod 32) 1]) = insert n (used bm)"
  using index_less [OF assms] assms
  by (auto simp: used_def nth_list_update bit_or_iff bit_pow32 intro: same_bit_index)

lemma used_clear_bit:
  assumes "n < 32 * length bm"
  shows "used (bm[n div 32 := bm ! (n div 32) AND NOT (push_bit (n mod 32) 1)]) = used bm - {n}"
  using index_less [OF assms] assms
  by (auto simp: used_def nth_list_update bit_and_iff bit_not_iff bit_pow32 dest: same_bit_index)

lemma frame_set_run:
  assumes "FrameAllocInitialized s" "page_of p < frame_capacity s"
  shows "frame_set p s = Done () (s\<lparr>FrameBitmap := (FrameBitmap s)
           [page_of p div 32 := FrameBitmap s ! (page_of p div 32) OR push_bit (page_of p mod 32) 1]\<rparr>)"
  using assms index_less by (simp add: frame_set_def bit_index Let_def frame_capacity_def not_le)

lemma frame_clear_run:
  assumes "FrameAllocInitialized s" "page_of p < frame_capacity s"
  shows "frame_clear p s = Done () (s\<lparr>FrameBitmap := (FrameBitmap s)
           [page_of p div 32 := FrameBitmap s ! (page_of p div 32) AND NOT (push_bit (page_of p mod 32) 1)]\<rparr>)"
  using assms index_less by (simp add: frame_clear_def bit_index Let_def frame_capacity_def not_le)

lemma frame_set_used:
  assumes "frames_wf s" "page_of p < frame_capacity s"
  shows "runs (frame_set p) s (\<lambda>_ t. frames_wf t \<and> frame_capacity t = frame_capacity s
           \<and> frame_used t = insert (page_of p) (frame_used s))"
  using assms used_set_bit [of "page_of p" "FrameBitmap s"]
  by (intro runsI [OF frame_set_run]) (auto simp: frames_wf_def frame_capacity_def)

lemma frame_clear_used:
  assumes "frames_wf s" "page_of p < frame_capacity s"
  shows "runs (frame_clear p) s (\<lambda>_ t. frames_wf t \<and> frame_capacity t = frame_capacity s
           \<and> frame_used t = frame_used s - {page_of p})"
  using assms used_clear_bit [of "page_of p" "FrameBitmap s"]
  by (intro runsI [OF frame_clear_run]) (auto simp: frames_wf_def frame_capacity_def)

lemma frame_test_used:
  assumes "page_of p < frame_capacity s"
  shows "frame_test p s = Done (page_of p \<in> frame_used s) s"
  using assms index_less
  by (simp add: frame_test_def bit_index Let_def and_exp_eq_0_iff_not_bit used_def frame_capacity_def not_le)

text \<open>Outside the bitmap nothing is checked: the access leaves the array.\<close>

lemma frame_set_outside:
  "FrameAllocInitialized s \<Longrightarrow> frame_capacity s \<le> page_of p \<Longrightarrow> frame_set p s = Halt BadAccess"
  by (simp add: frame_set_def bit_index Let_def frame_capacity_def less_eq_div_iff_mult_less_eq mult.commute)

lemma frame_clear_outside:
  "FrameAllocInitialized s \<Longrightarrow> frame_capacity s \<le> page_of p \<Longrightarrow> frame_clear p s = Halt BadAccess"
  by (simp add: frame_clear_def bit_index Let_def frame_capacity_def less_eq_div_iff_mult_less_eq mult.commute)

subsection \<open>Ranges\<close>

lemma page_list_unat:
  assumes "lim \<le> 0xFFFFF000" and "k < page_count i lim"
  shows "unat (i + of_nat k * PAGE_SIZE) = unat i + k * 4096"
proof -
  have "k * 4096 < unat lim - unat i"
    using assms(2) by (simp add: page_count_def less_eq_div_iff_mult_less_eq Suc_le_eq [symmetric])
  then have "unat i + k * 4096 < 2 ^ 32" using unat_lt32 [of lim] by simp
  moreover from this have "unat (of_nat k * PAGE_SIZE) = k * 4096"
    by (simp add: PAGE_SIZE_def unat_word_ariths unat_of_nat)
  ultimately show ?thesis using unat_add_lem [of i "of_nat k * PAGE_SIZE"] by simp
qed

lemma page_list_pages:
  assumes "lim \<le> 0xFFFFF000"
  shows "page_of ` set (page_list i lim) = {page_of i ..< page_of i + page_count i lim}"
proof -
  have "page_of (i + of_nat k * PAGE_SIZE) = page_of i + k" if "k < page_count i lim" for k
    using page_list_unat [OF assms that] by (simp add: page_of_def)
  then have "page_of ` set (page_list i lim) = (\<lambda>k. page_of i + k) ` {..<page_count i lim}"
    by (auto simp: page_list_def image_image lessThan_atLeast0)
  also have "\<dots> = {page_of i ..< page_of i + page_count i lim}"
    by (metis image_add_atLeastLessThan add.right_neutral add.commute lessThan_atLeast0)
  finally show ?thesis .
qed

lemma range_pages:
  assumes "page_aligned b" "page_aligned e" "b \<le> e" "e < 0xFFFFF000"
  shows "page_of ` set (page_list b (e + PAGE_SIZE)) = {page_of b..page_of e}"
proof -
  have e: "unat (e + PAGE_SIZE) = unat e + 4096"
    using unat_next_page [of e "0xFFFFF000"] assms(4) by simp
  moreover have e_le: "unat e \<le> 4294959104"
  proof -
    obtain k where "unat e = 4096 * k" using page_aligned_ex [OF assms(2)] by blast
    then show ?thesis using assms(4) by (simp add: word_less_nat_alt)
  qed
  ultimately have lim: "e + PAGE_SIZE \<le> 0xFFFFF000" by (simp add: word_le_nat_alt)
  obtain j k where "unat b = 4096 * j" "unat e = 4096 * k"
    using page_aligned_ex assms(1,2) by metis
  moreover from this have "j \<le> k" using assms(3) by (simp add: word_le_nat_alt)
  moreover from this obtain d where "k = j + d" using le_Suc_ex by blast
  ultimately have "page_count b (e + PAGE_SIZE) = Suc (page_of e - page_of b)" "page_of b \<le> page_of e"
    using e by (simp_all add: page_count_def page_of_def)
  then show ?thesis by (subst page_list_pages [OF lim]) auto
qed

lemma frame_range_used:
  assumes wf: "frames_wf s" and cap: "\<forall>p \<in> set ps. page_of p < frame_capacity s"
  shows "runs (kfor ps frame_set) s (\<lambda>_ t. frames_wf t \<and> frame_capacity t = frame_capacity s
           \<and> frame_used t = frame_used s \<union> page_of ` set ps)"
    and "runs (kfor ps frame_clear) s (\<lambda>_ t. frames_wf t \<and> frame_capacity t = frame_capacity s
           \<and> frame_used t = frame_used s - page_of ` set ps)"
proof -
  let ?I = "\<lambda>U d t. frames_wf t \<and> frame_capacity t = frame_capacity s \<and> frame_used t = U (page_of ` set d)"
  show "runs (kfor ps frame_set) s (\<lambda>_. ?I (\<lambda>X. frame_used s \<union> X) ps)"
    by (rule runs_kfor [where I = "?I (\<lambda>X. frame_used s \<union> X)"])
      (use wf cap in \<open>auto intro!: runs_weaken [OF frame_set_used]\<close>)
  show "runs (kfor ps frame_clear) s (\<lambda>_. ?I (\<lambda>X. frame_used s - X) ps)"
    by (rule runs_kfor [where I = "?I (\<lambda>X. frame_used s - X)"])
      (use wf cap in \<open>auto intro!: runs_weaken [OF frame_clear_used]\<close>)
qed

lemma range_limit:
  assumes "page_aligned e" "e < 0xFFFFF000"
  shows "e + PAGE_SIZE \<le> 0xFFFFF000"
proof -
  obtain k where "unat e = 4096 * k" using page_aligned_ex [OF assms(1)] by blast
  then show ?thesis using unat_next_page [of e "0xFFFFF000"] assms(2)
    by (simp add: word_less_nat_alt word_le_nat_alt)
qed

subsection \<open>Allocation\<close>

lemma free_bit_Some: "free_bit w = Some j \<Longrightarrow> j < 32 \<and> \<not> bit w j \<and> (\<forall>k < j. bit w k)"
  by (auto simp: free_bit_def find_Some_iff and_exp_eq_0_iff_not_bit)

lemma free_bit_None: "free_bit w = None \<Longrightarrow> k < 32 \<Longrightarrow> bit w k"
  by (auto simp: free_bit_def find_None_iff and_exp_eq_0_iff_not_bit)

lemma full_word: "bit (0xFFFFFFFF :: u32) k \<longleftrightarrow> k < 32"
proof -
  have "(0xFFFFFFFF :: u32) = - 1" by simp
  then show ?thesis by (simp only: bit_minus_1_iff) simp
qed

lemma word_full_used:
  assumes "i < length bm" "bm ! i = 0xFFFFFFFF \<or> free_bit (bm ! i) = None" "m div 32 = i"
  shows "m \<in> used bm"
proof -
  have "bit (bm ! i) (m mod 32)" 
    using assms(2) full_word [of "m mod 32"] free_bit_None [of "bm ! i" "m mod 32"] by auto
  moreover have "m < 32 * length bm"
    using assms(1,3) by (metis div_less_iff_less_mult mult.commute zero_less_numeral)
  ultimately show ?thesis using assms(3) by (simp add: used_def)
qed

lemma alloc_scan_first_free:
  assumes "length bm \<le> n" and "\<exists>m. 32 * i \<le> m \<and> m < 32 * length bm \<and> m \<notin> used bm"
  shows "\<exists>m. alloc_scan bm i n = Inr (of_nat m * PAGE_SIZE) \<and> 32 * i \<le> m \<and> m < 32 * length bm
           \<and> m \<notin> used bm \<and> (\<forall>m'. 32 * i \<le> m' \<and> m' < m \<longrightarrow> m' \<in> used bm)"
  using assms
proof (induction bm i n rule: alloc_scan.induct)
  case (1 bm i n)
  then have i: "i < length bm" "i < n" by auto
  show ?case
  proof (cases "bm ! i = 0xFFFFFFFF \<or> free_bit (bm ! i) = None")
    case True
    then have here: "m \<in> used bm" if "m div 32 = i" for m
      using that word_full_used [OF i(1)] by blast
    have up: "32 * Suc i \<le> m" if "32 * i \<le> m" "m \<notin> used bm" for m
      using here [of m] that by (cases "m < 32 * Suc i") (auto simp: div_nat_eqI)
    have "\<exists>m. 32 * Suc i \<le> m \<and> m < 32 * length bm \<and> m \<notin> used bm"
      using "1.prems"(2) up by blast
    with True i "1.IH" "1.prems"(1) obtain m where m: "alloc_scan bm (Suc i) n = Inr (of_nat m * PAGE_SIZE)"
      "32 * Suc i \<le> m" "m < 32 * length bm" "m \<notin> used bm"
      "\<forall>m'. 32 * Suc i \<le> m' \<and> m' < m \<longrightarrow> m' \<in> used bm" by fastforce
    have "alloc_scan bm i n = alloc_scan bm (Suc i) n"
      using True i by (auto simp: alloc_scan.simps [of bm i n])
    with m up show ?thesis by (intro exI [of _ m]) auto
  next
    case False
    then obtain j where j: "free_bit (bm ! i) = Some j" by blast
    note fb = free_bit_Some [OF j]
    have "alloc_scan bm i n = Inr (of_nat (32 * i + j) * PAGE_SIZE)"
      using False i j 
      by (simp add: alloc_scan.simps [of bm i n] BITS_PER_ENTRY_def mult.commute)
    moreover have "32 * i + j < 32 * length bm" "32 * i + j \<notin> used bm"
      using i fb by (simp_all add: used_def)
    moreover have "m' \<in> used bm" if "32 * i \<le> m'" "m' < 32 * i + j" for m'
    proof -
      from that fb obtain k where "m' = 32 * i + k" "k < j" using le_Suc_ex by auto
      then show ?thesis using fb i by (simp add: used_def)
    qed
    ultimately show ?thesis by (intro exI [of _ "32 * i + j"]) auto
  qed
qed

lemma alloc_scan_full:
  assumes "\<forall>m < 32 * length bm. m \<in> used bm" and "length bm < n"
  shows "alloc_scan bm i n = Inl (if i < n then BadAccess else Panic ''Out of memory'')"
  using assms
proof (induction bm i n rule: alloc_scan.induct)
  case (1 bm i n)
  have full: "bm ! i = 0xFFFFFFFF" if "i < length bm"
  proof (rule bit_word_eqI)
    fix k assume "k < LENGTH(32)"
    moreover from this have "32 * i + k \<in> used bm" using that "1.prems"(1) by simp
    ultimately show "bit (bm ! i) k = bit (0xFFFFFFFF :: u32) k"
      using full_word [of k] by (simp add: used_def)
  qed
  show ?case
  proof (cases "i < length bm")
    case True
    with full "1.prems" have "alloc_scan bm i n = alloc_scan bm (Suc i) n"
      by (simp add: alloc_scan.simps [of bm i n])
    with True full "1.IH" "1.prems" show ?thesis by auto
  qed (use "1.prems"(2) in \<open>auto simp: alloc_scan.simps [of bm i n]\<close>)
qed

lemma page_of_frame:
  assumes "m < 2 ^ 20"
  shows "page_of (of_nat m * PAGE_SIZE) = m" "page_aligned (of_nat m * PAGE_SIZE)"
proof -
  have "unat (of_nat m * PAGE_SIZE) = m * 4096"
    using assms by (simp add: PAGE_SIZE_def unat_word_ariths unat_of_nat)
  then show "page_of (of_nat m * PAGE_SIZE) = m" "page_aligned (of_nat m * PAGE_SIZE)"
    by (simp_all add: page_of_def page_aligned_unat)
qed

lemma frames_wf_capacity: "frames_wf s \<Longrightarrow> frame_capacity s < 2 ^ 20"
  by (simp add: frames_wf_def frame_capacity_def) linarith

text \<open>\<^verbatim>\<open>frame_alloc\<close> returns the lowest free frame and changes nothing: the caller marks it.\<close>

lemma frame_alloc_first_free:
  assumes "frames_wf s" and "\<exists>m < frame_capacity s. m \<notin> frame_used s"
  shows "runs frame_alloc s (\<lambda>p t. t = s \<and> page_aligned p \<and> page_of p < frame_capacity s
           \<and> page_of p \<notin> frame_used s \<and> (\<forall>m < page_of p. m \<in> frame_used s))"
proof -
  have "length (FrameBitmap s) \<le> unat (FrameCount s)"
    using assms(1) by (simp add: frames_wf_def)
  with assms(2) obtain m where scan: "alloc_scan (FrameBitmap s) 0 (unat (FrameCount s)) = Inr (of_nat m * PAGE_SIZE)"
    and m: "m < frame_capacity s" "m \<notin> frame_used s" "\<forall>m' < m. m' \<in> frame_used s"
    using alloc_scan_first_free [of "FrameBitmap s" "unat (FrameCount s)" 0]
    by (auto simp: frame_capacity_def)
  have "m < 2 ^ 20" using m(1) frames_wf_capacity [OF assms(1)] by simp
  note fr = page_of_frame [OF this]
  have "frame_alloc s = Done (of_nat m * PAGE_SIZE) s"
    using assms(1) scan by (simp add: frame_alloc_def frame_alloc_after_def frames_wf_def ADDR_PAGE_def)
  then show ?thesis using m fr by (intro runsI) auto
qed

text \<open>With every frame in use the scan runs past the end of the bitmap before it can panic.\<close>

lemma frame_alloc_exhausted:
  assumes "frames_wf s" and "\<forall>m < frame_capacity s. m \<in> frame_used s" and "FrameCount s \<noteq> 0"
  shows "frame_alloc s = Halt BadAccess"
proof -
  have "0 < unat (FrameCount s)" using assms(3) by (simp add: unat_gt_0)
  then have "length (FrameBitmap s) < unat (FrameCount s)" using assms(1) by (simp add: frames_wf_def)
  with assms alloc_scan_full [of "FrameBitmap s" "unat (FrameCount s)" 0] show ?thesis
    by (auto simp: frame_alloc_def frame_alloc_after_def frames_wf_def frame_capacity_def ADDR_PAGE_def)
qed

subsection \<open>4 MiB allocation\<close>

lemma scan_4m_tail_free:
  assumes "scan_4m bm bc i f0 = Inr f" and "\<forall>k. 0 < k \<and> k < i \<longrightarrow> bm ! (f0 + k) = 0" and "i \<le> 32"
  shows "bc \<le> f \<or> (\<forall>k. 0 < k \<and> k < 32 \<longrightarrow> bm ! (f + k) = 0)"
  using assms
proof (induction bm bc i f0 rule: scan_4m.induct)
  case (1 bm bc i f0)
  show ?case
  proof (cases "i < 32 \<and> f0 < bc")
    case True
    then have "\<not> length bm \<le> f0 + i"
      using "1.prems"(1) by (auto simp: scan_4m.simps [of bm bc i f0])
    then show ?thesis
      using True "1.IH" "1.prems" by (auto simp: scan_4m.simps [of bm bc i f0] less_Suc_eq split: if_splits)
  next
    case False
    then show ?thesis using "1.prems" by (auto simp: scan_4m.simps [of bm bc i f0])
  qed
qed

lemma scan_4m_bound:
  "scan_4m bm bc i f0 = Inr f \<Longrightarrow> f0 \<le> bc \<Longrightarrow> f \<le> bc"
proof (induction bm bc i f0 rule: scan_4m.induct)
  case (1 bm bc i f0)
  then show ?case by (auto simp: scan_4m.simps [of bm bc i f0] split: if_splits)
qed

subsection \<open>What the allocator's clients rely on\<close>

text \<open>
  Every client takes a frame in two steps, \<^verbatim>\<open>frame_alloc()\<close> and then \<^verbatim>\<open>frame_set()\<close>
  (\<^verbatim>\<open>pg_alloc\<close>, \<^verbatim>\<open>pg_dir_new\<close>, \<^verbatim>\<open>pg_clone_page\<close>, the page fault handler).
\<close>

definition claim_frame :: "('s, paddr_t) kern \<Rightarrow> (paddr_t \<Rightarrow> ('s, unit) kern) \<Rightarrow> ('s, paddr_t) kern" where
  "claim_frame alloc mark = kbind alloc (\<lambda>p. kthen (mark p) (kret p))"

primrec claim_frames ::
  "('s, paddr_t) kern \<Rightarrow> (paddr_t \<Rightarrow> ('s, unit) kern) \<Rightarrow> nat \<Rightarrow> ('s, paddr_t list) kern" where
  "claim_frames alloc mark 0 = kret []"
| "claim_frames alloc mark (Suc n) =
     kbind (claim_frame alloc mark) (\<lambda>p. kbind (claim_frames alloc mark n) (\<lambda>ps. kret (p # ps)))"

locale frame_store =
  fixes ok :: "'s \<Rightarrow> bool" and inuse :: "'s \<Rightarrow> nat set" and cap :: "'s \<Rightarrow> nat"
    and alloc :: "('s, paddr_t) kern" and mark :: "paddr_t \<Rightarrow> ('s, unit) kern"
  assumes alloc_free: "ok s \<Longrightarrow> \<exists>m < cap s. m \<notin> inuse s \<Longrightarrow>
      runs alloc s (\<lambda>p t. t = s \<and> page_aligned p \<and> page_of p < cap s \<and> page_of p \<notin> inuse s)"
    and mark_used: "ok s \<Longrightarrow> page_of p < cap s \<Longrightarrow>
      runs (mark p) s (\<lambda>_ t. ok t \<and> cap t = cap s \<and> inuse t = insert (page_of p) (inuse s))"
begin

lemma claim_one:
  assumes "ok s" "\<exists>m < cap s. m \<notin> inuse s"
  shows "runs (claim_frame alloc mark) s (\<lambda>p t. ok t \<and> cap t = cap s \<and> page_aligned p
           \<and> page_of p < cap s \<and> page_of p \<notin> inuse s \<and> inuse t = insert (page_of p) (inuse s))"
  unfolding claim_frame_def
  by (intro wp runs_weaken [OF alloc_free [OF assms]])
    (auto intro!: runs_weaken [OF mark_used [OF assms(1)]] runs_kret)

lemma claims_distinct:
  assumes "ok s" "n \<le> card ({..<cap s} - inuse s)"
  shows "runs (claim_frames alloc mark n) s (\<lambda>ps t. ok t \<and> cap t = cap s \<and> length ps = n
           \<and> distinct (map page_of ps) \<and> (\<forall>p \<in> set ps. page_aligned p \<and> page_of p < cap s \<and> page_of p \<notin> inuse s)
           \<and> inuse t = inuse s \<union> page_of ` set ps)"
  using assms
proof (induction n arbitrary: s)
  case 0
  then show ?case by (simp add: runs_def)
next
  case (Suc n)
  then have "{..<cap s} - inuse s \<noteq> {}" by (metis card.empty not_less_eq_eq le0)
  then have free: "\<exists>m < cap s. m \<notin> inuse s" by auto
  show ?case
    unfolding claim_frames.simps
  proof (intro wp runs_weaken [OF claim_one [OF Suc.prems(1) free]], elim conjE)
    fix p t
    assume t: "ok t" "cap t = cap s" "inuse t = insert (page_of p) (inuse s)"
      and p: "page_aligned p" "page_of p < cap s" "page_of p \<notin> inuse s"
    have "{..<cap t} - inuse t = ({..<cap s} - inuse s) - {page_of p}" using t by auto
    then have "n \<le> card ({..<cap t} - inuse t)" using p Suc.prems(2) by simp
    from Suc.IH [OF t(1) this] show "runs (claim_frames alloc mark n) t (\<lambda>ps u.
        runs (kret (p # ps)) u (\<lambda>ps t. ok t \<and> cap t = cap s \<and> length ps = Suc n
           \<and> distinct (map page_of ps) \<and> (\<forall>p \<in> set ps. page_aligned p \<and> page_of p < cap s \<and> page_of p \<notin> inuse s)
           \<and> inuse t = inuse s \<union> page_of ` set ps))"
      by (rule runs_weaken) (use t p in \<open>fastforce intro!: runs_kret\<close>)
  qed
qed

end

interpretation fr: frame_store frames_wf frame_used frame_capacity frame_alloc frame_set
proof
  fix s :: "'a frames_scheme"
  assume "frames_wf s" "\<exists>m < frame_capacity s. m \<notin> frame_used s"
  from frame_alloc_first_free [OF this]
  show "runs frame_alloc s (\<lambda>p t. t = s \<and> page_aligned p \<and> page_of p < frame_capacity s
      \<and> page_of p \<notin> frame_used s)"
    by (rule runs_weaken) auto
next
  fix s :: "'a frames_scheme" and p
  assume "frames_wf s" "page_of p < frame_capacity s"
  from frame_set_used [OF this]
  show "runs (frame_set p) s (\<lambda>_ t. frames_wf t \<and> frame_capacity t = frame_capacity s
      \<and> frame_used t = insert (page_of p) (frame_used s))" .
qed

subsection \<open>Properties\<close>

definition demo_frames :: frames where
  "demo_frames = intr.extend demo_intr
     \<lparr>FrameAllocInitialized = True, FrameBitmap = [7, 0], FrameCount = 64, PreallocCount = 0\<rparr>"

lemma demo_frames_simps [simp]:
  "FrameAllocInitialized demo_frames" "FrameBitmap demo_frames = [7, 0]" "FrameCount demo_frames = 64"
  "frames_wf demo_frames" "frame_capacity demo_frames = 64"
  by (simp_all add: demo_frames_def intr.defs frames_wf_def frame_capacity_def)

text \<open>C2: the bitmap implements a set of frame numbers. For an address whose frame the bitmap
  covers, \<^verbatim>\<open>frame_set\<close> returns and adds exactly that frame, \<^verbatim>\<open>frame_clear\<close> returns and removes
  exactly that frame, and \<^verbatim>\<open>frame_test\<close> answers membership.\<close>

theorem frame_bitmap_refines_set:
  assumes "frames_wf s" "page_of p < frame_capacity s"
  shows "runs (frame_set p) s (\<lambda>_ t. frames_wf t \<and> frame_used t = insert (page_of p) (frame_used s))
    \<and> runs (frame_clear p) s (\<lambda>_ t. frames_wf t \<and> frame_used t = frame_used s - {page_of p})
    \<and> frame_test p s = Done (page_of p \<in> frame_used s) s"
  using runs_weaken [OF frame_set_used [OF assms]] runs_weaken [OF frame_clear_used [OF assms]]
    frame_test_used [OF assms(2)] by auto

theorem frame_bitmap_refines_set_witness:
  "page_of 0x3000 < frame_capacity demo_frames
    \<and> runs (frame_set 0x3000) demo_frames (\<lambda>_ t. frame_used t = insert (page_of 0x3000) (frame_used demo_frames))"
proof -
  have p: "page_of 0x3000 < frame_capacity demo_frames" by (simp add: page_of_def)
  show ?thesis
    using p frame_bitmap_refines_set [of demo_frames "0x3000"] by (auto elim: runs_weaken)
qed

text \<open>C4: \<open>n\<close> frames taken one after the other (\<^verbatim>\<open>frame_alloc\<close> then \<^verbatim>\<open>frame_set\<close>, as all
  clients do) are page aligned, pairwise different, were all free before, and are in use afterwards,
  as long as \<open>n\<close> frames are free; the calls return.\<close>

theorem frame_claims_distinct:
  fixes s :: "'a frames_scheme"
  assumes "frames_wf s" "n \<le> card ({..<frame_capacity s} - frame_used s)"
  shows "runs (claim_frames frame_alloc frame_set n) s (\<lambda>ps t. frames_wf t \<and> length ps = n
           \<and> distinct (map page_of ps) \<and> (\<forall>p \<in> set ps. page_aligned p \<and> page_of p \<notin> frame_used s)
           \<and> frame_used t = frame_used s \<union> page_of ` set ps)"
  using fr.claims_distinct [OF assms] by (rule runs_weaken) auto

lemma demo_frames_used: "used [7, 0] = {0, 1, 2}"
proof -
  have seven: "bit (7 :: u32) k \<longleftrightarrow> k < 3" for k
  proof -
    have "(7 :: u32) = mask 3" by (simp add: mask_eq_exp_minus_1)
    then show ?thesis by (simp only: bit_mask_iff) auto
  qed
  have "n \<in> used [7, 0] \<longleftrightarrow> n < 3" for n
  proof (cases "n < 32")
    case True
    then show ?thesis using seven [of n] by (simp add: used_def)
  next
    case False
    have "n \<notin> used [7, 0]"
    proof
      assume "n \<in> used [7, 0]"
      then have "n < 64" "bit ([7, 0 :: u32] ! (n div 32)) (n mod 32)" by (simp_all add: used_def)
      moreover have "n div 32 = 1" using False \<open>n < 64\<close> by (intro div_nat_eqI) auto
      ultimately show False by simp
    qed
    with False show ?thesis by simp
  qed
  then have "used [7, 0] = {..<3}" by blast
  then show ?thesis by (simp add: lessThan_nat_numeral lessThan_Suc insert_commute)
qed

theorem frame_claims_distinct_witness:
  "runs (claim_frames frame_alloc frame_set 2) demo_frames (\<lambda>ps t. length ps = 2 \<and> distinct (map page_of ps))"
proof -
  have "{..<64} - {0, Suc 0, 2} = {3..<64}" by auto
  then have "2 \<le> card ({..<frame_capacity demo_frames} - frame_used demo_frames)"
    by (simp add: demo_frames_used)
  from frame_claims_distinct [OF _ this] show ?thesis by (auto elim: runs_weaken)
qed

text \<open>\<^verbatim>\<open>frame_set_range(begin, end)\<close> and \<^verbatim>\<open>frame_clear_range(begin, end)\<close> on page
  aligned bounds treat the frame at \<open>end\<close> as part of the range: exactly the frames from that of
  \<open>begin\<close> to that of \<open>end\<close>, both included, become used (or free), and the loops return.\<close>

theorem frame_ranges_inclusive:
  assumes "frames_wf s" "page_aligned begin" "page_aligned end" "begin \<le> end" "end < 0xFFFFF000"
    and "page_of end < frame_capacity s"
  shows "runs (frame_set_range begin end) s (\<lambda>_ t. frame_used t = frame_used s \<union> {page_of begin..page_of end})
    \<and> runs (frame_clear_range begin end) s (\<lambda>_ t. frame_used t = frame_used s - {page_of begin..page_of end})"
proof -
  note pages = range_pages [OF assms(2-5)]
  have "\<forall>p \<in> set (page_list begin (end + PAGE_SIZE)). page_of p < frame_capacity s"
    using pages assms(6) by (metis atLeastAtMost_iff image_eqI le_less_trans)
  note loops = frame_range_used [OF assms(1) this]
  show ?thesis
    unfolding frame_set_range_def frame_clear_range_def runs_def
      page_loop_kfor [OF range_limit [OF assms(3,5)]]
    using loops [unfolded runs_def] pages by (auto simp: runs_def)
qed

theorem frame_ranges_inclusive_witness:
  "runs (frame_set_range 0x5000 0x6000) demo_frames (\<lambda>_ t. frame_used t = frame_used demo_frames \<union> {5..6})"
  using frame_ranges_inclusive [of demo_frames "0x5000" "0x6000"]
  by (simp add: page_aligned_unat page_of_def)

text \<open>When every frame the bitmap covers is in use, \<^verbatim>\<open>frame_alloc\<close> never reaches its "Out
  of memory" panic: its index runs over words but is bounded by the number of frames, so it reads
  beyond the bitmap first.\<close>

theorem frame_alloc_exhausted_overruns:
  assumes "frames_wf s" "{..<frame_capacity s} \<subseteq> frame_used s" "FrameCount s \<noteq> 0"
  shows "frame_alloc s = Halt BadAccess"
  by (rule frame_alloc_exhausted) (use assms in auto)

theorem frame_alloc_exhausted_overruns_witness:
  "frame_alloc (demo_frames\<lparr>FrameBitmap := [0xFFFFFFFF, 0xFFFFFFFF]\<rparr>) = Halt BadAccess"
proof (rule frame_alloc_exhausted_overruns)
  let ?s = "demo_frames\<lparr>FrameBitmap := [0xFFFFFFFF, 0xFFFFFFFF]\<rparr>"
  show "frames_wf ?s" "FrameCount ?s \<noteq> 0" by (simp_all add: frames_wf_def)
  have "n \<in> frame_used ?s" if "n < 64" for n
  proof -
    have "n div 32 < 2" using that by (intro index_less) simp
    then have "[0xFFFFFFFF, 0xFFFFFFFF :: u32] ! (n div 32) = 0xFFFFFFFF"
      by (auto simp: less_2_cases_iff)
    then show ?thesis using that full_word [of "n mod 32"] by (simp add: used_def)
  qed
  then show "{..<frame_capacity ?s} \<subseteq> frame_used ?s" by (auto simp: frame_capacity_def)
qed

text \<open>An address that \<^verbatim>\<open>frame_alloc_4m\<close> returns inside the bitmap starts a 4 MiB area in
  which every frame but those of the first bitmap word is free, and nothing has changed.\<close>

theorem frame_alloc_4m_tail_free:
  assumes "frames_wf s" "frame_alloc_4m s = Done p t" "page_of p < frame_capacity s"
    and "page_of p + 32 \<le> m" "m < page_of p + 1024"
  shows "t = s \<and> m \<notin> frame_used s"
proof -
  from assms(2) obtain f0 where scan: "scan_4m (FrameBitmap s) (unat (BIT_IDX (FrameCount s))) 0 0 = Inr f0"
    and p: "p = of_nat f0 * BITS_PER_ENTRY * PAGE_SIZE" and t: "t = s"
    by (auto simp: frame_alloc_4m_def split: sum.splits)
  have bc: "unat (BIT_IDX (FrameCount s)) = length (FrameBitmap s)"
    using assms(1) by (simp add: frames_wf_def BIT_IDX_def BITS_PER_ENTRY_def unat_div)
  have "f0 \<le> length (FrameBitmap s)"
    using scan scan_4m_bound [of "FrameBitmap s" "unat (BIT_IDX (FrameCount s))" 0 0 f0] bc by simp
  then have "32 * f0 < 2 ^ 20"
    using frames_wf_capacity [OF assms(1)] by (simp add: frame_capacity_def)
  moreover have "p = of_nat (32 * f0) * PAGE_SIZE" by (simp add: p BITS_PER_ENTRY_def mult.commute)
  ultimately have page: "page_of p = 32 * f0" by (simp add: page_of_frame(1) del: of_nat_mult)
  then have "\<not> length (FrameBitmap s) \<le> f0" using assms(3) by (simp add: frame_capacity_def)
  then have zero: "\<forall>k. 0 < k \<and> k < 32 \<longrightarrow> FrameBitmap s ! (f0 + k) = 0"
    using scan_4m_tail_free [OF scan] bc by simp
  define k where "k = m div 32 - f0"
  have "m div 32 = f0 + k" "0 < k" "k < 32"
    using assms(4,5) page by (auto simp: k_def)
  then have "FrameBitmap s ! (m div 32) = 0" using zero by simp
  then show ?thesis using t by (simp add: used_def)
qed

definition demo_frames_4m :: "u32 list \<Rightarrow> frames" where
  "demo_frames_4m bm = demo_frames\<lparr>FrameBitmap := bm, FrameCount := of_nat (32 * length bm)\<rparr>"

lemma demo_frames_4m_wf:
  "length bm < 100 \<Longrightarrow> frames_wf (demo_frames_4m bm)"
  "length bm < 100 \<Longrightarrow> frame_alloc_4m (demo_frames_4m bm) = (case scan_4m bm (length bm) 0 0 of
     Inl e \<Rightarrow> Halt e | Inr f0 \<Rightarrow> Done (of_nat f0 * 0x20000) (demo_frames_4m bm))"
  by (simp_all add: demo_frames_4m_def frames_wf_def frame_alloc_4m_def BIT_IDX_def BITS_PER_ENTRY_def
      PAGE_SIZE_def unat_div unat_word_ariths unat_of_nat split: sum.splits)

lemma demo_frames_4m_bitmap [simp]: "FrameBitmap (demo_frames_4m bm) = bm"
  by (simp add: demo_frames_4m_def)

theorem frame_alloc_4m_tail_free_witness:
  "(40 :: nat) \<notin> frame_used (demo_frames_4m (replicate 32 0))"
proof -
  have "scan_4m (replicate 32 0) 32 0 0 = Inr 0" by code_simp
  then have "frame_alloc_4m (demo_frames_4m (replicate 32 0)) = Done 0 (demo_frames_4m (replicate 32 0))"
    by (simp add: demo_frames_4m_wf)
  from frame_alloc_4m_tail_free [OF _ this, of 40] show ?thesis
    by (simp add: demo_frames_4m_wf page_of_def frame_capacity_def)
qed

text \<open>The first word is not checked once the search has moved on: here the area that
  \<^verbatim>\<open>frame_alloc_4m\<close> returns starts with a frame in use.\<close>

lemma frame_alloc_4m_returns_used:
  "frame_alloc_4m (demo_frames_4m (1 # 1 # replicate 31 0))
     = Done 0x20000 (demo_frames_4m (1 # 1 # replicate 31 0))
   \<and> page_of 0x20000 \<in> frame_used (demo_frames_4m (1 # 1 # replicate 31 0))"
proof -
  have "scan_4m (1 # 1 # replicate 31 0) 33 0 0 = Inr 1" by code_simp
  moreover have "length (1 # 1 # replicate 31 (0 :: u32)) = 33" by simp
  ultimately show ?thesis
    by (simp add: demo_frames_4m_wf page_of_def used_def)
qed

end
