(* ===== verification/Klist.thy ===== *)
theory Klist
  imports Prelude
begin

text \<open>
  The intrusive doubly linked list of \<^verbatim>\<open>kernel/list.c\<close>: a node is named by its address, the
  links of all nodes are two functions from addresses to addresses. A node whose two links are
  \<^verbatim>\<open>NULL\<close> is on no list. The lists the kernel builds are rings; the theory relates the operations
  to a ring written as a list of addresses.
\<close>

record links =
  lnext :: "u32 \<Rightarrow> u32"
  lprev :: "u32 \<Rightarrow> u32"

definition list_prev :: "links \<Rightarrow> u32 \<Rightarrow> u32" where
  "list_prev h elem = lprev h elem"

definition list_next :: "links \<Rightarrow> u32 \<Rightarrow> u32" where
  "list_next h elem = lnext h elem"

definition set_next :: "u32 \<Rightarrow> u32 \<Rightarrow> links \<Rightarrow> links" where
  "set_next a v h = h\<lparr>lnext := (lnext h)(a := v)\<rparr>"

definition set_prev :: "u32 \<Rightarrow> u32 \<Rightarrow> links \<Rightarrow> links" where
  "set_prev a v h = h\<lparr>lprev := (lprev h)(a := v)\<rparr>"

definition list_insert_after :: "u32 \<Rightarrow> u32 \<Rightarrow> links \<Rightarrow> stop + links" where
  "list_insert_after after elem h =
     (let oldnext = lnext h after in
      if lnext h after = NULL \<and> lprev h after = NULL then
        Inr (set_next elem after (set_prev elem after (set_next after elem (set_prev after elem h))))
      else if oldnext = NULL then Inl NullCall
      else
        Inr (set_prev elem after (set_next elem oldnext (set_prev oldnext elem (set_next after elem h)))))"

definition list_insert_before :: "u32 \<Rightarrow> u32 \<Rightarrow> links \<Rightarrow> stop + links" where
  "list_insert_before before elem h =
     (if lprev h before = NULL then Inl NullCall else list_insert_after (lprev h before) elem h)"

definition list_remove :: "u32 \<Rightarrow> links \<Rightarrow> stop + links" where
  "list_remove elem h =
     (let next = lnext h elem; prev = lprev h elem;
          h1 = set_next elem NULL (set_prev elem NULL h) in
      if prev = NULL \<or> next = NULL then Inl NullCall
      else Inr (set_prev next prev (set_next prev next h1)))"

lemmas link_defs = set_next_def set_prev_def list_insert_after_def list_insert_before_def
  list_remove_def list_next_def list_prev_def Let_def

subsection \<open>Rings\<close>

text \<open>\<open>chain h xs\<close>: consecutive elements of \<open>xs\<close> are linked both ways. A ring is a chain whose
  last element is linked back to the first.\<close>

fun chain :: "links \<Rightarrow> u32 list \<Rightarrow> bool" where
  "chain h (x # y # ys) \<longleftrightarrow> lnext h x = y \<and> lprev h y = x \<and> chain h (y # ys)"
| "chain h _ \<longleftrightarrow> True"

definition ring :: "links \<Rightarrow> u32 list \<Rightarrow> bool" where
  "ring h xs \<longleftrightarrow> xs \<noteq> [] \<and> distinct xs \<and> NULL \<notin> set xs \<and> chain h (xs @ [hd xs])"

lemma chain_append: "chain h (xs @ [x, y]) \<longleftrightarrow> chain h (xs @ [x]) \<and> lnext h x = y \<and> lprev h y = x"
  by (induction xs rule: induct_list012) auto

lemma chain_cong:
  assumes "\<And>x. x \<in> set (butlast xs) \<Longrightarrow> lnext h x = lnext h' x"
    and "\<And>x. x \<in> set (tl xs) \<Longrightarrow> lprev h x = lprev h' x"
  shows "chain h xs \<longleftrightarrow> chain h' xs"
  using assms by (induction xs rule: induct_list012) auto

lemma chain_join: "chain h (xs @ x # ys) \<longleftrightarrow> chain h (xs @ [x]) \<and> chain h (x # ys)"
  by (induction xs rule: induct_list012) (auto simp: neq_Nil_conv)

lemma chain_tl: "chain h (x # xs) \<Longrightarrow> chain h xs"
  by (cases xs) auto

lemma chain_prefix: "chain h (xs @ ys) \<Longrightarrow> chain h xs"
  by (induction xs rule: induct_list012) auto

text \<open>A ring may be read from any of its elements.\<close>

lemma ring_rotate1:
  assumes "ring h (x # xs)"
  shows "ring h (xs @ [x])"
proof (cases xs)
  case (Cons y ys)
  then show ?thesis using assms chain_append [of h "y # ys" x y]
    by (auto simp: ring_def)
qed (use assms in simp)

lemma ring_rotate:
  "ring h (xs @ ys) \<Longrightarrow> ys \<noteq> [] \<Longrightarrow> ring h (ys @ xs)"
proof (induction xs arbitrary: ys)
  case (Cons x xs)
  then have "ring h ((xs @ ys) @ [x])" using ring_rotate1 [of h x "xs @ ys"] by simp
  then have "ring h ((ys @ [x]) @ xs)" using Cons.IH [of "ys @ [x]"] by simp
  then show ?case by simp
qed simp

lemma ring_next:
  assumes "ring h (xs @ x # y # ys)"
  shows "lnext h x = y" "lprev h y = x"
  using assms chain_join [of h xs x "y # ys @ [hd (xs @ x # y # ys)]"] by (auto simp: ring_def)

lemma ring_next_last:
  assumes "ring h (x # xs)"
  shows "lnext h (last (x # xs)) = x" "lprev h x = last (x # xs)"
proof -
  have "(x # xs) @ [x] = butlast (x # xs) @ [last (x # xs), x]"
    using append_butlast_last_id [of "x # xs"] by (metis append_assoc append_Cons append_Nil list.distinct(1))
  then have "chain h (butlast (x # xs) @ [last (x # xs), x])"
    using assms by (metis ring_def list.sel(1))
  then show "lnext h (last (x # xs)) = x" "lprev h x = last (x # xs)"
    by (simp_all only: chain_append)
qed

lemma ring_next_in:
  assumes "ring h xs" "x \<in> set xs"
  shows "lnext h x \<in> set xs" "lprev h x \<in> set xs" "lnext h x \<noteq> NULL" "lprev h x \<noteq> NULL"
proof -
  from assms(2) obtain ys zs where xs: "xs = ys @ x # zs" by (meson split_list)
  then have r: "ring h (x # zs @ ys)" using assms(1) ring_rotate [of h ys "x # zs"] by simp
  have "lprev h x \<in> set xs" using ring_next_last(2) [OF r] xs last_in_set [of "x # zs @ ys"] by auto
  moreover have "lnext h x \<in> set xs"
  proof (cases "zs @ ys")
    case Nil
    then show ?thesis using ring_next_last(1) [OF r] xs by auto
  next
    case (Cons y l)
    then have "lnext h x = y" using r ring_next(1) [of h "[]" x y l] by simp
    moreover have "y \<in> set xs" using Cons xs by (metis Un_iff list.set_intros(1,2) set_append)
    ultimately show ?thesis by simp
  qed
  ultimately show "lnext h x \<in> set xs" "lprev h x \<in> set xs" "lnext h x \<noteq> NULL" "lprev h x \<noteq> NULL"
    using assms(1) by (auto simp: ring_def)
qed

subsection \<open>The operations on rings\<close>

lemma insert_after_ring:
  assumes "ring h (x # xs)" "e \<notin> set (x # xs)" "e \<noteq> NULL"
  shows "\<exists>h'. list_insert_after x e h = Inr h' \<and> ring h' (x # e # xs)
           \<and> (\<forall>a. a \<notin> set (e # x # xs) \<longrightarrow> lnext h' a = lnext h a \<and> lprev h' a = lprev h a)"
proof -
  let ?n = "lnext h x"
  let ?h = "set_prev e x (set_next e ?n (set_prev ?n e (set_next x e h)))"
  have n: "?n \<in> set (x # xs)" "?n \<noteq> NULL" using ring_next_in [OF assms(1)] by auto
  have run: "list_insert_after x e h = Inr ?h" using n by (simp add: list_insert_after_def Let_def)
  have "ring ?h (x # e # xs)"
  proof (cases xs)
    case Nil
    then have "?n = x" using n by simp
    with Nil assms(2,3) assms(1) show ?thesis by (auto simp: ring_def link_defs)
  next
    case (Cons y ys)
    then have ny: "?n = y" using ring_next(1) [of h "[]" x y ys] assms(1) by simp
    have "chain ?h (y # ys @ [x]) \<longleftrightarrow> chain h (y # ys @ [x])"
      by (rule chain_cong) (use assms Cons ny in \<open>auto simp: ring_def link_defs butlast_append\<close>)
    then show ?thesis using assms Cons ny by (auto simp: ring_def link_defs)
  qed
  then show ?thesis using run n by (auto simp: link_defs)
qed

lemma insert_after_single:
  assumes "lnext h x = NULL" "lprev h x = NULL" "e \<noteq> x" "e \<noteq> NULL" "x \<noteq> NULL"
  shows "\<exists>h'. list_insert_after x e h = Inr h' \<and> ring h' [x, e]"
  using assms by (auto simp: ring_def link_defs)

lemma distinct_butlast_last: "distinct xs \<Longrightarrow> xs \<noteq> [] \<Longrightarrow> last xs \<notin> set (butlast xs)"
  by (cases xs rule: rev_cases) auto

lemma remove_ring:
  assumes "ring h (e # xs)" "xs \<noteq> []"
  shows "\<exists>h'. list_remove e h = Inr h' \<and> ring h' xs \<and> lnext h' e = NULL \<and> lprev h' e = NULL
           \<and> (\<forall>a. a \<notin> set (e # xs) \<longrightarrow> lnext h' a = lnext h a \<and> lprev h' a = lprev h a)"
proof -
  let ?n = "lnext h e" and ?p = "lprev h e"
  let ?h = "set_prev ?n ?p (set_next ?p ?n (set_next e NULL (set_prev e NULL h)))"
  obtain y ys where xs: "xs = y # ys" using assms(2) by (cases xs) auto
  have n: "?n = y" using ring_next(1) [of h "[]" e y ys] assms(1) xs by simp
  have p: "?p = last xs" using ring_next_last(2) [OF assms(1)] xs by simp
  have run: "list_remove e h = Inr ?h"
    using ring_next_in(3,4) [OF assms(1), of e] by (simp add: list_remove_def Let_def)
  have d: "last xs \<notin> set (butlast xs)" "distinct xs" "e \<notin> set xs" "NULL \<notin> set xs"
    using assms distinct_butlast_last by (auto simp: ring_def)
  have "chain ?h xs \<longleftrightarrow> chain h xs"
    by (rule chain_cong) (use d xs n p in \<open>auto simp: link_defs dest: in_set_butlastD\<close>)
  moreover have "chain h xs"
    using assms(1) chain_tl [of h e "xs @ [e]"] chain_prefix [of h xs "[e]"] by (simp add: ring_def)
  ultimately have "chain ?h (butlast xs @ [last xs, y])"
    unfolding chain_append using append_butlast_last_id [OF assms(2)] n p xs d
    by (auto simp: link_defs)
  then have "chain ?h (xs @ [y])"
    using append_butlast_last_id [OF assms(2)] by (metis append_assoc append_Cons append_Nil)
  then have "ring ?h xs" using d assms(2) xs by (simp add: ring_def)
  moreover have "lnext ?h e = NULL" "lprev ?h e = NULL"
    using d n p xs last_in_set [OF assms(2)] by (auto simp: link_defs)
  ultimately show ?thesis using run n p xs last_in_set [OF assms(2)] by (auto simp: link_defs)
qed

text \<open>Removing the only element of a ring leaves it linked to itself: its links are cleared and
  then written again through the saved pointers.\<close>

lemma remove_last:
  assumes "ring h [e]"
  shows "\<exists>h'. list_remove e h = Inr h' \<and> ring h' [e]"
  using assms ring_next_last [OF assms] by (auto simp: ring_def link_defs)

subsection \<open>Walking a ring\<close>

text \<open>\<open>walk h x n\<close>: the node reached from \<open>x\<close> by \<open>n\<close> \<^verbatim>\<open>next\<close> links.\<close>

primrec walk :: "links \<Rightarrow> u32 \<Rightarrow> nat \<Rightarrow> u32" where
  "walk h x 0 = x"
| "walk h x (Suc n) = walk h (lnext h x) n"

lemma ring_walk:
  assumes "ring h (x # xs)" "n \<le> length xs"
  shows "walk h x n = (x # xs) ! n"
  using assms
proof (induction n arbitrary: x xs)
  case (Suc n)
  then obtain y ys where xs: "xs = y # ys" by (cases xs) auto
  then have "lnext h x = y" using ring_next(1) [of h "[]" x y ys] Suc.prems(1) by simp
  moreover have "ring h (y # ys @ [x])" using ring_rotate1 Suc.prems(1) xs by fastforce
  ultimately show ?case using Suc.IH [of y "ys @ [x]"] Suc.prems(2) xs
    by (auto simp: nth_append nth_Cons' split: if_splits)
qed simp

lemma ring_walk_home:
  assumes "ring h (x # xs)"
  shows "walk h x (Suc (length xs)) = x"
proof (cases xs)
  case Nil
  then show ?thesis using ring_next_last(1) [OF assms] by simp
next
  case (Cons y ys)
  then have "lnext h x = y" using ring_next(1) [of h "[]" x y ys] assms by simp
  moreover have "ring h (y # ys @ [x])" using ring_rotate1 assms Cons by fastforce
  ultimately show ?thesis using ring_walk [of h y "ys @ [x]" "length xs"] Cons by simp
qed

subsection \<open>The contract of the list operations\<close>

text \<open>What the scheduler and the task code rely on, whatever the links look like: \<open>is_ring h xs\<close>
  says that the nodes \<open>xs\<close> form a ring in that order.\<close>

locale ring_ops =
  fixes is_ring :: "'h \<Rightarrow> 'n list \<Rightarrow> bool" and nxt :: "'h \<Rightarrow> 'n \<Rightarrow> 'n"
    and ins :: "'n \<Rightarrow> 'n \<Rightarrow> 'h \<Rightarrow> stop + 'h" and rem :: "'n \<Rightarrow> 'h \<Rightarrow> stop + 'h"
    and fresh :: "'n \<Rightarrow> bool"
  assumes rotate: "is_ring h (x # xs) \<Longrightarrow> is_ring h (xs @ [x])"
    and next_in_ring: "is_ring h (x # y # ys) \<Longrightarrow> nxt h x = y"
    and ring_distinct: "is_ring h xs \<Longrightarrow> distinct xs"
    and ins_ring: "is_ring h (x # xs) \<Longrightarrow> e \<notin> set (x # xs) \<Longrightarrow> fresh e \<Longrightarrow>
      \<exists>h'. ins x e h = Inr h' \<and> is_ring h' (x # e # xs)"
    and rem_ring: "is_ring h (e # x # xs) \<Longrightarrow> \<exists>h'. rem e h = Inr h' \<and> is_ring h' (x # xs)"
begin

lemma rotate_many: "is_ring h (xs @ ys) \<Longrightarrow> ys \<noteq> [] \<Longrightarrow> is_ring h (ys @ xs)"
proof (induction xs arbitrary: ys)
  case (Cons x xs)
  then have "is_ring h ((xs @ ys) @ [x])" using rotate [of h x "xs @ ys"] by simp
  then have "is_ring h ((ys @ [x]) @ xs)" using Cons.IH [of "ys @ [x]"] by simp
  then show ?case by simp
qed simp

lemma ins_then_next:
  assumes "is_ring h (x # xs)" "e \<notin> set (x # xs)" "fresh e"
  shows "\<exists>h'. ins x e h = Inr h' \<and> nxt h' x = e"
  using ins_ring [OF assms] next_in_ring by blast

lemma ins_rem_back:
  assumes "is_ring h (x # xs)" "e \<notin> set (x # xs)" "fresh e"
  shows "\<exists>h1 h2. ins x e h = Inr h1 \<and> rem e h1 = Inr h2 \<and> is_ring h2 (x # xs)"
proof -
  from ins_ring [OF assms] obtain h1 where h1: "ins x e h = Inr h1" "is_ring h1 (x # e # xs)" by blast
  then have "is_ring h1 (e # xs @ [x])" using rotate by fastforce
  moreover obtain y ys where "xs @ [x] = y # ys" by (cases "xs @ [x]") auto
  ultimately obtain h2 where "rem e h1 = Inr h2" "is_ring h2 (xs @ [x])" using rem_ring by metis
  moreover from this(2) have "is_ring h2 ([x] @ xs)" by (rule rotate_many) simp
  ultimately show ?thesis using h1 by auto
qed

lemma rem_anywhere:
  assumes "is_ring h (xs @ e # ys)" "xs @ ys \<noteq> []"
  shows "\<exists>h'. rem e h = Inr h' \<and> is_ring h' (xs @ ys)"
proof -
  have "is_ring h (e # ys @ xs)" using rotate_many [of h xs "e # ys"] assms(1) by simp
  moreover obtain y zs where "ys @ xs = y # zs" using assms(2) by (cases "ys @ xs") auto
  ultimately obtain h' where h': "rem e h = Inr h'" "is_ring h' (ys @ xs)" using rem_ring by metis
  have "is_ring h' (xs @ ys)"
    using h'(2) rotate_many [OF h'(2)] by (cases "xs = []") simp_all
  with h'(1) show ?thesis by blast
qed

end

interpretation kl: ring_ops ring lnext list_insert_after list_remove "\<lambda>e. e \<noteq> NULL"
proof
  show "ring h (xs @ [x])" if "ring h (x # xs)" for h x xs using ring_rotate1 [OF that] .
  show "lnext h x = y" if "ring h (x # y # ys)" for h x y ys using ring_next(1) [of h "[]"] that by simp
  show "distinct xs" if "ring h xs" for h xs using that by (simp add: ring_def)
  show "\<exists>h'. list_insert_after x e h = Inr h' \<and> ring h' (x # e # xs)"
    if "ring h (x # xs)" "e \<notin> set (x # xs)" "e \<noteq> NULL" for h x xs e
    using insert_after_ring [OF that] by blast
  show "\<exists>h'. list_remove e h = Inr h' \<and> ring h' (x # xs)" if "ring h (e # x # xs)" for h e x xs
    using remove_ring [OF that] by blast
qed

subsection \<open>Properties\<close>

text \<open>C13: \<^verbatim>\<open>list_insert_after\<close> puts the new node right after \<open>x\<close> in its ring and
  \<^verbatim>\<open>list_remove\<close> takes any node out of a ring of at least two, each returning without touching a
  null pointer and leaving a well-formed ring in the same order; inserting and removing again
  restores the ring.\<close>

theorem list_ops_keep_ring:
  assumes "ring h (x # xs)" "e \<notin> set (x # xs)" "e \<noteq> NULL"
  shows "(\<exists>h'. list_insert_after x e h = Inr h' \<and> ring h' (x # e # xs))
    \<and> (\<exists>h1 h2. list_insert_after x e h = Inr h1 \<and> list_remove e h1 = Inr h2 \<and> ring h2 (x # xs))
    \<and> (\<forall>as a bs. x # xs = as @ a # bs \<and> xs \<noteq> [] \<longrightarrow> (\<exists>h'. list_remove a h = Inr h' \<and> ring h' (as @ bs)))"
proof (intro conjI allI impI)
  show "\<exists>h'. list_insert_after x e h = Inr h' \<and> ring h' (x # e # xs)"
    by (rule kl.ins_ring [OF assms])
  show "\<exists>h1 h2. list_insert_after x e h = Inr h1 \<and> list_remove e h1 = Inr h2 \<and> ring h2 (x # xs)"
    by (rule kl.ins_rem_back [OF assms])
  fix as a bs assume eq: "x # xs = as @ a # bs \<and> xs \<noteq> []"
  then have "as @ bs \<noteq> []" by (cases as) auto
  then show "\<exists>h'. list_remove a h = Inr h' \<and> ring h' (as @ bs)"
    using kl.rem_anywhere [of h as a bs] assms(1) eq by simp
qed

definition demo_links :: links where
  "demo_links = \<lparr>lnext = (\<lambda>_. 0)(8 := 16, 16 := 8), lprev = (\<lambda>_. 0)(8 := 16, 16 := 8)\<rparr>"

theorem list_ops_keep_ring_witness:
  "ring demo_links [8, 16] \<and> (\<exists>h'. list_insert_after 8 24 demo_links = Inr h' \<and> ring h' [8, 24, 16])"
proof -
  have r: "ring demo_links [8, 16]" by (simp add: ring_def demo_links_def)
  show ?thesis using r list_ops_keep_ring [OF r, of 24] by simp
qed

end
