(* ===== verification/Task.thy ===== *)
theory Task
  imports Framealloc Klist
begin

text \<open>
  Tasks (\<^verbatim>\<open>kernel/proc/task.h\<close>, \<^verbatim>\<open>kernel/proc/task.c\<close>): the task structure, the ring of
  tasks, process ids, signals, exit and clone. A task is named by its address, which also names its
  embedded list node (\<^verbatim>\<open>list_elem\<close> subtracts a constant); a descriptor table is the list of its
  slots, each \<^verbatim>\<open>NULL\<close> or the address of an \<^verbatim>\<open>fdescr_t\<close>. An address that \<^verbatim>\<open>malloc\<close> or
  \<^verbatim>\<open>calloc\<close> returns is an argument of the routine. What \<^verbatim>\<open>printf\<close> shows is not modelled.
\<close>

definition KERNEL_PID :: u32 where "KERNEL_PID = 0"
definition NSIG :: nat where "NSIG = 65"
definition PATH_MAX :: nat where "PATH_MAX = 4096"
definition SIGTERM :: u32 where "SIGTERM = 15"
definition SIGCHLD :: u32 where "SIGCHLD = 17"
definition SIG_IGN :: u32 where "SIG_IGN = 1"

datatype tstate_t = TaskInit | TaskReady | TaskSigWait | TaskQuit

record sigaction =
  sa_handler :: u32
  sa_flags :: u32
  sa_restorer :: u32
  sa_mask :: "u32 list"

record fdescr =
  fd_dev :: u32
  fd_refs :: int

record task =
  t_pid :: u32
  t_ppid :: u32
  t_childcount :: int
  t_brk :: vaddr_t
  t_state :: tstate_t
  t_fdnext :: u16
  t_fdcap :: u16
  t_fdtbl :: "u32 list"
  t_exitcode :: u32
  t_sid :: u32
  t_pgid :: u32
  t_esp :: u32
  t_ebp :: u32
  t_pgd :: pgaddr_t
  t_cwd :: string
  t_mmapbrk :: vaddr_t
  t_sigset :: "u32 list"
  t_sigact :: "sigaction list"
  t_sigpend :: u32
  t_sigwait :: u32
  t_sigchldpid :: u32
  t_sigchldexit :: u32

text \<open>\<open>handler_calls\<close> logs the calls of user signal handlers, with their argument.\<close>

record procs = frames +
  tasks :: "u32 \<Rightarrow> task"
  task_links :: links
  CurrentTask :: u32
  UserTask :: u32
  next_pid :: u32
  fdescrs :: "u32 \<Rightarrow> fdescr"
  handler_calls :: "(u32 \<times> u32) list"

abbreviation cur :: "'a procs_scheme \<Rightarrow> task" where
  "cur s \<equiv> tasks s (CurrentTask s)"

definition upd_task :: "u32 \<Rightarrow> (task \<Rightarrow> task) \<Rightarrow> 'a procs_scheme \<Rightarrow> 'a procs_scheme" where
  "upd_task a f s = s\<lparr>tasks := (tasks s)(a := f (tasks s a))\<rparr>"

text \<open>A zero-filled task (\<^verbatim>\<open>calloc(1, sizeof(task_t))\<close>) and the static \<^verbatim>\<open>KernelTask\<close>.\<close>

definition zero_sigaction :: sigaction where
  "zero_sigaction = \<lparr>sa_handler = 0, sa_flags = 0, sa_restorer = 0, sa_mask = [0, 0]\<rparr>"

definition zero_task :: task where
  "zero_task = \<lparr>t_pid = 0, t_ppid = 0, t_childcount = 0, t_brk = 0, t_state = TaskInit,
     t_fdnext = 0, t_fdcap = 0, t_fdtbl = [], t_exitcode = 0, t_sid = 0, t_pgid = 0,
     t_esp = 0, t_ebp = 0, t_pgd = 0, t_cwd = '''', t_mmapbrk = 0, t_sigset = [0, 0],
     t_sigact = replicate NSIG zero_sigaction, t_sigpend = 0, t_sigwait = 0,
     t_sigchldpid = 0, t_sigchldexit = 0\<rparr>"

definition KernelTask_init :: "symtab \<Rightarrow> task" where
  "KernelTask_init y = zero_task\<lparr>t_pid := KERNEL_PID, t_ppid := KERNEL_PID, t_childcount := 0,
     t_brk := sym_kern_end y, t_state := TaskReady, t_cwd := ''/'', t_sid := 1, t_pgid := 1,
     t_mmapbrk := 0, t_sigpend := 0, t_sigwait := 0, t_sigchldpid := 0, t_sigchldexit := 0\<rparr>"

definition task_next_pid :: "('a procs_scheme, u32) kern" where
  "task_next_pid s = Done (next_pid s) (s\<lparr>next_pid := next_pid s + 1\<rparr>)"

definition task_insert :: "u32 \<Rightarrow> ('a procs_scheme, unit) kern" where
  "task_insert task s =
     (case list_insert_after (CurrentTask s) task (task_links s) of
        Inl e \<Rightarrow> Halt e | Inr h \<Rightarrow> Done () (s\<lparr>task_links := h\<rparr>))"

text \<open>The \<^verbatim>\<open>do ... while\<close> of \<^verbatim>\<open>task_get\<close>, from \<open>t\<close> on.\<close>

partial_function (option) task_get_loop ::
  "u32 \<Rightarrow> u32 \<Rightarrow> 'a procs_scheme \<Rightarrow> (stop + u32 \<times> 'a procs_scheme) option" where
  "task_get_loop pid t s =
     (let n = lnext (task_links s) t in
      if n = NULL then Halt NullCall
      else if t_pid (tasks s n) = pid then Done n s
      else if t_pid (tasks s n) \<noteq> t_pid (cur s) then task_get_loop pid n s
      else Done NULL s)"

definition task_get :: "u32 \<Rightarrow> ('a procs_scheme, u32) kern" where
  "task_get pid s = task_get_loop pid (CurrentTask s) s"

definition task_signal_raise :: "u32 \<Rightarrow> u32 \<Rightarrow> ('a procs_scheme, unit) kern" where
  "task_signal_raise task signum = kmod (upd_task task (\<lambda>t. t\<lparr>t_sigpend := signum\<rparr>))"

definition task_exit :: "u32 \<Rightarrow> u32 \<Rightarrow> ('a procs_scheme, unit) kern" where
  "task_exit task status =
     kthen (kmod (upd_task task (\<lambda>t. t\<lparr>t_state := TaskQuit, t_exitcode := status\<rparr>)))
    (kthen (task_signal_raise task SIGTERM)
    (kbind (kget (\<lambda>s. tasks s task)) (\<lambda>me.
     kbind (task_get (t_ppid me)) (\<lambda>parent.
     if parent = NULL then kret ()
     else kthen (kmod (upd_task parent (\<lambda>p. p\<lparr>t_sigchldpid := t_pid me, t_sigchldexit := t_exitcode me\<rparr>)))
         (kthen (task_signal_raise parent SIGCHLD)
                (kmod (upd_task parent (\<lambda>p. p\<lparr>t_childcount := t_childcount p - 1\<rparr>))))))))"

text \<open>\<^verbatim>\<open>clone->fdtbl[i]->refs++\<close> for every used slot below \<^verbatim>\<open>fdnext\<close>.\<close>

definition refs_incr :: "u32 \<Rightarrow> ('a procs_scheme, unit) kern" where
  "refs_incr d = kmod (\<lambda>s. s\<lparr>fdescrs := (fdescrs s)(d := (fdescrs s d)\<lparr>fd_refs := fd_refs (fdescrs s d) + 1\<rparr>)\<rparr>)"

definition clone_refs :: "u32 list \<Rightarrow> nat \<Rightarrow> ('a procs_scheme, unit) kern" where
  "clone_refs tbl n = kfor [0..<n] (\<lambda>i.
     if length tbl \<le> i then kstop BadAccess else kwhen (tbl ! i \<noteq> NULL) (refs_incr (tbl ! i)))"

text \<open>\<open>clone\<close> is the address that \<^verbatim>\<open>calloc\<close> returned. The argument of the C function is not used:
  every field is copied from \<^verbatim>\<open>CurrentTask\<close>.\<close>

definition clone_fields :: "u32 \<Rightarrow> task \<Rightarrow> task" where
  "clone_fields pid c = zero_task\<lparr>t_pid := pid, t_brk := t_brk c, t_mmapbrk := t_mmapbrk c,
     t_sid := t_sid c, t_pgid := t_pgid c, t_sigset := t_sigset c, t_sigpend := t_sigpend c,
     t_sigwait := t_sigwait c, t_state := TaskReady, t_sigact := t_sigact c,
     t_cwd := take PATH_MAX (t_cwd c), t_childcount := 0, t_ppid := t_pid c,
     t_fdcap := t_fdcap c, t_fdnext := t_fdnext c, t_fdtbl := take (unat (t_fdcap c)) (t_fdtbl c)\<rparr>"

definition task_clone :: "u32 \<Rightarrow> ('a procs_scheme, u32) kern" where
  "task_clone clone =
     kbind task_next_pid (\<lambda>pid.
     kbind (kget cur) (\<lambda>c.
     kthen (kguard (unat (t_fdcap c) \<le> length (t_fdtbl c)) BadAccess)
    (kthen (kmod (upd_task clone (\<lambda>_. clone_fields pid c)))
    (kthen (kmod (\<lambda>s. upd_task (CurrentTask s) (\<lambda>t. t\<lparr>t_childcount := t_childcount t + 1\<rparr>) s))
    (kthen (clone_refs (take (unat (t_fdcap c)) (t_fdtbl c)) (unat (t_fdnext c)))
           (kret clone))))))"

definition task_signal_exec :: "u32 \<Rightarrow> ('a procs_scheme, unit) kern" where
  "task_signal_exec task s =
     (if t_sigpend (tasks s task) \<noteq> 0 then
        let signum = t_sigpend (tasks s task);
            s1 = (if t_sigwait (tasks s task) = t_sigpend (tasks s task)
                  then upd_task task (\<lambda>t. t\<lparr>t_sigwait := 0\<rparr>) s else s);
            s2 = upd_task task (\<lambda>t. t\<lparr>t_sigpend := 0\<rparr>) s1 in
        if length (t_sigact (tasks s2 task)) \<le> unat signum then Halt BadAccess
        else let hndl = sa_handler (t_sigact (tasks s2 task) ! unat signum) in
          if hndl \<noteq> NULL \<and> hndl \<noteq> SIG_IGN
          then Done () (s2\<lparr>handler_calls := handler_calls s2 @ [(hndl, signum)]\<rparr>)
          else Done () s2
      else Done () s)"

definition task_signal :: "u32 \<Rightarrow> u32 \<Rightarrow> u32 \<Rightarrow> ('a procs_scheme, u32) kern" where
  "task_signal task signum handler s =
     (let acts = t_sigact (tasks s task) in
      if length acts \<le> unat signum then Halt BadAccess
      else Done (sa_handler (acts ! unat signum))
        (upd_task task (\<lambda>t. t\<lparr>t_sigact := (t_sigact t)[unat signum := (t_sigact t ! unat signum)\<lparr>sa_handler := handler\<rparr>]\<rparr>) s))"

lemma upd_task_simps [simp]:
  "tasks (upd_task a f s) b = (if b = a then f (tasks s a) else tasks s b)"
  "task_links (upd_task a f s) = task_links s" "CurrentTask (upd_task a f s) = CurrentTask s"
  "UserTask (upd_task a f s) = UserTask s" "next_pid (upd_task a f s) = next_pid s"
  "fdescrs (upd_task a f s) = fdescrs s" "handler_calls (upd_task a f s) = handler_calls s"
  "FrameBitmap (upd_task a f s) = FrameBitmap s" "mem (upd_task a f s) = mem s"
  by (simp_all add: upd_task_def)

subsection \<open>Looking a task up\<close>

text \<open>The ring of tasks, read from the current one, with a process id for each.\<close>

definition task_ring :: "'a procs_scheme \<Rightarrow> u32 list \<Rightarrow> bool" where
  "task_ring s ts \<longleftrightarrow> ring (task_links s) (CurrentTask s # ts)
     \<and> distinct (map (t_pid \<circ> tasks s) (CurrentTask s # ts))"

lemma task_get_loop_chain:
  assumes "chain (task_links s) (t # rem @ [CurrentTask s])" "NULL \<notin> set rem" "CurrentTask s \<noteq> NULL"
    and "\<forall>x \<in> set rem. t_pid (tasks s x) \<noteq> t_pid (cur s)"
  shows "task_get_loop p t s =
     Done (case find (\<lambda>x. t_pid (tasks s x) = p) (rem @ [CurrentTask s]) of None \<Rightarrow> NULL | Some x \<Rightarrow> x) s"
  using assms
proof (induction rem arbitrary: t)
  case Nil
  then show ?case by (simp add: task_get_loop.simps [of p t s])
next
  case (Cons x rem)
  then show ?case by (simp add: task_get_loop.simps [of p t s])
qed

lemma task_get_ring:
  assumes "task_ring s ts"
  shows "task_get p s =
     Done (case find (\<lambda>x. t_pid (tasks s x) = p) (ts @ [CurrentTask s]) of None \<Rightarrow> NULL | Some x \<Rightarrow> x) s"
  unfolding task_get_def
proof (rule task_get_loop_chain)
  have "t_pid (cur s) \<notin> (t_pid \<circ> tasks s) ` set ts" using assms by (simp add: task_ring_def)
  then show "\<forall>x \<in> set ts. t_pid (tasks s x) \<noteq> t_pid (cur s)" by (metis comp_apply imageI)
qed (use assms in \<open>simp_all add: task_ring_def ring_def\<close>)

lemma find_unique:
  "distinct (map f xs) \<Longrightarrow> x \<in> set xs \<Longrightarrow> find (\<lambda>y. f y = f x) xs = Some x"
  by (induction xs) (auto simp: image_iff)

lemma task_ring_find:
  assumes "task_ring s ts" "x \<in> set (CurrentTask s # ts)"
  shows "task_get (t_pid (tasks s x)) s = Done x s"
proof -
  have "distinct (map (t_pid \<circ> tasks s) (ts @ [CurrentTask s]))" "x \<in> set (ts @ [CurrentTask s])"
    using assms by (auto simp: task_ring_def)
  from find_unique [OF this] show ?thesis using task_get_ring [OF assms(1)] by simp
qed

subsection \<open>Clone, exit and signals\<close>

definition add_refs :: "(u32 \<Rightarrow> fdescr) \<Rightarrow> u32 list \<Rightarrow> u32 \<Rightarrow> fdescr" where
  "add_refs F ds = (\<lambda>d. if d = NULL then F d else (F d)\<lparr>fd_refs := fd_refs (F d) + int (count_list ds d)\<rparr>)"

lemma add_refs_Nil [simp]: "add_refs F [] = F"
  by (auto simp: add_refs_def)

lemma add_refs_snoc:
  "add_refs F (ds @ [d]) = (if d = NULL then add_refs F ds
     else (add_refs F ds)(d := (add_refs F ds d)\<lparr>fd_refs := fd_refs (add_refs F ds d) + 1\<rparr>))"
  by (auto simp: add_refs_def fun_eq_iff)

lemma clone_refs_run:
  assumes "n \<le> length tbl"
  shows "clone_refs tbl n s = Done () (s\<lparr>fdescrs := add_refs (fdescrs s) (take n tbl)\<rparr>)"
proof -
  have "runs (clone_refs tbl n) s (\<lambda>_ t. t = s\<lparr>fdescrs := add_refs (fdescrs s) (take n tbl)\<rparr>)"
    unfolding clone_refs_def
    by (rule runs_kfor_upt)
      (use assms in \<open>auto simp: runs_def refs_incr_def take_Suc_conv_app_nth add_refs_snoc\<close>)
  then show ?thesis by (auto simp: runs_def)
qed

text \<open>Process ids are handed out in increasing order.\<close>

definition pids_below :: "'a procs_scheme \<Rightarrow> u32 list \<Rightarrow> bool" where
  "pids_below s ts \<longleftrightarrow> (\<forall>x \<in> set (CurrentTask s # ts). t_pid (tasks s x) < next_pid s)"

definition fdtbl_ok :: "task \<Rightarrow> bool" where
  "fdtbl_ok t \<longleftrightarrow> length (t_fdtbl t) = unat (t_fdcap t) \<and> unat (t_fdnext t) \<le> unat (t_fdcap t)"

lemma task_clone_run:
  assumes "fdtbl_ok (cur s)"
  shows "task_clone clone s = Done clone
     ((upd_task (CurrentTask s) (\<lambda>t. t\<lparr>t_childcount := t_childcount t + 1\<rparr>)
        (upd_task clone (\<lambda>_. clone_fields (next_pid s) (cur s)) (s\<lparr>next_pid := next_pid s + 1\<rparr>)))
      \<lparr>fdescrs := add_refs (fdescrs s) (take (unat (t_fdnext (cur s))) (t_fdtbl (cur s)))\<rparr>)"
  using assms by (simp add: task_clone_def task_next_pid_def fdtbl_ok_def clone_refs_run)

text \<open>Adding a task with the next process id keeps the ids of the ring distinct and in range.\<close>

lemma task_ring_extend:
  assumes ring: "task_ring s ts" and pids: "pids_below s ts" and h: "ring h (CurrentTask s # c # ts)"
    and t: "CurrentTask t = CurrentTask s" "task_links t = h" "next_pid t = next_pid s + 1"
    and same: "\<And>x. x \<in> set (CurrentTask s # ts) \<Longrightarrow> t_pid (tasks t x) = t_pid (tasks s x)"
    and new: "t_pid (tasks t c) = next_pid s" and "next_pid s \<noteq> 0xFFFFFFFF"
  shows "task_ring t (c # ts) \<and> pids_below t (c # ts)"
proof -
  let ?p = "t_pid \<circ> tasks t"
  note step = u32_less_inc [OF assms(9)]
  have less: "?p x < next_pid s" if "x \<in> set (CurrentTask s # ts)" for x
    using pids that same [OF that] by (auto simp: pids_below_def)
  have "map ?p (CurrentTask s # ts) = map (t_pid \<circ> tasks s) (CurrentTask s # ts)"
    by (rule map_cong [OF refl]) (simp add: same)
  then have old: "distinct (map ?p (CurrentTask s # ts))" using ring by (simp only: task_ring_def)
  have fresh: "?p c \<noteq> ?p x" if "x \<in> set (CurrentTask s # ts)" for x
    using less [OF that] new by auto
  have "?p (CurrentTask s) \<noteq> ?p c" using fresh [of "CurrentTask s"] by auto
  then have "task_ring t (c # ts)"
    using old fresh h t(1,2) by (auto simp: task_ring_def)
  moreover have "?p x < next_pid s + 1" if "x \<in> set (CurrentTask s # c # ts)" for x
    using that less new step less_trans by (cases "x = c") auto
  then have "pids_below t (c # ts)" using t by (simp add: pids_below_def)
  ultimately show ?thesis ..
qed

lemma task_clone_insert:
  assumes ring: "task_ring s ts" and pids: "pids_below s ts" and fd: "fdtbl_ok (cur s)"
    and new: "clone \<noteq> NULL" "clone \<notin> set (CurrentTask s # ts)" and wrap: "next_pid s \<noteq> 0xFFFFFFFF"
  shows "runs (kbind (task_clone clone) (\<lambda>c. kthen (task_insert c) (kret c))) s (\<lambda>c t.
     c = clone \<and> CurrentTask t = CurrentTask s \<and> task_ring t (clone # ts) \<and> pids_below t (clone # ts)
     \<and> tasks t clone = clone_fields (next_pid s) (cur s)
     \<and> t_childcount (cur t) = t_childcount (cur s) + 1)"
proof -
  have "ring (task_links s) (CurrentTask s # ts)" using ring by (simp add: task_ring_def)
  from kl.ins_ring [OF this new(2,1)] obtain h where h: "list_insert_after (CurrentTask s) clone (task_links s) = Inr h"
    "ring h (CurrentTask s # clone # ts)" by blast
  define t where "t = ((upd_task (CurrentTask s) (\<lambda>t. t\<lparr>t_childcount := t_childcount t + 1\<rparr>)
        (upd_task clone (\<lambda>_. clone_fields (next_pid s) (cur s)) (s\<lparr>next_pid := next_pid s + 1\<rparr>)))
      \<lparr>fdescrs := add_refs (fdescrs s) (take (unat (t_fdnext (cur s))) (t_fdtbl (cur s)))\<rparr>)
      \<lparr>task_links := h\<rparr>"
  have run: "kbind (task_clone clone) (\<lambda>c. kthen (task_insert c) (kret c)) s = Done clone t"
    using h by (simp add: task_clone_run [OF fd] task_insert_def t_def)
  have fields: "CurrentTask t = CurrentTask s" "task_links t = h" "next_pid t = next_pid s + 1"
    "tasks t clone = clone_fields (next_pid s) (cur s)" "t_childcount (cur t) = t_childcount (cur s) + 1"
    using new by (auto simp: t_def)
  have "t_pid (tasks t x) = t_pid (tasks s x)" if "x \<in> set (CurrentTask s # ts)" for x
    using new that by (auto simp: t_def)
  from task_ring_extend [OF ring pids h(2) fields(1-3) this _ wrap] show ?thesis
    using run fields by (intro runsI) (auto simp: clone_fields_def)
qed

lemma task_ring_upd:
  assumes "task_ring s ts" "\<And>t. t_pid (f t) = t_pid t"
  shows "task_ring (upd_task a f s) ts"
proof -
  have "t_pid \<circ> tasks (upd_task a f s) = t_pid \<circ> tasks s" by (auto simp: fun_eq_iff assms(2))
  then show ?thesis using assms(1) by (simp only: task_ring_def upd_task_simps)
qed

lemma task_exit_run:
  assumes ring: "task_ring s ts" and p: "p \<in> set (CurrentTask s # ts)" "p \<noteq> CurrentTask s"
    and ppid: "t_ppid (cur s) = t_pid (tasks s p)"
  shows "task_exit (CurrentTask s) status s = Done ()
     (upd_task p (\<lambda>q. q\<lparr>t_sigchldpid := t_pid (cur s), t_sigchldexit := status, t_sigpend := SIGCHLD,
         t_childcount := t_childcount q - 1\<rparr>)
       (upd_task (CurrentTask s) (\<lambda>t. t\<lparr>t_state := TaskQuit, t_exitcode := status, t_sigpend := SIGTERM\<rparr>) s))"
proof -
  let ?s = "upd_task (CurrentTask s) (\<lambda>t. t\<lparr>t_sigpend := SIGTERM\<rparr>)
    (upd_task (CurrentTask s) (\<lambda>t. t\<lparr>t_state := TaskQuit, t_exitcode := status\<rparr>) s)"
  have "task_ring ?s ts" by (intro task_ring_upd ring) simp_all
  from task_ring_find [OF this, of p] p have get: "task_get (t_pid (tasks s p)) ?s = Done p ?s"
    by (simp only: upd_task_simps if_False)
  have "p \<noteq> NULL" using ring p(1) by (auto simp: task_ring_def ring_def)
  with get p(2) ppid show ?thesis
    by (simp add: task_exit_def task_signal_raise_def) (simp add: upd_task_def fun_upd_twist fun_upd_upd)
qed

lemma signal_exec_run:
  assumes "t_sigpend (tasks s a) = 0"
  shows "task_signal_exec a s = Done () s"
  using assms by (simp add: task_signal_exec_def)

subsection \<open>Properties\<close>

text \<open>Two tasks: the kernel task (pid 0) and its child (pid 1), the child running.\<close>

definition demo_child :: task where
  "demo_child = zero_task\<lparr>t_pid := 1, t_state := TaskReady, t_fdcap := 2, t_fdtbl := [64, 0], t_brk := 0x8000,
     t_pgd := 0x300000, t_sigact := (replicate NSIG zero_sigaction)[17 := zero_sigaction\<lparr>sa_handler := 0x1234\<rparr>]\<rparr>"

definition demo_procs :: procs where
  "demo_procs = frames.extend demo_frames
     \<lparr>tasks = (\<lambda>_. zero_task)(0xC0180000 := (KernelTask_init demo_syms)\<lparr>t_pgd := 0x200000\<rparr>, 0x9000 := demo_child),
      task_links = \<lparr>lnext = (\<lambda>_. 0)(0xC0180000 := 0x9000, 0x9000 := 0xC0180000),
        lprev = (\<lambda>_. 0)(0xC0180000 := 0x9000, 0x9000 := 0xC0180000)\<rparr>,
      CurrentTask = 0x9000, UserTask = 0, next_pid = 2,
      fdescrs = (\<lambda>_. \<lparr>fd_dev = 0, fd_refs = 0\<rparr>)(64 := \<lparr>fd_dev = 32, fd_refs = 1\<rparr>), handler_calls = []\<rparr>"

lemma demo_procs_simps [simp]:
  "CurrentTask demo_procs = 0x9000" "tasks demo_procs 0x9000 = demo_child" "next_pid demo_procs = 2"
  "t_pid (tasks demo_procs 0xC0180000) = 0"
  by (simp_all add: demo_procs_def frames.defs KernelTask_init_def KERNEL_PID_def)

lemma demo_child_simps [simp]:
  "t_pid demo_child = 1" "t_ppid demo_child = 0" "t_sigpend demo_child = 0" "fdtbl_ok demo_child"
  "length (t_sigact demo_child) = 65"
  by (simp_all add: demo_child_def zero_task_def fdtbl_ok_def NSIG_def)

lemma demo_procs_ring [simp]: "task_ring demo_procs [0xC0180000]" "pids_below demo_procs [0xC0180000]"
  by (simp_all add: task_ring_def ring_def demo_procs_def frames.defs KernelTask_init_def KERNEL_PID_def
      pids_below_def)

text \<open>On a ring of tasks with distinct process ids, \<^verbatim>\<open>task_get\<close> always returns: with the task
  of that id if the ring has one, with \<^verbatim>\<open>NULL\<close> otherwise, and the state is unchanged.\<close>

theorem task_get_correct:
  assumes "task_ring s ts"
  shows "runs (task_get p) s (\<lambda>r t. t = s
     \<and> (r \<in> set (CurrentTask s # ts) \<and> t_pid (tasks s r) = p
        \<or> r = NULL \<and> (\<forall>x \<in> set (CurrentTask s # ts). t_pid (tasks s x) \<noteq> p)))"
proof (cases "find (\<lambda>x. t_pid (tasks s x) = p) (ts @ [CurrentTask s])")
  case None
  then have "task_get p s = Done NULL s" using task_get_ring [OF assms, of p] by simp
  then show ?thesis using None by (intro runsI) (auto simp: find_None_iff)
next
  case (Some x)
  then have "task_get p s = Done x s" using task_get_ring [OF assms, of p] by simp
  moreover have "x \<in> set (ts @ [CurrentTask s])" "t_pid (tasks s x) = p"
    using Some unfolding find_Some_iff by (metis nth_mem, metis)
  ultimately show ?thesis by (intro runsI) auto
qed

theorem task_get_correct_witness:
  "runs (task_get 0) demo_procs (\<lambda>r t. r = 0xC0180000)"
  using task_get_correct [of demo_procs "[0xC0180000]" 0] by (auto elim!: runs_weaken)



text \<open>C21: when the current task exits, its parent (another task of the ring) becomes the receiver
  of \<^verbatim>\<open>SIGCHLD\<close> with the child's id and exit status and one child less; the task itself is marked
  as quit, and no other task changes.\<close>

theorem task_exit_notifies_parent:
  assumes "task_ring s ts" "p \<in> set ts" "t_ppid (cur s) = t_pid (tasks s p)"
  shows "runs (task_exit (CurrentTask s) status) s (\<lambda>_ t.
     t_state (cur t) = TaskQuit \<and> t_exitcode (cur t) = status
     \<and> t_sigpend (tasks t p) = SIGCHLD \<and> t_sigchldpid (tasks t p) = t_pid (cur s)
     \<and> t_sigchldexit (tasks t p) = status \<and> t_childcount (tasks t p) = t_childcount (tasks s p) - 1
     \<and> task_ring t ts \<and> (\<forall>x. x \<noteq> p \<and> x \<noteq> CurrentTask s \<longrightarrow> tasks t x = tasks s x))"
proof -
  have ne: "p \<noteq> CurrentTask s" using assms(1,2) by (auto simp: task_ring_def ring_def)
  have p: "p \<in> set (CurrentTask s # ts)" using assms(2) by simp
  show ?thesis
    by (rule runsI, rule task_exit_run [OF assms(1) p ne assms(3)])
      (use ne in \<open>auto intro!: task_ring_upd assms(1)\<close>)
qed

theorem task_exit_notifies_parent_witness:
  "runs (task_exit 0x9000 3) demo_procs (\<lambda>_ t. t_sigchldpid (tasks t 0xC0180000) = 1
     \<and> t_sigchldexit (tasks t 0xC0180000) = 3)"
  using task_exit_notifies_parent [of demo_procs "[0xC0180000]" "0xC0180000" 3]
  by (auto elim!: runs_weaken)

text \<open>A signal raised for a task is delivered once: the next \<^verbatim>\<open>task_signal_exec\<close> calls the
  task's handler for it exactly once (not at all for a null or ignoring handler), clears it, ends the
  task's wait for it, and a further \<^verbatim>\<open>task_signal_exec\<close> does nothing.\<close>

theorem signal_delivered_once:
  assumes "signum \<noteq> 0" "unat signum < length (t_sigact (tasks s a))"
  shows "runs (kthen (task_signal_raise a signum) (task_signal_exec a)) s (\<lambda>_ t.
     t_sigpend (tasks t a) = 0
     \<and> t_sigwait (tasks t a) = (if t_sigwait (tasks s a) = signum then 0 else t_sigwait (tasks s a))
     \<and> handler_calls t = handler_calls s @
        (let h = sa_handler (t_sigact (tasks s a) ! unat signum)
         in if h = NULL \<or> h = SIG_IGN then [] else [(h, signum)])
     \<and> task_signal_exec a t = Done () t)"
  using assms
  by (auto simp: runs_def task_signal_raise_def task_signal_exec_def Let_def)

theorem signal_delivered_once_witness:
  "runs (kthen (task_signal_raise 0x9000 17) (task_signal_exec 0x9000)) demo_procs (\<lambda>_ t.
     handler_calls t = handler_calls demo_procs @ [(0x1234, 17)])"
proof -
  have "sa_handler (t_sigact demo_child ! 17) = 0x1234" by (simp add: demo_child_def NSIG_def)
  then show ?thesis
    using signal_delivered_once [of 17 demo_procs "0x9000"]
    by (auto elim!: runs_weaken simp: SIG_IGN_def)
qed

end
