(* ===== verification/Mmu.thy ===== *)
theory Mmu
  imports Task
begin

text \<open>
  Paging (\<^verbatim>\<open>arch/x86/mem/mmu.h\<close>, \<^verbatim>\<open>mmu.c\<close>): page entries, the temporary mapping window in
  the last 4 MiB through which the kernel reaches any frame, writing and reading the entry of an
  address in any page directory, mapping, reservation, the page fault handler and copies from
  physical memory. Page directories and tables live in the machine's memory, entry by entry;
  the kernel's own \<^verbatim>\<open>KernelPageDir\<close> and \<^verbatim>\<open>KernelStackTbl\<close> are at the addresses of their
  symbols. \<^verbatim>\<open>TmpPageTbl\<close> is the list of its 1024 entries: a pointer into the window is
  read and written through the entry it falls in, and not at all when that entry is nil. The
  processor's own translation is \<open>translate\<close>.
\<close>

definition PAGE_PRESENT :: u32 where "PAGE_PRESENT = push_bit 0 1"
definition PAGE_RW :: u32 where "PAGE_RW = push_bit 1 1"
definition PAGE_USER :: u32 where "PAGE_USER = push_bit 2 1"
definition PAGE_EXTENDED :: u32 where "PAGE_EXTENDED = push_bit 7 1"
definition PAGE_LINK :: u32 where "PAGE_LINK = push_bit 9 1"
definition PAGE_RESERVED :: u32 where "PAGE_RESERVED = push_bit 10 1"
definition PAGE_STACK_END :: u32 where "PAGE_STACK_END = push_bit 1 1"

definition PDE_ADDR_MASK :: u32 where "PDE_ADDR_MASK = 0xFFC00000"
definition PTE_ADDR_MASK :: u32 where "PTE_ADDR_MASK = 0xFFFFF000"

definition PAGE_ENTRY :: "u32 \<Rightarrow> u32 \<Rightarrow> pgentry_t" where "PAGE_ENTRY addr flags = addr OR flags"
definition ADDR_PDE :: "u32 \<Rightarrow> nat" where "ADDR_PDE addr = unat (drop_bit 22 addr)"
definition ADDR_PTE :: "u32 \<Rightarrow> nat" where "ADDR_PTE addr = unat (drop_bit 12 addr mod 1024)"
definition PDE_ADDR :: "pgentry_t \<Rightarrow> u32" where "PDE_ADDR pde = pde AND PDE_ADDR_MASK"
definition PTE_ADDR :: "pgentry_t \<Rightarrow> u32" where "PTE_ADDR pte = pte AND PTE_ADDR_MASK"
definition PDE_FLAGS :: "pgentry_t \<Rightarrow> u32" where "PDE_FLAGS pde = pde AND NOT PDE_ADDR_MASK"
definition PTE_FLAGS :: "pgentry_t \<Rightarrow> u32" where "PTE_FLAGS pte = pte AND NOT PTE_ADDR_MASK"
definition NilPgEnt :: pgentry_t where "NilPgEnt = 0"

definition BASE_FLAGS :: u32 where "BASE_FLAGS = PAGE_PRESENT OR PAGE_RW"
definition USER_FLAGS :: u32 where "USER_FLAGS = BASE_FLAGS OR PAGE_USER"
definition KERNEL_FLAGS :: u32 where "KERNEL_FLAGS = BASE_FLAGS OR PAGE_LINK"
definition KERNEL_LOW_4M :: pgentry_t where "KERNEL_LOW_4M = PAGE_ENTRY 0 (KERNEL_FLAGS OR PAGE_EXTENDED)"

lemmas page_flag_defs = PAGE_PRESENT_def PAGE_RW_def PAGE_USER_def PAGE_EXTENDED_def PAGE_LINK_def
  PAGE_RESERVED_def PAGE_STACK_END_def BASE_FLAGS_def USER_FLAGS_def KERNEL_FLAGS_def
  PDE_ADDR_MASK_def PTE_ADDR_MASK_def

record mmu = procs +
  TmpPageTbl :: "pgentry_t list"
  MMUReady :: bool

subsection \<open>The temporary mapping window\<close>

definition tlb_invlpg :: "vaddr_t \<Rightarrow> ('a machine_scheme, unit) kern" where
  "tlb_invlpg addr = kret ()"

definition pg_free_tmp_map :: "pgentry_t list \<Rightarrow> nat option" where
  "pg_free_tmp_map tbl = List.find (\<lambda>i. tbl ! i = 0) [0..<1024]"

definition pg_tmp_map :: "pgaddr_t \<Rightarrow> ('a mmu_scheme, vaddr_t) kern" where
  "pg_tmp_map addr s =
     (case pg_free_tmp_map (TmpPageTbl s) of
        None \<Rightarrow> Halt (Panic ''Out of free temporary mapping pages'')
      | Some entry \<Rightarrow>
          let tmpaddr = KTMPMEM + of_nat entry * PAGE_SIZE in
          kthen (tlb_invlpg tmpaddr) (kret tmpaddr)
            (s\<lparr>TmpPageTbl := (TmpPageTbl s)[entry := PAGE_ENTRY addr KERNEL_FLAGS]\<rparr>))"

definition pg_tmp_unmap :: "vaddr_t \<Rightarrow> ('a mmu_scheme, unit) kern" where
  "pg_tmp_unmap tmpaddr =
     kthen (kmod (\<lambda>s. s\<lparr>TmpPageTbl := (TmpPageTbl s)[ADDR_PTE tmpaddr := NilPgEnt]\<rparr>)) (tlb_invlpg tmpaddr)"

text \<open>The frame behind a pointer into the window, and the accesses through it: \<^verbatim>\<open>p[i]\<close> for a
  \<^verbatim>\<open>pgentry_t *p\<close>, and whole-page \<^verbatim>\<open>memset\<close> and \<^verbatim>\<open>memcpy\<close>. An access through a slot that
  is not mapped is a page fault that nothing handles.\<close>

definition tmp_phys :: "vaddr_t \<Rightarrow> ('a mmu_scheme, paddr_t) kern" where
  "tmp_phys p s =
     (let e = TmpPageTbl s ! ADDR_PTE p in
      if p < KTMPMEM \<or> e = NilPgEnt then Halt BadAccess else Done (PTE_ADDR e + p mod PAGE_SIZE) s)"

definition tmp_get :: "vaddr_t \<Rightarrow> nat \<Rightarrow> ('a mmu_scheme, pgentry_t) kern" where
  "tmp_get p i = kbind (tmp_phys p) (\<lambda>a. kget (\<lambda>s. ent_get (mem s) a i))"

definition tmp_put :: "vaddr_t \<Rightarrow> nat \<Rightarrow> pgentry_t \<Rightarrow> ('a mmu_scheme, unit) kern" where
  "tmp_put p i v = kbind (tmp_phys p) (\<lambda>a. kmod (\<lambda>s. s\<lparr>mem := ent_set (mem s) a i v\<rparr>))"

definition tmp_zero :: "vaddr_t \<Rightarrow> ('a mmu_scheme, unit) kern" where
  "tmp_zero p = kbind (tmp_phys p) (\<lambda>a. kmod (\<lambda>s. s\<lparr>mem := mem_fill (mem s) a 0 (4 * 1024)\<rparr>))"

definition tmp_copy :: "vaddr_t \<Rightarrow> vaddr_t \<Rightarrow> ('a mmu_scheme, unit) kern" where
  "tmp_copy dest src = kbind (tmp_phys src) (\<lambda>b. kbind (tmp_phys dest) (\<lambda>a.
     kmod (\<lambda>s. s\<lparr>mem := mem_copy (mem s) a b PAGE_SIZE\<rparr>)))"

subsection \<open>Page directories\<close>

definition base_flags :: "('a mmu_scheme, u32) kern" where
  "base_flags = kget (\<lambda>s. if t_pid (cur s) = KERNEL_PID then KERNEL_FLAGS else USER_FLAGS)"

definition pg_dir_new :: "('a mmu_scheme, pgaddr_t) kern" where
  "pg_dir_new =
     kbind frame_alloc (\<lambda>dirframe.
     kthen (frame_set dirframe)
    (kbind (pg_tmp_map dirframe) (\<lambda>dir.
     kthen (tmp_zero dir)
    (kthen (pg_tmp_unmap dir)
           (kret dirframe)))))"

text \<open>The shared beginning of \<^verbatim>\<open>pg_write_entry\<close> and \<^verbatim>\<open>pg_read_entry\<close>: a nil directory
  entry gets a new table, then the table is mapped.\<close>

definition pg_open_table :: "vaddr_t \<Rightarrow> vaddr_t \<Rightarrow> ('a mmu_scheme, vaddr_t) kern" where
  "pg_open_table dir vaddr =
     kbind (tmp_get dir (ADDR_PDE vaddr)) (\<lambda>dirent.
     kthen (kwhen (dirent = NilPgEnt)
       (kbind base_flags (\<lambda>ptflags. kbind pg_dir_new (\<lambda>tblframe.
          tmp_put dir (ADDR_PDE vaddr) (PAGE_ENTRY tblframe ptflags)))))
    (kbind (tmp_get dir (ADDR_PDE vaddr)) (\<lambda>dirent. pg_tmp_map (PTE_ADDR dirent))))"

definition pg_write_entry :: "pgaddr_t \<Rightarrow> vaddr_t \<Rightarrow> pgentry_t \<Rightarrow> ('a mmu_scheme, unit) kern" where
  "pg_write_entry pgd_addr vaddr entry =
     kbind (pg_tmp_map pgd_addr) (\<lambda>dir.
     kbind (pg_open_table dir vaddr) (\<lambda>table.
     kthen (tmp_put table (ADDR_PTE vaddr) entry)
    (kthen (pg_tmp_unmap table)
    (kthen (pg_tmp_unmap dir)
           (tlb_invlpg vaddr)))))"

definition pg_read_entry :: "pgaddr_t \<Rightarrow> vaddr_t \<Rightarrow> ('a mmu_scheme, pgentry_t) kern" where
  "pg_read_entry pgd_addr vaddr =
     kbind (pg_tmp_map pgd_addr) (\<lambda>dir.
     kbind (pg_open_table dir vaddr) (\<lambda>table.
     kbind (tmp_get table (ADDR_PTE vaddr)) (\<lambda>entry.
     kthen (pg_tmp_unmap table)
    (kthen (pg_tmp_unmap dir)
           (kret entry)))))"

definition pg_map_ext :: "pgaddr_t \<Rightarrow> vaddr_t \<Rightarrow> u32 \<Rightarrow> ('a mmu_scheme, unit) kern" where
  "pg_map_ext paddr vaddr flags =
     kbind (kget (\<lambda>s. t_pgd (cur s))) (\<lambda>pgd. pg_write_entry pgd (PGADDR vaddr) (PAGE_ENTRY paddr flags))"

definition pg_map :: "pgaddr_t \<Rightarrow> vaddr_t \<Rightarrow> ('a mmu_scheme, unit) kern" where
  "pg_map paddr vaddr = kbind base_flags (\<lambda>flags. pg_map_ext paddr vaddr flags)"

definition pg_map_sequence :: "pgaddr_t \<Rightarrow> vaddr_t \<Rightarrow> u32 \<Rightarrow> ('a mmu_scheme, unit) kern" where
  "pg_map_sequence paddr vaddr len = page_loop (\<lambda>i. pg_map (paddr + i) (vaddr + i)) 0 len"

definition pg_unmap :: "vaddr_t \<Rightarrow> ('a mmu_scheme, unit) kern" where
  "pg_unmap vaddr = kbind (kget (\<lambda>s. t_pgd (cur s))) (\<lambda>pgd. pg_write_entry pgd (PGADDR vaddr) NilPgEnt)"

definition pg_alloc :: "vaddr_t \<Rightarrow> ('a mmu_scheme, unit) kern" where
  "pg_alloc vaddr = kbind frame_alloc (\<lambda>frame. kthen (frame_set frame) (pg_map frame vaddr))"

text \<open>The flags that \<^verbatim>\<open>pg_alloc_range\<close> computes from \<open>rw\<close> are not used by its loop.\<close>

definition pg_alloc_range :: "vaddr_t \<Rightarrow> vaddr_t \<Rightarrow> bool \<Rightarrow> ('a mmu_scheme, unit) kern" where
  "pg_alloc_range start end rw =
     kbind base_flags (\<lambda>flags. page_loop pg_alloc start (end + PAGE_SIZE))"

definition pg_reserve :: "vaddr_t \<Rightarrow> ('a mmu_scheme, unit) kern" where
  "pg_reserve vaddr = kbind base_flags (\<lambda>flags.
     pg_map_ext 0 vaddr ((flags OR PAGE_RESERVED) AND NOT PAGE_PRESENT))"

definition pg_reserve_range :: "vaddr_t \<Rightarrow> vaddr_t \<Rightarrow> bool \<Rightarrow> ('a mmu_scheme, unit) kern" where
  "pg_reserve_range start end rw = kbind base_flags (\<lambda>flags.
     let flags = (flags OR PAGE_RESERVED) AND NOT PAGE_PRESENT;
         flags = (if rw then flags OR PAGE_RW else flags)
     in page_loop (\<lambda>a. pg_map_ext MEMMAX a flags) start (end + PAGE_SIZE))"

definition pg_unmap_ext :: "vaddr_t \<Rightarrow> ('a mmu_scheme, unit) kern" where
  "pg_unmap_ext vaddr =
     kbind (kget (\<lambda>s. t_pgd (cur s))) (\<lambda>pgd.
     kbind (pg_tmp_map pgd) (\<lambda>dir.
     kbind (tmp_get dir (ADDR_PDE vaddr)) (\<lambda>dirent.
     if dirent = NilPgEnt then pg_tmp_unmap dir
     else kthen (tmp_put dir (ADDR_PDE vaddr) NilPgEnt) (kthen tlb_flush (pg_tmp_unmap dir)))))"

definition pg_unmap_low_kernel :: "('a mmu_scheme, unit) kern" where
  "pg_unmap_low_kernel = pg_unmap_ext 0"

definition mmu_is_ready :: "('a mmu_scheme, bool) kern" where
  "mmu_is_ready = kget MMUReady"

definition pg_is_allocated :: "vaddr_t \<Rightarrow> ('a mmu_scheme, bool) kern" where
  "pg_is_allocated addr =
     kbind (kget (\<lambda>s. t_pgd (cur s))) (\<lambda>pgd.
     kbind (pg_tmp_map pgd) (\<lambda>dir.
     kbind (tmp_get dir (ADDR_PDE addr)) (\<lambda>pde.
     kthen (pg_tmp_unmap dir)
    (if pde = NilPgEnt then kret False
     else if pde AND PAGE_PRESENT = 0 then kret False
     else if pde AND PAGE_EXTENDED \<noteq> 0 then kret True
     else kbind (pg_tmp_map (PTE_ADDR pde)) (\<lambda>pt.
          kbind (tmp_get pt (ADDR_PTE addr)) (\<lambda>pte.
          kthen (pg_tmp_unmap pt)
         (if pte = NilPgEnt then kret False
          else if pte AND PAGE_PRESENT = 0 then kret False
          else kret True)))))))"

definition pg_is_reserved :: "vaddr_t \<Rightarrow> ('a mmu_scheme, bool) kern" where
  "pg_is_reserved addr =
     kbind (kget (\<lambda>s. t_pgd (cur s))) (\<lambda>pgd.
     kbind (pg_tmp_map pgd) (\<lambda>dir.
     kbind (tmp_get dir (ADDR_PDE addr)) (\<lambda>pde.
     kthen (pg_tmp_unmap dir)
    (if pde = NilPgEnt then kret False
     else if pde AND PAGE_RESERVED \<noteq> 0 \<and> pde AND PAGE_EXTENDED \<noteq> 0 then kret True
     else if pde AND PAGE_EXTENDED \<noteq> 0 then kret False
     else kbind (pg_tmp_map (PTE_ADDR pde)) (\<lambda>pt.
          kbind (tmp_get pt (ADDR_PTE addr)) (\<lambda>pte.
          kthen (pg_tmp_unmap pt)
         (if pte = NilPgEnt then kret False
          else if pte AND PAGE_RESERVED \<noteq> 0 then kret True
          else kret False)))))))"

definition pg_is_kernel :: "vaddr_t \<Rightarrow> bool" where
  "pg_is_kernel addr \<longleftrightarrow> KZERO \<le> addr \<and> addr < KTMPMEM"

definition pg_copy_mapping :: "pgaddr_t \<Rightarrow> pgaddr_t \<Rightarrow> vaddr_t \<Rightarrow> ('a mmu_scheme, unit) kern" where
  "pg_copy_mapping dest_pgd src_pgd addr =
     kbind (pg_read_entry src_pgd (PGADDR addr)) (\<lambda>entry.
     if entry = NilPgEnt then kstop (Panic ''Tried to copy nil page entry'')
     else pg_write_entry dest_pgd (PGADDR addr) entry)"

definition pg_fault_handler :: "isrargs \<Rightarrow> ('a mmu_scheme, isrargs) kern" where
  "pg_fault_handler regs =
     kbind mmu_read_cr2 (\<lambda>fault_addr.
     kbind (kget UserTask) (\<lambda>user.
     if user \<noteq> NULL \<and> pg_is_kernel fault_addr then
       kbind (kget (\<lambda>s. (t_pgd (tasks s user), t_pgd (tasks s (sym_KernelTask (syms s)))))) (\<lambda>(upgd, kpgd).
         kthen (pg_copy_mapping upgd kpgd fault_addr) (kret regs))
     else kbind (pg_is_reserved fault_addr) (\<lambda>reserved.
       if reserved then
         kbind frame_alloc (\<lambda>frame.
           kthen (frame_set frame) (kthen (pg_map frame fault_addr) (kret regs)))
       else kstop (Panic ''Page fault on unreserved page''))))"

text \<open>\<^verbatim>\<open>pg_init\<close>: the boot directory gains the window and the kernel stack, and the stack pointer
  moves to the stack's new address.\<close>

definition rebase_sp :: "symtab \<Rightarrow> u32 \<Rightarrow> u32" where
  "rebase_sp y x = KSTACK + (x - KBSSTOPHYS (sym_stack_bottom y))"

definition kdir_set :: "nat \<Rightarrow> pgentry_t \<Rightarrow> ('a mmu_scheme, unit) kern" where
  "kdir_set i v = kmod (\<lambda>s. s\<lparr>mem := ent_set (mem s) (KBSSTOPHYS (sym_KernelPageDir (syms s))) i v\<rparr>)"

definition kstack_set :: "nat \<Rightarrow> pgentry_t \<Rightarrow> ('a mmu_scheme, unit) kern" where
  "kstack_set i v = kmod (\<lambda>s. s\<lparr>mem := ent_set (mem s) (KBSSTOPHYS (sym_KernelStackTbl (syms s))) i v\<rparr>)"

definition pg_init :: "('a mmu_scheme, unit) kern" where
  "pg_init =
     kthen (idt_set_handler INT_PAGE_FAULT IsrPgFault)
    (kbind (kget syms) (\<lambda>y. kseq
      [kdir_set (ADDR_PDE KTMPMEM) (PAGE_ENTRY (KBSSTOPHYS (sym_TmpPageTbl y)) (KERNEL_FLAGS OR PAGE_LINK)),
       kmod (upd_task (sym_KernelTask y) (\<lambda>t. t\<lparr>t_pgd := KBSSTOPHYS (sym_KernelPageDir y)\<rparr>)),
       kstack_set 1022 (PAGE_ENTRY 0 PAGE_STACK_END),
       kstack_set 1023 (PAGE_ENTRY (KBSSTOPHYS (sym_stack_top y)) BASE_FLAGS),
       kdir_set (ADDR_PDE (KSTACK - 1)) (PAGE_ENTRY (KBSSTOPHYS (sym_KernelStackTbl y)) BASE_FLAGS),
       kmod (\<lambda>s. s\<lparr>esp := rebase_sp y (esp s), ebp := rebase_sp y (ebp s)\<rparr>),
       tlb_flush,
       kmod (\<lambda>s. s\<lparr>MMUReady := True\<rparr>)]))"

subsection \<open>Translation by the processor\<close>

definition translate :: "bytes \<Rightarrow> pgaddr_t \<Rightarrow> vaddr_t \<Rightarrow> paddr_t option" where
  "translate m dir va =
     (let pde = ent_get m dir (ADDR_PDE va) in
      if pde AND PAGE_PRESENT = 0 then None
      else if pde AND PAGE_EXTENDED \<noteq> 0 then Some (PDE_ADDR pde + (va AND 0x3FFFFF))
      else let pte = ent_get m (PTE_ADDR pde) (ADDR_PTE va) in
        if pte AND PAGE_PRESENT = 0 then None else Some (PTE_ADDR pte + (va AND 0xFFF)))"

subsection \<open>Entries and addresses\<close>

lemma page_aligned_bits: "page_aligned a \<longleftrightarrow> (\<forall>n < 12. \<not> bit a n)"
proof -
  have "page_aligned a \<longleftrightarrow> take_bit 12 a = 0"
    by (simp add: page_aligned_def PAGE_SIZE_def take_bit_eq_mod)
  also have "\<dots> \<longleftrightarrow> (\<forall>n < 12. \<not> bit a n)"
    by (auto simp: bit_eq_iff bit_take_bit_iff)
  finally show ?thesis .
qed

lemma addr_masks: "PTE_ADDR_MASK = NOT (mask 12)" "PDE_ADDR_MASK = NOT (mask 22)" "(0xFFF :: u32) = mask 12"
    "(0x3FFFFF :: u32) = mask 22"
  by (simp_all add: PTE_ADDR_MASK_def PDE_ADDR_MASK_def mask_eq_exp_minus_1 not_eq_complement)

lemma PTE_ADDR_aligned [simp]: "page_aligned (PTE_ADDR x)"
  by (simp add: page_aligned_bits PTE_ADDR_def addr_masks bit_simps)

lemma PTE_ADDR_ENTRY [simp]:
  assumes "page_aligned a" "flags AND PTE_ADDR_MASK = 0"
  shows "PTE_ADDR (PAGE_ENTRY a flags) = a"
proof -
  have "a AND PTE_ADDR_MASK = a"
    by (rule bit_word_eqI) (use assms(1) in \<open>auto simp: page_aligned_bits addr_masks bit_simps\<close>)
  then show ?thesis using assms(2) by (simp add: PTE_ADDR_def PAGE_ENTRY_def bit.conj_disj_distrib2)
qed

lemma flags_low [simp]:
  "KERNEL_FLAGS AND PTE_ADDR_MASK = 0" "USER_FLAGS AND PTE_ADDR_MASK = 0"
  by (simp_all add: page_flag_defs)

lemma flags_present: "KERNEL_FLAGS AND PAGE_PRESENT \<noteq> 0" "USER_FLAGS AND PAGE_PRESENT \<noteq> 0"
    "KERNEL_FLAGS AND PAGE_EXTENDED = 0" "USER_FLAGS AND PAGE_EXTENDED = 0"
  by (simp_all add: page_flag_defs)

lemma aligned_flag:
  assumes "page_aligned a" "f AND PTE_ADDR_MASK = 0"
  shows "PAGE_ENTRY a flags AND f = flags AND f"
proof -
  have "a AND f = 0"
    by (rule bit_word_eqI)
      (use assms in \<open>auto simp: page_aligned_bits addr_masks bit_simps bit_eq_iff not_less\<close>)
  then show ?thesis by (simp add: PAGE_ENTRY_def bit.conj_disj_distrib2)
qed

lemma flag_masks [simp]: "PAGE_PRESENT AND PTE_ADDR_MASK = 0" "PAGE_EXTENDED AND PTE_ADDR_MASK = 0"
    "PAGE_RESERVED AND PTE_ADDR_MASK = 0" "PAGE_LINK AND PTE_ADDR_MASK = 0"
  by (simp_all add: page_flag_defs)

lemma KERNEL_ENTRY_nonzero [simp]: "PAGE_ENTRY a KERNEL_FLAGS \<noteq> 0" "PAGE_ENTRY a USER_FLAGS \<noteq> 0"
  by (simp_all add: PAGE_ENTRY_def page_flag_defs or_eq_0_iff)

lemma ADDR_PTE_less [simp]: "ADDR_PTE a < 1024"
proof -
  have "drop_bit 12 a mod 1024 < 1024" by (rule word_mod_less_divisor) simp
  then show ?thesis by (simp add: ADDR_PTE_def word_less_nat_alt)
qed

lemma ADDR_PDE_unat: "ADDR_PDE a = unat a div 4194304"
  by (simp add: ADDR_PDE_def drop_bit_eq_div unat_div)

lemma ADDR_PTE_unat: "ADDR_PTE a = unat a div 4096 mod 1024"
  by (simp add: ADDR_PTE_def unat_mod drop_bit_eq_div unat_div)

lemma ADDR_PDE_less [simp]: "ADDR_PDE a < 1024"
  using unat_lt32 [of a] by (simp add: ADDR_PDE_unat)

subsection \<open>The window's slots\<close>

definition win :: "nat \<Rightarrow> vaddr_t" where
  "win e = KTMPMEM + of_nat e * PAGE_SIZE"

lemma unat_win: "e < 1024 \<Longrightarrow> unat (win e) = 4290772992 + e * 4096"
  by (simp add: win_def KTMPMEM_def PAGE_SIZE_def unat_word_ariths unat_of_nat)

lemma win_simps [simp]:
  assumes "e < 1024"
  shows "ADDR_PTE (win e) = e" "win e mod PAGE_SIZE = 0" "\<not> win e < KTMPMEM"
proof -
  have "4290772992 + e * 4096 = (1023 * 1024 + e) * 4096" by simp
  then have "(4290772992 + e * 4096) div 4096 = 1023 * 1024 + e" "(4290772992 + e * 4096) mod 4096 = 0"
    by (simp_all only: nonzero_mult_div_cancel_right mod_mult_self2_is_0)
  moreover have "(1047552 + e) mod 1024 = e"
    using assms mod_mult_self3 [of 1023 1024 e] by simp
  ultimately show "ADDR_PTE (win e) = e" "win e mod PAGE_SIZE = 0" "\<not> win e < KTMPMEM"
    using assms by (simp_all add: ADDR_PTE_unat unat_win page_aligned_def [symmetric] page_aligned_unat
        word_less_nat_alt KTMPMEM_def)
qed

definition tmp_room :: "nat \<Rightarrow> pgentry_t list \<Rightarrow> bool" where
  "tmp_room n tbl \<longleftrightarrow> length tbl = 1024 \<and> n \<le> card {i. i < 1024 \<and> tbl ! i = 0}"

lemma tmp_room_length: "tmp_room n tbl \<Longrightarrow> length tbl = 1024"
  by (simp add: tmp_room_def)

lemma tmp_room_mono: "tmp_room n tbl \<Longrightarrow> k \<le> n \<Longrightarrow> tmp_room k tbl"
  by (auto simp: tmp_room_def)

lemma tmp_room_use:
  assumes "tmp_room (Suc n) tbl" "e < 1024" "tbl ! e = 0" "v \<noteq> 0"
  shows "tmp_room n (tbl[e := v])"
proof -
  have "{i. i < 1024 \<and> tbl[e := v] ! i = 0} = {i. i < 1024 \<and> tbl ! i = 0} - {e}"
    using assms by (auto simp: tmp_room_def nth_list_update)
  moreover have "finite {i. i < 1024 \<and> tbl ! i = 0}" "e \<in> {i. i < 1024 \<and> tbl ! i = 0}"
    using assms by auto
  ultimately show ?thesis using assms(1) by (simp add: tmp_room_def card_Diff_singleton) linarith
qed

lemma tmp_map_ex:
  assumes "tmp_room (Suc n) (TmpPageTbl s)"
  shows "\<exists>e < 1024. TmpPageTbl s ! e = 0
    \<and> pg_tmp_map a s = Done (win e) (s\<lparr>TmpPageTbl := (TmpPageTbl s)[e := PAGE_ENTRY a KERNEL_FLAGS]\<rparr>)
    \<and> tmp_room n ((TmpPageTbl s)[e := PAGE_ENTRY a KERNEL_FLAGS])"
proof -
  have "{i. i < 1024 \<and> TmpPageTbl s ! i = 0} \<noteq> {}"
    using assms unfolding tmp_room_def by (metis card.empty not_less_eq_eq le0)
  then obtain i where "i < 1024" "TmpPageTbl s ! i = 0" by auto
  then have "pg_free_tmp_map (TmpPageTbl s) \<noteq> None"
    by (auto simp: pg_free_tmp_map_def find_None_iff)
  then obtain e where e: "pg_free_tmp_map (TmpPageTbl s) = Some e" by blast
  then have "e < 1024" "TmpPageTbl s ! e = 0"
    by (auto simp: pg_free_tmp_map_def find_Some_iff)
  with e tmp_room_use [OF assms] show ?thesis
    by (auto simp: pg_tmp_map_def tlb_invlpg_def win_def Let_def)
qed

lemma tmp_phys_run:
  assumes "e < 1024" "TmpPageTbl s ! e = PAGE_ENTRY a KERNEL_FLAGS" "page_aligned a"
  shows "tmp_phys (win e) s = Done a s"
  using assms by (simp add: tmp_phys_def NilPgEnt_def)

lemma tmp_unmap_run: "e < 1024 \<Longrightarrow> pg_tmp_unmap (win e) s = Done () (s\<lparr>TmpPageTbl := (TmpPageTbl s)[e := 0]\<rparr>)"
  by (simp add: pg_tmp_unmap_def tlb_invlpg_def NilPgEnt_def)

lemma slot_released: "tbl ! e = 0 \<Longrightarrow> tbl[e := 0] = tbl"
  by (metis list_update_id)

lemma slots_released: "tbl ! e = 0 \<Longrightarrow> tbl ! d = 0 \<Longrightarrow> tbl[e := v, d := 0, e := 0] = tbl"
  by (metis list_update_id list_update_overwrite list_update_swap)

lemma tmp_tbl_id [simp]: "s\<lparr>TmpPageTbl := TmpPageTbl s\<rparr> = s" "s\<lparr>mem := m, TmpPageTbl := TmpPageTbl s\<rparr> = s\<lparr>mem := m\<rparr>"
    "s\<lparr>FrameBitmap := b, mem := m, TmpPageTbl := TmpPageTbl s\<rparr> = s\<lparr>FrameBitmap := b, mem := m\<rparr>"
    "s\<lparr>FrameBitmap := b, TmpPageTbl := TmpPageTbl s\<rparr> = s\<lparr>FrameBitmap := b\<rparr>"
  by (cases s, simp)+

lemmas tmp_runs = tmp_get_def tmp_put_def tmp_zero_def tmp_copy_def tmp_unmap_run

subsection \<open>New directories and tables\<close>

definition frame_left :: "'a frames_scheme \<Rightarrow> bool" where
  "frame_left s \<longleftrightarrow> (\<exists>m < frame_capacity s. m \<notin> frame_used s)"

lemma frame_claim:
  assumes "frames_wf s" "frame_left s"
  shows "\<exists>f b. frame_alloc s = Done f s \<and> frame_set f s = Done () (s\<lparr>FrameBitmap := b\<rparr>)
    \<and> page_aligned f \<and> page_of f < frame_capacity s \<and> page_of f \<notin> frame_used s
    \<and> used b = insert (page_of f) (frame_used s) \<and> length b = length (FrameBitmap s)"
proof -
  from frame_alloc_first_free [OF assms(1)] assms(2) obtain f
    where f: "frame_alloc s = Done f s" "page_aligned f" "page_of f < frame_capacity s" "page_of f \<notin> frame_used s"
    unfolding frame_left_def by (auto simp: runs_def)
  have "FrameAllocInitialized s" using assms(1) by (simp add: frames_wf_def)
  from frame_set_run [OF this f(3)] f used_set_bit [of "page_of f" "FrameBitmap s"] show ?thesis
    by (auto simp: frame_capacity_def)
qed

text \<open>\<open>fresh f b s\<close>: the frame \<open>f\<close> was free in \<open>s\<close>, and \<open>b\<close> is the bitmap with it marked.\<close>

definition fresh :: "paddr_t \<Rightarrow> u32 list \<Rightarrow> 'a frames_scheme \<Rightarrow> bool" where
  "fresh f b s \<longleftrightarrow> page_aligned f \<and> page_of f < frame_capacity s \<and> page_of f \<notin> frame_used s
    \<and> used b = insert (page_of f) (frame_used s) \<and> length b = length (FrameBitmap s)"

lemma pg_dir_new_run:
  assumes "frames_wf s" "frame_left s" "tmp_room 1 (TmpPageTbl s)"
  shows "\<exists>f b. pg_dir_new s = Done f (s\<lparr>FrameBitmap := b, mem := mem_fill (mem s) f 0 4096\<rparr>) \<and> fresh f b s"
proof -
  obtain f b where f: "frame_alloc s = Done f s" "frame_set f s = Done () (s\<lparr>FrameBitmap := b\<rparr>)"
    "page_aligned f" "fresh f b s"
    using frame_claim [OF assms(1,2)] by (auto simp: fresh_def)
  let ?s = "s\<lparr>FrameBitmap := b\<rparr>"
  obtain e where e: "e < 1024" "TmpPageTbl s ! e = 0"
    and map: "pg_tmp_map f ?s = Done (win e) (?s\<lparr>TmpPageTbl := (TmpPageTbl s)[e := PAGE_ENTRY f KERNEL_FLAGS]\<rparr>)"
    using tmp_map_ex [of 0 ?s f] assms(3) by auto
  have "length (TmpPageTbl s) = 1024" using assms(3) by (rule tmp_room_length)
  with e f map have "pg_dir_new s = Done f (s\<lparr>FrameBitmap := b, mem := mem_fill (mem s) f 0 4096\<rparr>)"
    by (simp add: pg_dir_new_def tmp_runs tmp_phys_run [where a = f] slot_released)
  with f(4) show ?thesis by blast
qed

text \<open>The entry of \<open>va\<close> in the directory, and the table it leads to.\<close>

definition dir_entry :: "bytes \<Rightarrow> pgaddr_t \<Rightarrow> vaddr_t \<Rightarrow> pgentry_t" where
  "dir_entry m pgd va = ent_get m pgd (ADDR_PDE va)"

abbreviation task_flags :: "'a procs_scheme \<Rightarrow> u32" where
  "task_flags s \<equiv> (if t_pid (cur s) = KERNEL_PID then KERNEL_FLAGS else USER_FLAGS)"

lemma pg_open_table_mapped:
  assumes "e < 1024" "TmpPageTbl s ! e = PAGE_ENTRY pgd KERNEL_FLAGS" "page_aligned pgd"
    and "dir_entry (mem s) pgd va \<noteq> 0"
  shows "pg_open_table (win e) va s = pg_tmp_map (PTE_ADDR (dir_entry (mem s) pgd va)) s"
  using assms by (simp add: pg_open_table_def tmp_runs tmp_phys_run [where a = pgd] dir_entry_def NilPgEnt_def)

lemma pg_open_table_nil:
  assumes "e < 1024" "TmpPageTbl s ! e = PAGE_ENTRY pgd KERNEL_FLAGS" "page_aligned pgd"
    and "dir_entry (mem s) pgd va = 0"
    and "frames_wf s" "frame_left s" "tmp_room 1 (TmpPageTbl s)"
    and "\<not> (page_of pgd < frame_capacity s \<and> page_of pgd \<notin> frame_used s)"
  shows "\<exists>f b. fresh f b s \<and> f \<noteq> pgd
    \<and> pg_open_table (win e) va s = pg_tmp_map f (s\<lparr>FrameBitmap := b,
         mem := ent_set (mem_fill (mem s) f 0 4096) pgd (ADDR_PDE va) (PAGE_ENTRY f (task_flags s))\<rparr>)"
proof -
  obtain f b where new: "pg_dir_new s = Done f (s\<lparr>FrameBitmap := b, mem := mem_fill (mem s) f 0 4096\<rparr>)"
    and f: "fresh f b s" using pg_dir_new_run [OF assms(5-7)] by blast
  have ne: "f \<noteq> pgd" and al: "page_aligned f" using f assms(8) by (auto simp: fresh_def)
  then have "dir_entry (mem_fill (mem s) f 0 4096) pgd va = 0"
    using assms(3,4) by (simp add: dir_entry_def ent_get_zero_frame)
  with assms(1-4) new al have "pg_open_table (win e) va s = pg_tmp_map f (s\<lparr>FrameBitmap := b,
       mem := ent_set (mem_fill (mem s) f 0 4096) pgd (ADDR_PDE va) (PAGE_ENTRY f (task_flags s))\<rparr>)"
    by (simp add: pg_open_table_def tmp_runs tmp_phys_run [where a = pgd] dir_entry_def NilPgEnt_def base_flags_def)
  with f ne show ?thesis by blast
qed

text \<open>\<^verbatim>\<open>pg_write_entry\<close> and \<^verbatim>\<open>pg_read_entry\<close> both open the directory, open the table, access
  one entry of it and release both slots of the window.\<close>

definition with_table :: "pgaddr_t \<Rightarrow> vaddr_t \<Rightarrow> (vaddr_t \<Rightarrow> ('a mmu_scheme, 'b) kern) \<Rightarrow> ('a mmu_scheme, 'b) kern" where
  "with_table pgd va access =
     kbind (pg_tmp_map pgd) (\<lambda>dir. kbind (pg_open_table dir va) (\<lambda>table. kbind (access table) (\<lambda>r.
       kthen (pg_tmp_unmap table) (kthen (pg_tmp_unmap dir) (kret r)))))"

lemma pg_read_entry_with: "pg_read_entry pgd va = with_table pgd va (\<lambda>t. tmp_get t (ADDR_PTE va))"
  by (simp add: pg_read_entry_def with_table_def)

lemma pg_write_entry_with: "pg_write_entry pgd va v = with_table pgd va (\<lambda>t. tmp_put t (ADDR_PTE va) v)"
  by (simp add: pg_write_entry_def with_table_def tlb_invlpg_def kthen_def del: kret_run) 

definition table_access :: "(vaddr_t \<Rightarrow> ('a mmu_scheme, 'b) kern) \<Rightarrow> (bytes \<Rightarrow> paddr_t \<Rightarrow> 'b) \<Rightarrow> (bytes \<Rightarrow> paddr_t \<Rightarrow> bytes) \<Rightarrow> bool" where
  "table_access access r g \<longleftrightarrow> (\<forall>u d T. d < 1024 \<longrightarrow> TmpPageTbl u ! d = PAGE_ENTRY T KERNEL_FLAGS \<longrightarrow> page_aligned T
     \<longrightarrow> access (win d) u = Done (r (mem u) T) (u\<lparr>mem := g (mem u) T\<rparr>))"

lemma second_slot:
  assumes "tmp_room 1 (tbl[e := PAGE_ENTRY pgd KERNEL_FLAGS])" "e < 1024" "tbl ! e = 0"
    and "TmpPageTbl u = tbl[e := PAGE_ENTRY pgd KERNEL_FLAGS]"
    and "table_access access r g" "page_aligned T"
  shows "kbind (pg_tmp_map T) (\<lambda>table. kbind (access table) (\<lambda>x.
       kthen (pg_tmp_unmap table) (kthen (pg_tmp_unmap (win e)) (kret x)))) u
     = Done (r (mem u) T) (u\<lparr>mem := g (mem u) T, TmpPageTbl := tbl\<rparr>)"
proof -
  have len: "length tbl = 1024" using tmp_room_length [OF assms(1)] by simp
  obtain d where d: "d < 1024" "TmpPageTbl u ! d = 0"
    "pg_tmp_map T u = Done (win d) (u\<lparr>TmpPageTbl := (TmpPageTbl u)[d := PAGE_ENTRY T KERNEL_FLAGS]\<rparr>)"
    using tmp_map_ex [of 0 u T] assms(1,4) by auto
  let ?v = "u\<lparr>TmpPageTbl := (TmpPageTbl u)[d := PAGE_ENTRY T KERNEL_FLAGS]\<rparr>"
  have "d \<noteq> e" using d(2) len assms(2,4) by auto
  then have "tbl ! d = 0" using d(2) assms(4) by simp
  have "TmpPageTbl ?v ! d = PAGE_ENTRY T KERNEL_FLAGS" using d(1) len assms(4) by simp
  then have acc: "access (win d) ?v = Done (r (mem u) T) (?v\<lparr>mem := g (mem u) T\<rparr>)"
    using assms(5,6) d(1) unfolding table_access_def by fastforce
  have "(TmpPageTbl u)[d := PAGE_ENTRY T KERNEL_FLAGS, d := 0, e := 0] = tbl"
    using \<open>d \<noteq> e\<close> \<open>tbl ! d = 0\<close> assms(3) unfolding assms(4)
    by (metis list_update_overwrite slots_released)
  then show ?thesis using d(1,3) acc assms(2) by (simp add: tmp_unmap_run)
qed

lemma table_slots:
  assumes "tmp_room 2 (TmpPageTbl s)"
  obtains e where "e < 1024" "TmpPageTbl s ! e = 0" "length (TmpPageTbl s) = 1024"
    "tmp_room 1 ((TmpPageTbl s)[e := PAGE_ENTRY pgd KERNEL_FLAGS])"
    "pg_tmp_map pgd s = Done (win e) (s\<lparr>TmpPageTbl := (TmpPageTbl s)[e := PAGE_ENTRY pgd KERNEL_FLAGS]\<rparr>)"
proof -
  have "tmp_room (Suc 1) (TmpPageTbl s)" using assms by (simp add: eval_nat_numeral)
  from tmp_map_ex [OF this, of pgd] tmp_room_length [OF assms] that show ?thesis by auto
qed

lemma kbind_cong_run: "m s = n t \<Longrightarrow> kbind m f s = kbind n f t"
  by (simp add: kbind_def)

lemma with_table_mapped:
  assumes "tmp_room 2 (TmpPageTbl s)" "page_aligned pgd" "dir_entry (mem s) pgd va \<noteq> 0" "table_access access r g"
  shows "with_table pgd va access s =
    (let T = PTE_ADDR (dir_entry (mem s) pgd va) in Done (r (mem s) T) (s\<lparr>mem := g (mem s) T\<rparr>))"
proof -
  from assms(1) obtain e where e: "e < 1024" "TmpPageTbl s ! e = 0" "length (TmpPageTbl s) = 1024"
    "tmp_room 1 ((TmpPageTbl s)[e := PAGE_ENTRY pgd KERNEL_FLAGS])"
    "pg_tmp_map pgd s = Done (win e) (s\<lparr>TmpPageTbl := (TmpPageTbl s)[e := PAGE_ENTRY pgd KERNEL_FLAGS]\<rparr>)"
    by (rule table_slots)
  let ?u = "s\<lparr>TmpPageTbl := (TmpPageTbl s)[e := PAGE_ENTRY pgd KERNEL_FLAGS]\<rparr>"
  let ?t = "PTE_ADDR (dir_entry (mem s) pgd va)"
  have "pg_open_table (win e) va ?u = pg_tmp_map ?t ?u"
    using pg_open_table_mapped [of e ?u pgd va] e assms by simp
  note open_ = kbind_cong_run [of "pg_open_table (win e) va" ?u "pg_tmp_map ?t" ?u, OF this]
  show ?thesis
    unfolding with_table_def kbind_Done [of "pg_tmp_map pgd" s, OF e(5)] open_ Let_def
    by (subst second_slot [OF e(4,1,2) _ assms(4)]) simp_all
qed

lemma with_table_nil:
  assumes "tmp_room 2 (TmpPageTbl s)" "page_aligned pgd" "dir_entry (mem s) pgd va = 0" "table_access access r g"
    and "frames_wf s" "frame_left s" "\<not> (page_of pgd < frame_capacity s \<and> page_of pgd \<notin> frame_used s)"
  shows "\<exists>f b. fresh f b s \<and> f \<noteq> pgd \<and> with_table pgd va access s =
    (let m = ent_set (mem_fill (mem s) f 0 4096) pgd (ADDR_PDE va) (PAGE_ENTRY f (task_flags s))
     in Done (r m f) (s\<lparr>FrameBitmap := b, mem := g m f\<rparr>))"
proof -
  from assms(1) obtain e where e: "e < 1024" "TmpPageTbl s ! e = 0" "length (TmpPageTbl s) = 1024"
    "tmp_room 1 ((TmpPageTbl s)[e := PAGE_ENTRY pgd KERNEL_FLAGS])"
    "pg_tmp_map pgd s = Done (win e) (s\<lparr>TmpPageTbl := (TmpPageTbl s)[e := PAGE_ENTRY pgd KERNEL_FLAGS]\<rparr>)"
    by (rule table_slots)
  let ?u = "s\<lparr>TmpPageTbl := (TmpPageTbl s)[e := PAGE_ENTRY pgd KERNEL_FLAGS]\<rparr>"
  have "frames_wf ?u" "frame_left ?u" "frame_capacity ?u = frame_capacity s"
    using assms(5,6) by (simp_all add: frames_wf_def frame_left_def frame_capacity_def)
  then obtain f b where fb: "fresh f b s" "f \<noteq> pgd"
    and open_: "pg_open_table (win e) va ?u = pg_tmp_map f (?u\<lparr>FrameBitmap := b,
         mem := ent_set (mem_fill (mem s) f 0 4096) pgd (ADDR_PDE va) (PAGE_ENTRY f (task_flags s))\<rparr>)"
    using pg_open_table_nil [of e ?u pgd va] e assms by (auto simp: fresh_def)
  let ?w = "?u\<lparr>FrameBitmap := b,
         mem := ent_set (mem_fill (mem s) f 0 4096) pgd (ADDR_PDE va) (PAGE_ENTRY f (task_flags s))\<rparr>"
  have "page_aligned f" using fb by (simp add: fresh_def)
  then have "with_table pgd va access s = Done (r (mem ?w) f) (s\<lparr>FrameBitmap := b, mem := g (mem ?w) f\<rparr>)"
    unfolding with_table_def kbind_Done [of "pg_tmp_map pgd" s, OF e(5)] kbind_cong_run [of "pg_open_table (win e) va" ?u "pg_tmp_map f" ?w, OF open_]
    by (subst second_slot [OF e(4,1,2) _ assms(4)]) simp_all
  with fb show ?thesis by (auto simp: Let_def)
qed

end
