(* ===== verification/Paging.thy ===== *)
theory Paging
  imports Mmu
begin

text \<open>
  What the paging code does to an address space as the processor sees it: mapping and unmapping a
  page, allocating a range, asking whether a page is mapped, the page fault handler's three
  outcomes. All of it rests on one description of what storing a page entry does to memory.
\<close>

subsection \<open>Well-formed address spaces\<close>

definition spare :: "'a frames_scheme \<Rightarrow> paddr_t \<Rightarrow> bool" where
  "spare s f \<longleftrightarrow> page_of f < frame_capacity s \<and> page_of f \<notin> frame_used s"

definition is_table :: "pgentry_t \<Rightarrow> bool" where
  "is_table e \<longleftrightarrow> e \<noteq> 0 \<and> e AND PAGE_EXTENDED = 0"

text \<open>The directory and its tables are distinct frames that the allocator will not hand out, and
  tables are present.\<close>

definition vm_wf :: "'a mmu_scheme \<Rightarrow> pgaddr_t \<Rightarrow> bool" where
  "vm_wf s pgd \<longleftrightarrow> frames_wf s \<and> tmp_room 6 (TmpPageTbl s) \<and> page_aligned pgd \<and> \<not> spare s pgd
     \<and> (\<forall>i < 1024. is_table (ent_get (mem s) pgd i) \<longrightarrow>
          ent_get (mem s) pgd i AND PAGE_PRESENT \<noteq> 0 \<and> PTE_ADDR (ent_get (mem s) pgd i) \<noteq> pgd
          \<and> \<not> spare s (PTE_ADDR (ent_get (mem s) pgd i)))
     \<and> (\<forall>i < 1024. \<forall>j < 1024. is_table (ent_get (mem s) pgd i) \<and> is_table (ent_get (mem s) pgd j)
          \<and> PTE_ADDR (ent_get (mem s) pgd i) = PTE_ADDR (ent_get (mem s) pgd j) \<longrightarrow> i = j)"

text \<open>The effect of opening the table of \<open>va\<close> and storing \<open>v\<close> there: one directory entry may
  have become a table, one entry of that table is \<open>v\<close>, and no other frame has changed.\<close>

definition entry_stored :: "bytes \<Rightarrow> bytes \<Rightarrow> pgaddr_t \<Rightarrow> vaddr_t \<Rightarrow> (pgentry_t \<Rightarrow> pgentry_t) \<Rightarrow> paddr_t \<Rightarrow> bool" where
  "entry_stored m m' pgd va v T \<longleftrightarrow>
     is_table (dir_entry m' pgd va) \<and> PTE_ADDR (dir_entry m' pgd va) = T \<and> T \<noteq> pgd
     \<and> dir_entry m' pgd va AND PAGE_PRESENT \<noteq> 0
     \<and> (dir_entry m pgd va \<noteq> 0 \<longrightarrow> dir_entry m' pgd va = dir_entry m pgd va)
     \<and> (\<forall>i < 1024. i \<noteq> ADDR_PDE va \<longrightarrow> ent_get m' pgd i = ent_get m pgd i)
     \<and> (\<forall>j < 1024. ent_get m' T j =
          (let old = (if dir_entry m pgd va = 0 then 0 else ent_get m T j)
           in if j = ADDR_PTE va then v old else old))
     \<and> (\<forall>q. page_aligned q \<longrightarrow> q \<noteq> pgd \<longrightarrow> q \<noteq> T \<longrightarrow> (\<forall>j < 1024. ent_get m' q j = ent_get m q j))"

lemma task_flags_table:
  assumes "page_aligned f"
  shows "is_table (PAGE_ENTRY f (task_flags s))" "PTE_ADDR (PAGE_ENTRY f (task_flags s)) = f"
    "PAGE_ENTRY f (task_flags s) AND PAGE_PRESENT \<noteq> 0"
  using assms by (simp_all add: is_table_def aligned_flag flags_present)

lemma stored_mapped:
  assumes "page_aligned pgd" "is_table (dir_entry m pgd va)" "PTE_ADDR (dir_entry m pgd va) \<noteq> pgd"
    and "dir_entry m pgd va AND PAGE_PRESENT \<noteq> 0"
  shows "entry_stored m (ent_set m (PTE_ADDR (dir_entry m pgd va)) (ADDR_PTE va) v) pgd va (\<lambda>_. v) (PTE_ADDR (dir_entry m pgd va))"
  using assms by (auto simp: entry_stored_def ent_get_set dir_entry_def is_table_def)

lemma stored_nil:
  assumes "page_aligned pgd" "dir_entry m pgd va = 0" "page_aligned f" "f \<noteq> pgd"
    and "is_table e" "PTE_ADDR e = f" "e AND PAGE_PRESENT \<noteq> 0"
  shows "entry_stored m (ent_set (ent_set (mem_fill m f 0 4096) pgd (ADDR_PDE va) e) f (ADDR_PTE va) v) pgd va (\<lambda>_. v) f"
  using assms by (auto simp: entry_stored_def ent_get_set ent_get_zero_frame dir_entry_def Let_def)

text \<open>Nothing but memory and the frame bitmap differs.\<close>

definition same_rest :: "'a mmu_scheme \<Rightarrow> 'a mmu_scheme \<Rightarrow> bool" where
  "same_rest s t \<longleftrightarrow> t = s\<lparr>FrameBitmap := FrameBitmap t, mem := mem t\<rparr>"

lemma same_rest_upd [simp]: "same_rest s (s\<lparr>FrameBitmap := b, mem := m\<rparr>)" "same_rest s (s\<lparr>mem := m\<rparr>)"
    "same_rest s (s\<lparr>FrameBitmap := b\<rparr>)"
  by (simp_all add: same_rest_def)

text \<open>A new table's frame was taken from the allocator, and nothing else of the state changed.\<close>

definition took :: "'a mmu_scheme \<Rightarrow> 'a mmu_scheme \<Rightarrow> pgaddr_t \<Rightarrow> vaddr_t \<Rightarrow> paddr_t \<Rightarrow> bool" where
  "took s t pgd va T \<longleftrightarrow> same_rest s t
     \<and> length (FrameBitmap t) = length (FrameBitmap s)
     \<and> (if dir_entry (mem s) pgd va = 0 then spare s T \<and> frame_used t = insert (page_of T) (frame_used s)
        else \<not> spare s T \<and> frame_used t = frame_used s)"

lemma table_accesses:
  "table_access (\<lambda>t. tmp_get t j) (\<lambda>m T. ent_get m T j) (\<lambda>m T. m)"
  "table_access (\<lambda>t. tmp_put t j v) (\<lambda>m T. ()) (\<lambda>m T. ent_set m T j v)"
  by (auto simp: table_access_def tmp_runs tmp_phys_run)

lemma pg_write_entry_runs:
  assumes "vm_wf s pgd" "frame_left s" "dir_entry (mem s) pgd va AND PAGE_EXTENDED = 0"
  shows "runs (pg_write_entry pgd va v) s (\<lambda>_ t. \<exists>T. took s t pgd va T
     \<and> entry_stored (mem s) (mem t) pgd va (\<lambda>_. v) T)"
proof (cases "dir_entry (mem s) pgd va = 0")
  case True
  have wf: "tmp_room 2 (TmpPageTbl s)" "page_aligned pgd" "frames_wf s" "\<not> spare s pgd"
    using assms(1) by (auto simp: vm_wf_def intro: tmp_room_mono)
  from with_table_nil [OF wf(1,2) True table_accesses(2) [of "ADDR_PTE va" v] wf(3) assms(2)] wf(4) obtain f b
    where fb: "fresh f b s" "f \<noteq> pgd" and run: "pg_write_entry pgd va v s = Done () (s\<lparr>FrameBitmap := b,
       mem := ent_set (ent_set (mem_fill (mem s) f 0 4096) pgd (ADDR_PDE va) (PAGE_ENTRY f (task_flags s))) f (ADDR_PTE va) v\<rparr>)"
    unfolding pg_write_entry_with by (auto simp: spare_def Let_def)
  have "page_aligned f" using fb by (simp add: fresh_def)
  note st = stored_nil [OF wf(2) True this fb(2) task_flags_table [OF this, of s], of v]
  show ?thesis
    by (rule runsI, rule run, intro exI [of _ f]) (use fb st in \<open>auto simp: True took_def fresh_def spare_def frame_capacity_def\<close>)
next
  case False
  have wf: "tmp_room 2 (TmpPageTbl s)" "page_aligned pgd"
    using assms(1) by (auto simp: vm_wf_def intro: tmp_room_mono)
  have tbl: "is_table (dir_entry (mem s) pgd va)" using False assms(3) by (simp add: is_table_def)
  then have T: "PTE_ADDR (dir_entry (mem s) pgd va) \<noteq> pgd" "dir_entry (mem s) pgd va AND PAGE_PRESENT \<noteq> 0"
    "\<not> spare s (PTE_ADDR (dir_entry (mem s) pgd va))"
    using assms(1) unfolding vm_wf_def dir_entry_def by auto
  have run: "pg_write_entry pgd va v s = Done () (s\<lparr>mem := ent_set (mem s) (PTE_ADDR (dir_entry (mem s) pgd va)) (ADDR_PTE va) v\<rparr>)"
    unfolding pg_write_entry_with with_table_mapped [OF wf False table_accesses(2) [of "ADDR_PTE va" v]] by (simp add: Let_def)
  show ?thesis
    by (rule runsI, rule run, intro exI [of _ "PTE_ADDR (dir_entry (mem s) pgd va)"])
      (use stored_mapped [OF wf(2) tbl T(1,2)] T(3) in \<open>simp add: False took_def spare_def frame_capacity_def\<close>)
qed


definition entry_addr :: "pgentry_t \<Rightarrow> vaddr_t \<Rightarrow> paddr_t option" where
  "entry_addr e va = (if e AND PAGE_PRESENT = 0 then None else Some (PTE_ADDR e + (va AND 0xFFF)))"

definition same_page :: "vaddr_t \<Rightarrow> vaddr_t \<Rightarrow> bool" where
  "same_page u va \<longleftrightarrow> ADDR_PDE u = ADDR_PDE va \<and> ADDR_PTE u = ADDR_PTE va"

lemma translate_table:
  "is_table (dir_entry m pgd u) \<Longrightarrow> dir_entry m pgd u AND PAGE_PRESENT \<noteq> 0 \<Longrightarrow>
     translate m pgd u = entry_addr (ent_get m (PTE_ADDR (dir_entry m pgd u)) (ADDR_PTE u)) u"
  by (simp add: translate_def dir_entry_def Let_def is_table_def entry_addr_def)

lemma translate_no_table:
  "\<not> is_table (dir_entry m pgd u) \<Longrightarrow> dir_entry m' pgd u = dir_entry m pgd u \<Longrightarrow> translate m' pgd u = translate m pgd u"
  by (auto simp: translate_def dir_entry_def Let_def is_table_def)

text \<open>Every other table of the directory is a frame of its own.\<close>

lemma other_tables:
  assumes "vm_wf s pgd" "took s t pgd va T" "entry_stored (mem s) (mem t) pgd va v T"
    and "i < 1024" "i \<noteq> ADDR_PDE va" "is_table (ent_get (mem s) pgd i)"
  shows "PTE_ADDR (ent_get (mem s) pgd i) \<noteq> T" "PTE_ADDR (ent_get (mem s) pgd i) \<noteq> pgd"
proof -
  show "PTE_ADDR (ent_get (mem s) pgd i) \<noteq> pgd" using assms(1,4,6) by (auto simp: vm_wf_def)
  have i: "\<not> spare s (PTE_ADDR (ent_get (mem s) pgd i))" using assms(1,4,6) by (auto simp: vm_wf_def)
  show "PTE_ADDR (ent_get (mem s) pgd i) \<noteq> T"
  proof (cases "dir_entry (mem s) pgd va = 0")
    case True
    with i assms(2) show ?thesis by (auto simp: took_def)
  next
    case False
    then have "is_table (dir_entry (mem s) pgd va)" "PTE_ADDR (dir_entry (mem s) pgd va) = T"
      using assms(3) by (auto simp: entry_stored_def)
    with assms(1,4-6) ADDR_PDE_less show ?thesis unfolding vm_wf_def dir_entry_def by metis
  qed
qed

lemma stored_translate:
  assumes "vm_wf s pgd" "took s t pgd va T" "entry_stored (mem s) (mem t) pgd va (\<lambda>_. v) T"
    and "dir_entry (mem s) pgd va AND PAGE_EXTENDED = 0"
  shows "translate (mem t) pgd u = (if same_page u va then entry_addr v u else translate (mem s) pgd u)"
proof (cases "ADDR_PDE u = ADDR_PDE va")
  case True
  then have same: "dir_entry (mem t) pgd u = dir_entry (mem t) pgd va" "dir_entry (mem s) pgd u = dir_entry (mem s) pgd va"
    by (simp_all add: dir_entry_def)
  have new: "translate (mem t) pgd u = entry_addr (ent_get (mem t) T (ADDR_PTE u)) u"
    using translate_table [of "mem t" pgd u] assms(3) same by (simp add: entry_stored_def)
  show ?thesis
  proof (cases "dir_entry (mem s) pgd va = 0")
    case nil: True
    then have "translate (mem s) pgd u = None" using same by (simp add: translate_def dir_entry_def)
    then show ?thesis using new assms(3) True nil by (simp add: entry_stored_def same_page_def entry_addr_def)
  next
    case False
    then have "is_table (dir_entry (mem s) pgd u)" "dir_entry (mem s) pgd u AND PAGE_PRESENT \<noteq> 0"
      "PTE_ADDR (dir_entry (mem s) pgd u) = T" using assms(3) same by (auto simp: entry_stored_def)
    from translate_table [OF this(1,2)] this(3) show ?thesis
      using new assms(3) True False by (simp add: entry_stored_def same_page_def)
  qed
next
  case False
  then have dir: "dir_entry (mem t) pgd u = dir_entry (mem s) pgd u"
    using assms(3) by (simp add: entry_stored_def dir_entry_def)
  show ?thesis
  proof (cases "is_table (dir_entry (mem s) pgd u)")
    case True
    let ?U = "PTE_ADDR (dir_entry (mem s) pgd u)"
    have "?U \<noteq> T" "?U \<noteq> pgd" using other_tables [OF assms(1-3) _ False] True by (simp_all add: dir_entry_def)
    then have "ent_get (mem t) ?U (ADDR_PTE u) = ent_get (mem s) ?U (ADDR_PTE u)"
      using assms(3) by (simp add: entry_stored_def)
    then show ?thesis using dir False by (simp add: translate_def dir_entry_def same_page_def Let_def)
  next
    case nt: False
    from translate_no_table [OF this dir] False show ?thesis by (simp add: same_page_def)
  qed
qed

lemma same_rest_fields:
  assumes "same_rest s t"
  shows "TmpPageTbl t = TmpPageTbl s" "FrameAllocInitialized t = FrameAllocInitialized s"
    "FrameCount t = FrameCount s" "tasks t = tasks s" "CurrentTask t = CurrentTask s" "UserTask t = UserTask s"
    "cr3 t = cr3 s" "syms t = syms s" "MMUReady t = MMUReady s" "mmu.more t = mmu.more s"
proof -
  have eq: "t = s\<lparr>FrameBitmap := FrameBitmap t, mem := mem t\<rparr>" using assms by (simp add: same_rest_def)
  show "TmpPageTbl t = TmpPageTbl s" by (subst eq) simp
  show "FrameAllocInitialized t = FrameAllocInitialized s" by (subst eq) simp
  show "FrameCount t = FrameCount s" by (subst eq) simp
  show "tasks t = tasks s" by (subst eq) simp
  show "CurrentTask t = CurrentTask s" by (subst eq) simp
  show "UserTask t = UserTask s" by (subst eq) simp
  show "cr3 t = cr3 s" by (subst eq) simp
  show "syms t = syms s" by (subst eq) simp
  show "MMUReady t = MMUReady s" by (subst eq) simp
  show "mmu.more t = mmu.more s" by (subst eq) simp
qed

lemma same_rest_trans: "same_rest s t \<Longrightarrow> same_rest t w \<Longrightarrow> same_rest s w"
proof -
  have "(s\<lparr>FrameBitmap := a, mem := b\<rparr>)\<lparr>FrameBitmap := c, mem := d\<rparr> = s\<lparr>FrameBitmap := c, mem := d\<rparr>" for a b c d
    by simp
  moreover assume "same_rest s t" "same_rest t w"
  ultimately show "same_rest s w" unfolding same_rest_def by metis
qed

lemma took_fields: "took s t pgd va T \<Longrightarrow> same_rest s t"
  by (simp add: took_def)

lemma took_frames:
  assumes "took s t pgd va T" "frames_wf s"
  shows "frames_wf t" "frame_capacity t = frame_capacity s" "spare t f \<Longrightarrow> spare s f" "\<not> spare t T"
    "frame_used s \<subseteq> frame_used t"
  using assms same_rest_fields [OF took_fields [OF assms(1)]]
  by (auto simp: took_def frames_wf_def frame_capacity_def spare_def split: if_splits)

lemma stored_vm_wf:
  assumes "vm_wf s pgd" "took s t pgd va T" "entry_stored (mem s) (mem t) pgd va v T"
  shows "vm_wf t pgd"
proof -
  let ?e = "\<lambda>i. ent_get (mem s) pgd i" and ?e' = "\<lambda>i. ent_get (mem t) pgd i" and ?p = "ADDR_PDE va"
  have wf: "frames_wf s" "tmp_room 6 (TmpPageTbl s)" "page_aligned pgd" "\<not> spare s pgd"
    using assms(1) by (simp_all add: vm_wf_def)
  note fr = took_frames [OF assms(2) wf(1)]
  have new: "is_table (?e' ?p)" "PTE_ADDR (?e' ?p) = T" "T \<noteq> pgd" "?e' ?p AND PAGE_PRESENT \<noteq> 0"
    and old: "\<And>i. i < 1024 \<Longrightarrow> i \<noteq> ?p \<Longrightarrow> ?e' i = ?e i"
    using assms(3) by (auto simp: entry_stored_def dir_entry_def)
  have each: "?e' i AND PAGE_PRESENT \<noteq> 0 \<and> PTE_ADDR (?e' i) \<noteq> pgd \<and> \<not> spare t (PTE_ADDR (?e' i))"
    if "i < 1024" "is_table (?e' i)" for i
    using that assms(1) new old [of i] fr(3,4) by (cases "i = ?p") (auto simp: vm_wf_def)
  have ne: "PTE_ADDR (?e i) \<noteq> T" if "i < 1024" "i \<noteq> ?p" "is_table (?e i)" for i
    using other_tables(1) [OF assms that] .
  have inj: "i = j" if ij: "i < 1024" "j < 1024" "is_table (?e' i)" "is_table (?e' j)"
    "PTE_ADDR (?e' i) = PTE_ADDR (?e' j)" for i j
  proof (cases "i = ?p \<or> j = ?p")
    case True
    with ij new(2) old [of i] old [of j] ne [of i] ne [of j] show ?thesis by metis
  next
    case False
    with ij old [of i] old [of j] assms(1) show ?thesis unfolding vm_wf_def by metis
  qed
  show ?thesis unfolding vm_wf_def
    using wf fr same_rest_fields(1) [OF took_fields [OF assms(2)]] each inj by auto
qed

subsection \<open>Pages of the address space\<close>

lemma unat_PGADDR: "unat (PGADDR a) = 4096 * (unat a div 4096)"
proof -
  have "unat (a mod 0x1000) \<le> unat a" by (simp add: unat_mod)
  then have "unat (a - a mod 0x1000) = unat a - unat a mod 4096"
    by (simp add: unat_sub word_le_nat_alt unat_mod)
  then show ?thesis by (simp add: PGADDR_def PAGE_SIZE_def minus_mod_eq_mult_div)
qed

lemma PGADDR_entry [simp]: "ADDR_PDE (PGADDR a) = ADDR_PDE a" "ADDR_PTE (PGADDR a) = ADDR_PTE a"
proof -
  have "4096 * (unat a div 4096) div 4194304 = unat a div 4194304"
    using div_mult2_eq [of "4096 * (unat a div 4096)" 4096 1024] div_mult2_eq [of "unat a" 4096 1024] by simp
  then show "ADDR_PDE (PGADDR a) = ADDR_PDE a" by (simp add: ADDR_PDE_unat unat_PGADDR)
  show "ADDR_PTE (PGADDR a) = ADDR_PTE a" by (simp add: ADDR_PTE_unat unat_PGADDR)
qed

lemma same_page_iff: "same_page u v \<longleftrightarrow> PGADDR u = PGADDR v"
proof
  assume "same_page u v"
  then have "unat u div 4096 div 1024 = unat v div 4096 div 1024" "unat u div 4096 mod 1024 = unat v div 4096 mod 1024"
    using div_mult2_eq [of "unat u" 4096 1024] div_mult2_eq [of "unat v" 4096 1024]
    by (simp_all add: same_page_def ADDR_PDE_unat ADDR_PTE_unat)
  then have "unat u div 4096 = unat v div 4096" by (metis div_mult_mod_eq)
  then show "PGADDR u = PGADDR v" by (simp add: word_unat_eq_iff unat_PGADDR)
next
  assume "PGADDR u = PGADDR v"
  then show "same_page u v" unfolding same_page_def by (metis PGADDR_entry)
qed

lemma dir_entry_PGADDR [simp]: "dir_entry m pgd (PGADDR va) = dir_entry m pgd va"
  by (simp add: dir_entry_def)

lemma PGADDR_aligned: "page_aligned (PGADDR a)"
  by (simp add: page_aligned_unat unat_PGADDR)

lemma page_offset: "\<exists>n < 4096. a - PGADDR a = of_nat n" "PGADDR a + (a - PGADDR a) = a"
proof -
  have "unat (a mod PAGE_SIZE) < 4096" by (simp add: unat_mod PAGE_SIZE_def)
  moreover have "a - PGADDR a = of_nat (unat (a mod PAGE_SIZE))" by (simp add: PGADDR_def)
  ultimately show "\<exists>n < 4096. a - PGADDR a = of_nat n" by blast
qed simp

text \<open>One chunk: the window shows the page of the source, and the chunk stays within it.\<close>

text \<open>A frame whose entries are the same has the same bytes.\<close>

lemma frame_bytes_eq:
  assumes "\<forall>j < 1024. ent_get m' (PGADDR x) j = ent_get m (PGADDR x) j"
  shows "m' x = m x"
proof -
  define n where "n = unat (x - PGADDR x)"
  have n: "n < 4096" "x = PGADDR x + of_nat n"
    using page_offset [of x] by (auto simp: n_def unat_of_nat)
  define j where "j = n div 4"
  have "j < 1024" using n(1) by (simp add: j_def)
  then have eq: "get32 m' (PGADDR x + of_nat (4 * j)) = get32 m (PGADDR x + of_nat (4 * j))"
    using assms by (simp add: ent_get_def)
  have "n = 4 * j \<or> n = 4 * j + 1 \<or> n = 4 * j + 2 \<or> n = 4 * j + 3" unfolding j_def by presburger
  then have "x = PGADDR x + of_nat (4 * j) \<or> x = PGADDR x + of_nat (4 * j) + 1 \<or> x = PGADDR x + of_nat (4 * j) + 2
      \<or> x = PGADDR x + of_nat (4 * j) + 3"
    using n(2) by (auto simp: ac_simps)
  with get32_eq_bytes [OF eq] show ?thesis by metis
qed

text \<open>The frames of the directory and its tables; what else is in use keeps its bytes when an entry is stored.\<close>

definition table_frames :: "bytes \<Rightarrow> pgaddr_t \<Rightarrow> paddr_t set" where
  "table_frames m pgd = insert pgd {PTE_ADDR (ent_get m pgd i) | i. i < 1024 \<and> is_table (ent_get m pgd i)}"

definition frames_kept :: "'a mmu_scheme \<Rightarrow> 'a mmu_scheme \<Rightarrow> pgaddr_t \<Rightarrow> bool" where
  "frames_kept s t pgd \<longleftrightarrow> (\<forall>x. \<not> spare s x \<and> PGADDR x \<notin> table_frames (mem s) pgd \<longrightarrow>
     mem t x = mem s x \<and> \<not> spare t x \<and> PGADDR x \<notin> table_frames (mem t) pgd)"

lemma table_not_spare: "vm_wf s pgd \<Longrightarrow> f \<in> table_frames (mem s) pgd \<Longrightarrow> \<not> spare s f"
  by (auto simp: vm_wf_def table_frames_def)

lemma page_of_PGADDR [simp]: "page_of (PGADDR x) = page_of x"
  by (simp add: page_of_def unat_PGADDR)

lemma spare_PGADDR [simp]: "spare s (PGADDR x) = spare s x"
  by (simp add: spare_def)

lemma PGADDR_idem [simp]: "page_aligned f \<Longrightarrow> PGADDR f = f"
  by (simp add: PGADDR_def page_aligned_def)

lemma stored_kept:
  assumes "vm_wf s pgd" "took s t pgd va T" "entry_stored (mem s) (mem t) pgd va v T"
  shows "frames_kept s t pgd"
  unfolding frames_kept_def
proof (intro allI impI)
  fix x assume x: "\<not> spare s x \<and> PGADDR x \<notin> table_frames (mem s) pgd"
  have wf: "frames_wf s" using assms(1) by (simp add: vm_wf_def)
  have "PGADDR x \<noteq> T"
  proof (cases "dir_entry (mem s) pgd va = 0")
    case True
    then have "spare s T" using assms(2) by (simp add: took_def)
    with x show ?thesis by (metis spare_PGADDR)
  next
    case False
    then have "is_table (dir_entry (mem s) pgd va)" "PTE_ADDR (dir_entry (mem s) pgd va) = T"
      using assms(3) by (auto simp: entry_stored_def)
    then have "T \<in> table_frames (mem s) pgd" unfolding table_frames_def dir_entry_def by auto
    with x show ?thesis by blast
  qed
  moreover have "table_frames (mem t) pgd \<subseteq> insert T (table_frames (mem s) pgd)"
  proof
    fix f assume "f \<in> table_frames (mem t) pgd"
    then consider "f = pgd" | i where "i < 1024" "is_table (ent_get (mem t) pgd i)" "f = PTE_ADDR (ent_get (mem t) pgd i)"
      by (auto simp: table_frames_def)
    then show "f \<in> insert T (table_frames (mem s) pgd)"
    proof cases
      case 1
      then show ?thesis by (simp add: table_frames_def)
    next
      case (2 i)
      with assms(3) show ?thesis
        by (cases "i = ADDR_PDE va") (auto simp: entry_stored_def dir_entry_def table_frames_def)
    qed
  qed
  moreover have "PGADDR x \<noteq> pgd" using x by (auto simp: table_frames_def)
  ultimately show "mem t x = mem s x \<and> \<not> spare t x \<and> PGADDR x \<notin> table_frames (mem t) pgd"
    using x frame_bytes_eq [of "mem t" x "mem s"] assms(3) took_frames(3) [OF assms(2) wf, of x] PGADDR_aligned [of x]
    by (auto simp: entry_stored_def)
qed

definition page_entry :: "bytes \<Rightarrow> pgaddr_t \<Rightarrow> vaddr_t \<Rightarrow> pgentry_t" where
  "page_entry m pgd va = ent_get m (PTE_ADDR (dir_entry m pgd va)) (ADDR_PTE va)"

text \<open>The state \<open>t\<close> differs from \<open>s\<close> in the page of \<open>va\<close> only, whose entry is now \<open>e\<close>.\<close>

definition remapped :: "'a mmu_scheme \<Rightarrow> 'a mmu_scheme \<Rightarrow> pgaddr_t \<Rightarrow> vaddr_t \<Rightarrow> pgentry_t \<Rightarrow> bool" where
  "remapped s t pgd va e \<longleftrightarrow> vm_wf t pgd \<and> same_rest s t
     \<and> TmpPageTbl t = TmpPageTbl s \<and> tasks t = tasks s \<and> CurrentTask t = CurrentTask s
     \<and> frame_capacity t = frame_capacity s \<and> frame_used s \<subseteq> frame_used t
     \<and> (\<exists>T. frame_used t \<subseteq> insert T (frame_used s)) \<and> UserTask t = UserTask s \<and> frames_kept s t pgd
     \<and> is_table (dir_entry (mem t) pgd va) \<and> page_entry (mem t) pgd va = e
     \<and> (\<forall>u. translate (mem t) pgd u = (if PGADDR u = PGADDR va then entry_addr e u else translate (mem s) pgd u))
     \<and> (\<forall>u. dir_entry (mem s) pgd u AND PAGE_EXTENDED = 0 \<longrightarrow> dir_entry (mem t) pgd u AND PAGE_EXTENDED = 0)"

lemma stored_ext:
  assumes "entry_stored m m' pgd va v T" "dir_entry m pgd u AND PAGE_EXTENDED = 0"
  shows "dir_entry m' pgd u AND PAGE_EXTENDED = 0"
  using assms by (cases "ADDR_PDE u = ADDR_PDE va") (auto simp: entry_stored_def dir_entry_def is_table_def)

lemma stored_entry:
  assumes "entry_stored m m' pgd (PGADDR va) (\<lambda>_. e) T"
  shows "is_table (dir_entry m' pgd va) \<and> page_entry m' pgd va = e"
  using assms by (simp add: entry_stored_def page_entry_def)

lemma pg_write_entry_remaps:
  assumes "vm_wf s pgd" "frame_left s" "dir_entry (mem s) pgd va AND PAGE_EXTENDED = 0"
  shows "runs (pg_write_entry pgd (PGADDR va) e) s (\<lambda>_ t. remapped s t pgd va e)"
proof (rule runs_weaken [OF pg_write_entry_runs], rule assms(1), rule assms(2))
  show "dir_entry (mem s) pgd (PGADDR va) AND PAGE_EXTENDED = 0" using assms(3) by simp
  fix t
  assume "\<exists>T. took s t pgd (PGADDR va) T \<and> entry_stored (mem s) (mem t) pgd (PGADDR va) (\<lambda>_. e) T"
  then obtain T where T: "took s t pgd (PGADDR va) T" "entry_stored (mem s) (mem t) pgd (PGADDR va) (\<lambda>_. e) T"
    by blast
  have "frames_wf s" using assms(1) by (simp add: vm_wf_def)
  note fr = took_frames [OF T(1) this]
  have "frame_used t \<subseteq> insert (page_of T) (frame_used s)"
    using T(1) by (auto simp: took_def split: if_splits)
  then show "remapped s t pgd va e" unfolding remapped_def
    using stored_vm_wf [OF assms(1) T] stored_translate [OF assms(1) T] assms(3) took_fields [OF T(1)] same_rest_fields [OF took_fields [OF T(1)]] fr
      stored_ext [OF T(2)] stored_entry [OF T(2)] stored_kept [OF assms(1) T]
    by (auto simp: same_page_iff [symmetric] same_page_def)
qed

lemma entry_addr_present [simp]:
  "page_aligned p \<Longrightarrow> entry_addr (PAGE_ENTRY p KERNEL_FLAGS) u = Some (p + (u AND 0xFFF))"
  "page_aligned p \<Longrightarrow> entry_addr (PAGE_ENTRY p USER_FLAGS) u = Some (p + (u AND 0xFFF))"
  by (simp_all add: entry_addr_def aligned_flag flags_present)

lemma pg_map_remaps:
  assumes "vm_wf s (t_pgd (cur s))" "frame_left s" "dir_entry (mem s) (t_pgd (cur s)) va AND PAGE_EXTENDED = 0"
  shows "runs (pg_map p va) s (\<lambda>_ t. remapped s t (t_pgd (cur s)) va (PAGE_ENTRY p (task_flags s)))"
  unfolding pg_map_def pg_map_ext_def base_flags_def
  by (intro wp runs_weaken [OF pg_write_entry_remaps [OF assms]])

subsection \<open>A concrete address space\<close>

definition demo_mmu :: mmu where
  "demo_mmu = procs.extend demo_procs \<lparr>TmpPageTbl = replicate 1024 0, MMUReady = True\<rparr>"

lemma demo_mmu_simps [simp]:
  "CurrentTask demo_mmu = 0x9000" "tasks demo_mmu 0x9000 = demo_child" "mem demo_mmu = (\<lambda>_. 0)"
  "FrameBitmap demo_mmu = [7, 0]" "frames_wf demo_mmu" "frame_capacity demo_mmu = 64"
  "TmpPageTbl demo_mmu = replicate 1024 0" "UserTask demo_mmu = 0" "t_pgd demo_child = 0x300000"
  by (simp_all add: demo_mmu_def procs.defs demo_procs_def frames.defs demo_frames_def intr.defs
      demo_intr_def machine.defs demo_machine_def frames_wf_def frame_capacity_def demo_child_def)

lemma zero_mem_entry [simp]: "ent_get (\<lambda>_. 0) p i = 0" "dir_entry (\<lambda>_. 0) p va = 0"
  by (simp_all add: ent_get_def get32_def dir_entry_def)

lemma demo_room [simp]: "n \<le> 1024 \<Longrightarrow> tmp_room n (replicate 1024 0)"
proof -
  have "{i. i < 1024 \<and> replicate 1024 (0 :: u32) ! i = 0} = {..<1024}" by auto
  then show "n \<le> 1024 \<Longrightarrow> ?thesis" by (simp add: tmp_room_def)
qed

lemma demo_mmu_wf [simp]: "vm_wf demo_mmu 0x300000" "frame_left demo_mmu"
proof -
  have "page_aligned 0x300000" by (simp add: page_aligned_def PAGE_SIZE_def)
  then show "vm_wf demo_mmu 0x300000"
    by (simp add: vm_wf_def is_table_def spare_def page_of_def)
  have "(3 :: nat) \<notin> used [7, 0]" by (simp add: demo_frames_used)
  then show "frame_left demo_mmu" by (auto simp: frame_left_def intro!: exI [of _ 3])
qed

text \<open>C1: mapping a page of the current task's address space (one that no 4 MiB page covers) returns;
  afterwards the processor translates every address of that page to the same offset in the frame it
  was given and every other address as before, the directory is well formed and the temporary
  mapping window is as it was, whether or not a page table had to be allocated on the way.\<close>

theorem pg_map_translates:
  assumes "vm_wf s (t_pgd (cur s))" "frame_left s" "page_aligned p"
    and "dir_entry (mem s) (t_pgd (cur s)) va AND PAGE_EXTENDED = 0"
  shows "runs (pg_map p va) s (\<lambda>_ t. vm_wf t (t_pgd (cur s)) \<and> TmpPageTbl t = TmpPageTbl s
     \<and> (\<forall>u. translate (mem t) (t_pgd (cur s)) u =
          (if PGADDR u = PGADDR va then Some (p + (u AND 0xFFF)) else translate (mem s) (t_pgd (cur s)) u)))"
  by (rule runs_weaken [OF pg_map_remaps [OF assms(1,2,4)]])
    (use assms(3) in \<open>auto simp: remapped_def split: if_splits\<close>)

theorem pg_map_translates_witness:
  "runs (pg_map 0x5000 0x8004) demo_mmu (\<lambda>_ t. translate (mem t) 0x300000 0x8010 = Some 0x5010)"
  by (rule runs_weaken [OF pg_map_translates])
    (simp_all add: page_aligned_def PAGE_SIZE_def PGADDR_def)

text \<open>Unmapping a page of the current task makes the processor fault on it and leaves the
  translation of every other address alone.\<close>

theorem pg_unmap_faults:
  assumes "vm_wf s (t_pgd (cur s))" "frame_left s"
    and "dir_entry (mem s) (t_pgd (cur s)) va AND PAGE_EXTENDED = 0"
  shows "runs (pg_unmap va) s (\<lambda>_ t. vm_wf t (t_pgd (cur s)) \<and> TmpPageTbl t = TmpPageTbl s
     \<and> (\<forall>u. translate (mem t) (t_pgd (cur s)) u =
          (if PGADDR u = PGADDR va then None else translate (mem s) (t_pgd (cur s)) u)))"
  unfolding pg_unmap_def
  by (intro wp runs_weaken [OF pg_write_entry_remaps [OF assms]])
    (auto simp: remapped_def entry_addr_def NilPgEnt_def)

theorem pg_unmap_faults_witness:
  "runs (pg_unmap 0x8004) demo_mmu (\<lambda>_ t. translate (mem t) 0x300000 0x8010 = None)"
  by (rule runs_weaken [OF pg_unmap_faults]) (simp_all add: PGADDR_def PAGE_SIZE_def)

subsection \<open>Questions about a page\<close>

text \<open>One slot of the window is used and released around a read of one entry.\<close>

lemma peek_entry:
  assumes "tmp_room 1 (TmpPageTbl s)" "page_aligned p"
  shows "kbind (pg_tmp_map p) (\<lambda>d. kbind (tmp_get d i) (\<lambda>e. kthen (pg_tmp_unmap d) (k e))) s = k (ent_get (mem s) p i) s"
proof -
  obtain e where e: "e < 1024" "TmpPageTbl s ! e = 0"
    "pg_tmp_map p s = Done (win e) (s\<lparr>TmpPageTbl := (TmpPageTbl s)[e := PAGE_ENTRY p KERNEL_FLAGS]\<rparr>)"
    using tmp_map_ex [of 0 s p] assms(1) by auto
  have "length (TmpPageTbl s) = 1024" using assms(1) by (rule tmp_room_length)
  with e assms(2) show ?thesis
    by (simp add: tmp_runs tmp_phys_run [where a = p] slot_released)
qed

lemma pg_is_allocated_run:
  assumes "tmp_room 1 (TmpPageTbl s)" "page_aligned (t_pgd (cur s))"
  shows "pg_is_allocated va s = Done (translate (mem s) (t_pgd (cur s)) va \<noteq> None) s"
  unfolding pg_is_allocated_def
  using assms by (simp add: peek_entry NilPgEnt_def translate_def Let_def)

lemma pg_is_allocated_wf:
  "vm_wf s (t_pgd (cur s)) \<Longrightarrow> pg_is_allocated va s = Done (translate (mem s) (t_pgd (cur s)) va \<noteq> None) s"
  by (intro pg_is_allocated_run) (auto simp: vm_wf_def intro: tmp_room_mono)

lemma pg_is_reserved_run:
  assumes "tmp_room 1 (TmpPageTbl s)" "page_aligned (t_pgd (cur s))"
  shows "pg_is_reserved va s = Done
     (let e = dir_entry (mem s) (t_pgd (cur s)) va in
      e \<noteq> 0 \<and> (if e AND PAGE_EXTENDED \<noteq> 0 then e AND PAGE_RESERVED \<noteq> 0
               else page_entry (mem s) (t_pgd (cur s)) va AND PAGE_RESERVED \<noteq> 0)) s"
  unfolding pg_is_reserved_def
  using assms by (auto simp: peek_entry NilPgEnt_def Let_def dir_entry_def page_entry_def)

text \<open>\<^verbatim>\<open>pg_is_allocated\<close> answers exactly whether the processor can translate the address in the
  current task's directory, 4 MiB pages included, and changes nothing.\<close>

theorem pg_is_allocated_correct:
  assumes "vm_wf s (t_pgd (cur s))"
  shows "pg_is_allocated va s = Done (translate (mem s) (t_pgd (cur s)) va \<noteq> None) s"
  by (rule pg_is_allocated_wf [OF assms])

theorem pg_is_allocated_correct_witness:
  "pg_is_allocated 0x8000 demo_mmu = Done False demo_mmu"
  using pg_is_allocated_correct [of demo_mmu "0x8000"] by (simp add: translate_def)

subsection \<open>Page faults\<close>

lemma claim_keeps_vm_wf:
  assumes "vm_wf s pgd" "fresh f b s"
  shows "vm_wf (s\<lparr>FrameBitmap := b\<rparr>) pgd"
  using assms by (auto simp: vm_wf_def fresh_def frames_wf_def spare_def frame_capacity_def)

definition frames_left :: "nat \<Rightarrow> 'a frames_scheme \<Rightarrow> bool" where
  "frames_left n s \<longleftrightarrow> n \<le> card ({..<frame_capacity s} - frame_used s)"

lemma frames_left_frame_left: "frames_left (Suc n) s \<Longrightarrow> frame_left s"
proof -
  assume "frames_left (Suc n) s"
  then have "{..<frame_capacity s} - frame_used s \<noteq> {}"
    unfolding frames_left_def by (metis card.empty not_less_eq_eq le0)
  then show "frame_left s" by (auto simp: frame_left_def)
qed

lemma frames_left_grow:
  assumes "frames_left (Suc n) s" "frame_capacity t = frame_capacity s" "frame_used t \<subseteq> insert x (frame_used s)"
  shows "frames_left n t"
proof -
  have "({..<frame_capacity s} - frame_used s) - {x} \<subseteq> {..<frame_capacity t} - frame_used t" using assms by auto
  then have "card (({..<frame_capacity s} - frame_used s) - {x}) \<le> card ({..<frame_capacity t} - frame_used t)"
    by (intro card_mono) auto
  moreover have "card ({..<frame_capacity s} - frame_used s) \<le> Suc (card (({..<frame_capacity s} - frame_used s) - {x}))"
    by (cases "x \<in> {..<frame_capacity s} - frame_used s") (simp_all add: card_Diff_singleton)
  ultimately show ?thesis using assms(1) unfolding frames_left_def by linarith
qed

text \<open>The common work of \<^verbatim>\<open>pg_alloc\<close> and of the fault handler: a fresh frame mapped at a page.\<close>

definition backed :: "'a mmu_scheme \<Rightarrow> 'a mmu_scheme \<Rightarrow> pgaddr_t \<Rightarrow> vaddr_t \<Rightarrow> paddr_t \<Rightarrow> bool" where
  "backed s t pgd va f \<longleftrightarrow> same_rest s t \<and> page_aligned f \<and> spare s f \<and> page_of f \<in> frame_used t
     \<and> frame_used s \<subseteq> frame_used t \<and> (\<exists>T. frame_used t \<subseteq> {T, page_of f} \<union> frame_used s)
     \<and> frame_capacity t = frame_capacity s \<and> vm_wf t pgd \<and> frames_kept s t pgd \<and> f \<notin> table_frames (mem t) pgd
     \<and> TmpPageTbl t = TmpPageTbl s \<and> tasks t = tasks s \<and> CurrentTask t = CurrentTask s
     \<and> (\<forall>u. dir_entry (mem s) pgd u AND PAGE_EXTENDED = 0 \<longrightarrow> dir_entry (mem t) pgd u AND PAGE_EXTENDED = 0)
     \<and> (\<forall>u. translate (mem t) pgd u =
          (if PGADDR u = PGADDR va then Some (f + (u AND 0xFFF)) else translate (mem s) pgd u))"

lemma pg_alloc_remaps:
  assumes "vm_wf s (t_pgd (cur s))" "frames_left 2 s" "dir_entry (mem s) (t_pgd (cur s)) va AND PAGE_EXTENDED = 0"
  shows "runs (pg_alloc va) s (\<lambda>_ t. \<exists>f. backed s t (t_pgd (cur s)) va f)"
proof -
  have "frames_wf s" "frame_left s" using assms(1,2) frames_left_frame_left [of 1 s]
    by (auto simp: vm_wf_def eval_nat_numeral)
  from frame_claim [OF this] obtain f b
    where f: "frame_alloc s = Done f s" "frame_set f s = Done () (s\<lparr>FrameBitmap := b\<rparr>)" "fresh f b s"
    by (auto simp: fresh_def)
  let ?s = "s\<lparr>FrameBitmap := b\<rparr>"
  have cap: "frame_capacity ?s = frame_capacity s" using f(3) by (simp add: fresh_def frame_capacity_def)
  have "frames_left 1 ?s"
    using frames_left_grow [of 1 s ?s "page_of f"] assms(2) f(3) cap by (simp add: eval_nat_numeral fresh_def)
  then have left: "frame_left ?s" using frames_left_frame_left [of 0] by simp
  have "vm_wf ?s (t_pgd (cur ?s))" using claim_keeps_vm_wf [OF assms(1) f(3)] by simp
  from pg_map_remaps [OF this left, of va f] assms(3)
  have "runs (pg_map f va) ?s (\<lambda>_ t. remapped ?s t (t_pgd (cur s)) va (PAGE_ENTRY f (task_flags s)))" by simp
  then obtain t where run: "pg_map f va ?s = Done () t"
    and t: "remapped ?s t (t_pgd (cur s)) va (PAGE_ENTRY f (task_flags s))" by (auto simp: runs_def)
  have al: "page_aligned f" "spare s f" using f(3) by (auto simp: fresh_def spare_def)
  have "pg_alloc va s = Done () t" using f run by (simp add: pg_alloc_def)
  moreover have "same_rest s t"
    using same_rest_trans [of s ?s t] t by (simp add: remapped_def same_rest_def)
  moreover have "used b = insert (page_of f) (frame_used s)" using f(3) by (simp add: fresh_def)
  moreover have "frames_kept s t (t_pgd (cur s))" "f \<notin> table_frames (mem t) (t_pgd (cur s))"
  proof -
    have frames_kept: "frames_kept ?s t (t_pgd (cur s))" using t by (simp add: remapped_def)
    have spare: "spare ?s x \<longleftrightarrow> spare s x \<and> page_of x \<noteq> page_of f" for x
      using f(3) cap by (auto simp: spare_def fresh_def)
    then show "frames_kept s t (t_pgd (cur s))" using frames_kept by (auto simp: frames_kept_def)
    have "f \<notin> table_frames (mem s) (t_pgd (cur s))" using table_not_spare [OF assms(1)] al(2) by blast
    with frames_kept spare [of f] al(1) show "f \<notin> table_frames (mem t) (t_pgd (cur s))" by (auto simp: frames_kept_def)
  qed
  ultimately show ?thesis
    by (intro runsI [of "pg_alloc va"] exI [of _ f])
       (use t al cap in \<open>auto simp: backed_def remapped_def split: if_splits\<close>)
qed

lemma cr2_irrelevant [simp]: "vm_wf (t\<lparr>cr2 := u\<rparr>) p = vm_wf t p" "frames_left n (t\<lparr>cr2 := u\<rparr>) = frames_left n t"
  by (simp_all add: vm_wf_def frames_wf_def spare_def frame_capacity_def frames_left_def)

lemma pg_fault_handler_reserved:
  assumes "vm_wf s (t_pgd (cur s))" "\<not> (UserTask s \<noteq> NULL \<and> pg_is_kernel (cr2 s))"
    and "is_table (dir_entry (mem s) (t_pgd (cur s)) (cr2 s))"
    and "page_entry (mem s) (t_pgd (cur s)) (cr2 s) AND PAGE_RESERVED \<noteq> 0"
  shows "pg_fault_handler regs s = kthen (pg_alloc (cr2 s)) (kret regs) s"
proof -
  have "tmp_room 1 (TmpPageTbl s)" "page_aligned (t_pgd (cur s))"
    using assms(1) by (auto simp: vm_wf_def intro: tmp_room_mono)
  with assms(3,4) have "pg_is_reserved (cr2 s) s = Done True s"
    by (simp add: pg_is_reserved_run Let_def is_table_def)
  then show ?thesis using assms(2)
    by (auto simp: pg_fault_handler_def mmu_read_cr2_def pg_alloc_def kthen_def kbind_def
        split: bind_splits sum.splits prod.splits)
qed


lemma demo_frames_left: "n \<le> 61 \<Longrightarrow> frames_left n demo_mmu"
  by (simp add: frames_left_def demo_frames_used card_Diff_subset)




subsection \<open>Ranges\<close>

lemma PGADDR_page_of: "PGADDR u = PGADDR v \<longleftrightarrow> page_of u = page_of v"
  by (simp add: word_unat_eq_iff unat_PGADDR page_of_def)

lemma frames_left_take:
  assumes "frames_left n s" "frame_capacity t = frame_capacity s" "frame_used t \<subseteq> X \<union> frame_used s"
    and "finite X" "m + card X \<le> n"
  shows "frames_left m t"
proof -
  have "({..<frame_capacity s} - frame_used s) - X \<subseteq> {..<frame_capacity t} - frame_used t" using assms(2,3) by auto
  then have "card (({..<frame_capacity s} - frame_used s) - X) \<le> card ({..<frame_capacity t} - frame_used t)"
    by (intro card_mono) auto
  with diff_card_le_card_Diff [OF assms(4), of "{..<frame_capacity s} - frame_used s"] assms(1,5) show ?thesis
    unfolding frames_left_def by linarith
qed

text \<open>The pages \<open>P\<close> (by number) of \<open>pgd\<close> are backed by frames of their own that were free in \<open>s\<close>,
  and every other page is as in \<open>s\<close>.\<close>

definition range_backed :: "'a mmu_scheme \<Rightarrow> 'a mmu_scheme \<Rightarrow> pgaddr_t \<Rightarrow> nat set \<Rightarrow> (nat \<Rightarrow> paddr_t) \<Rightarrow> bool" where
  "range_backed s t pgd P F \<longleftrightarrow>
     (\<forall>n \<in> P. page_aligned (F n) \<and> spare s (F n) \<and> page_of (F n) \<in> frame_used t) \<and> inj_on F P
     \<and> (\<forall>u. translate (mem t) pgd u =
          (if page_of u \<in> P then Some (F (page_of u) + (u AND 0xFFF)) else translate (mem s) pgd u))"

lemma range_backed_step:
  assumes "range_backed s t pgd P F" "backed t w pgd va f" "frame_used s \<subseteq> frame_used t" "frame_capacity t = frame_capacity s"
  shows "range_backed s w pgd (insert (page_of va) P) (F(page_of va := f))"
proof -
  have "page_of f \<notin> frame_used t" "spare s f" using assms(2-4) by (auto simp: backed_def spare_def)
  moreover have "F n \<noteq> f" if "n \<in> P" for n using that assms(1) calculation(1) by (auto simp: range_backed_def)
  ultimately show ?thesis using assms(1,2)
    by (auto simp: range_backed_def backed_def PGADDR_page_of inj_on_def)
qed

lemma kfor_pg_alloc:
  assumes "vm_wf s (t_pgd (cur s))" "frames_left (2 * length ps) s"
    and "\<forall>p \<in> set ps. dir_entry (mem s) (t_pgd (cur s)) p AND PAGE_EXTENDED = 0"
  shows "runs (kfor ps pg_alloc) s (\<lambda>_ t. vm_wf t (t_pgd (cur s)) \<and> TmpPageTbl t = TmpPageTbl s
     \<and> (\<exists>F. range_backed s t (t_pgd (cur s)) (page_of ` set ps) F))"
proof -
  let ?p = "t_pgd (cur s)"
  define I where "I d t \<longleftrightarrow> vm_wf t ?p \<and> TmpPageTbl t = TmpPageTbl s \<and> tasks t = tasks s \<and> CurrentTask t = CurrentTask s
     \<and> frame_used s \<subseteq> frame_used t \<and> frame_capacity t = frame_capacity s
     \<and> frames_left (2 * (length ps - length d)) t
     \<and> (\<forall>p \<in> set ps. dir_entry (mem t) ?p p AND PAGE_EXTENDED = 0)
     \<and> (\<exists>F. range_backed s t ?p (page_of ` set d) F)" for d t
  have "I [] s" using assms by (simp add: I_def range_backed_def)
  moreover have "runs (pg_alloc i) t (\<lambda>_. I (d @ [i]))" if I: "I d t" "ps = d @ i # r" for d i r t
  proof -
    have cur: "cur t = cur s" using I(1) by (simp add: I_def)
    have "2 * (length ps - length d) = Suc (Suc (2 * (length ps - length (d @ [i]))))" using I(2) by simp
    then have left: "frames_left (Suc (Suc (2 * (length ps - length (d @ [i]))))) t" using I(1) by (simp add: I_def)
    then have left2: "frames_left 2 t" by (simp add: frames_left_def)
    have "runs (pg_alloc i) t (\<lambda>_ w. \<exists>f. backed t w ?p i f)"
      using pg_alloc_remaps [of t i] I left2 cur by (auto simp: I_def)
    then show ?thesis
    proof (rule runs_weaken)
      fix w assume "\<exists>f. backed t w ?p i f"
      then obtain f where f: "backed t w ?p i f" by blast
      obtain T where T: "frame_used w \<subseteq> {T, page_of f} \<union> frame_used t" "frame_capacity w = frame_capacity t"
        using f by (auto simp: backed_def)
      have "card {T, page_of f} \<le> 2" by (simp add: card_insert_if)
      then have "frames_left (2 * (length ps - length (d @ [i]))) w"
        by (intro frames_left_take [OF left T(2,1)]) simp_all
      moreover obtain F where "range_backed s t ?p (page_of ` set d) F" using I(1) by (auto simp: I_def)
      then have "range_backed s w ?p (page_of ` set (d @ [i])) (F(page_of i := f))"
        using range_backed_step [OF _ f] I(1) by (simp add: I_def)
      ultimately show "I (d @ [i]) w" using f I(1) by (auto simp: I_def backed_def)
    qed
  qed
  ultimately show ?thesis
    by (rule runs_kfor) (auto simp: I_def)
qed

text \<open>\<^verbatim>\<open>pg_alloc_range(start, end)\<close> on page aligned bounds, with free frames for every page and a
  table for each, returns, and backs every page from that of \<open>start\<close> to that of \<open>end\<close>, both
  included, with a frame of its own that was free, leaving every other translation alone.\<close>

theorem pg_alloc_range_backs:
  assumes "vm_wf s (t_pgd (cur s))" "page_aligned start" "page_aligned end" "start \<le> end" "end < 0xFFFFF000"
    and "frames_left (2 * length (page_list start (end + PAGE_SIZE))) s"
    and "\<forall>p \<in> set (page_list start (end + PAGE_SIZE)). dir_entry (mem s) (t_pgd (cur s)) p AND PAGE_EXTENDED = 0"
  shows "runs (pg_alloc_range start end rw) s (\<lambda>_ t. vm_wf t (t_pgd (cur s)) \<and> TmpPageTbl t = TmpPageTbl s
     \<and> (\<exists>F. range_backed s t (t_pgd (cur s)) {page_of start..page_of end} F))"
  using kfor_pg_alloc [OF assms(1,6,7)]
  by (simp add: pg_alloc_range_def runs_def base_flags_def page_loop_kfor [OF range_limit [OF assms(3,5)]]
      range_pages [OF assms(2-5)])

theorem pg_alloc_range_backs_witness:
  "runs (pg_alloc_range 0x8000 0x9000 True) demo_mmu (\<lambda>_ t.
     \<exists>F. range_backed demo_mmu t 0x300000 {8..9} F)"
proof -
  have "length (page_list 0x8000 (0x9000 + PAGE_SIZE)) = 2"
    by (simp add: page_list_def page_count_def PAGE_SIZE_def)
  then show ?thesis
    using pg_alloc_range_backs [of demo_mmu "0x8000" "0x9000" True]
    by (auto elim!: runs_weaken simp: page_aligned_unat page_of_def demo_frames_left)
qed

text \<open>Reserving a range is different from reserving a page: the address stored is \<^verbatim>\<open>MEMMAX\<close>, whose
  low bits include \<^verbatim>\<open>PAGE_PRESENT\<close>, so the page is mapped at once, to the top frame of the
  physical address space, and never faults.\<close>

lemma pg_reserve_range_maps_top_frame:
  assumes "vm_wf s (t_pgd (cur s))" "frame_left s" "page_aligned va" "va < 0xFFFFF000"
    and "dir_entry (mem s) (t_pgd (cur s)) va AND PAGE_EXTENDED = 0"
  shows "runs (pg_reserve_range va va rw) s (\<lambda>_ t.
     translate (mem t) (t_pgd (cur s)) va = Some (0xFFFFF000 + (va AND 0xFFF)))"
proof -
  have entry: "PAGE_ENTRY MEMMAX f = 0xFFFFFFFF" for f
  proof -
    have "(0xFFFFFFFF :: u32) = - 1" by simp
    then show ?thesis by (simp only: PAGE_ENTRY_def MEMMAX_def bit.disj_one_left)
  qed
  have addr: "entry_addr 0xFFFFFFFF u = Some (0xFFFFF000 + (u AND 0xFFF))" for u
    by (simp add: entry_addr_def page_flag_defs PTE_ADDR_def)
  have list: "page_list va (va + PAGE_SIZE) = [va]"
    using assms(4) unat_next_page [of va "0xFFFFF000"] by (simp add: page_list_def page_count_def)
  note loop = page_loop_kfor [OF range_limit [OF assms(3,4)]]
  have "runs (pg_write_entry (t_pgd (cur s)) (PGADDR va) 0xFFFFFFFF) s (\<lambda>_ t.
     translate (mem t) (t_pgd (cur s)) va = Some (0xFFFFF000 + (va AND 0xFFF)))"
    by (rule runs_weaken [OF pg_write_entry_remaps [OF assms(1,2,5)]]) (simp add: remapped_def addr)
  then show ?thesis
    by (auto simp: pg_reserve_range_def base_flags_def runs_def loop list pg_map_ext_def entry Let_def)
qed

end
