(* ===== verification/Clonedir.thy ===== *)
theory Clonedir
  imports Paging
begin

text \<open>
  Copying an address space, the memory side of \<^verbatim>\<open>fork\<close> (\<^verbatim>\<open>arch/x86/mem/mmu_clone_dir.c\<close>), and
  copies from physical memory (\<^verbatim>\<open>memcpy_phys\<close> of \<^verbatim>\<open>mmu.c\<close>). Entries marked \<^verbatim>\<open>PAGE_LINK\<close> and
  entries that are not present are shared as they are; every other table and page is copied into
  fresh frames.
\<close>

definition frame_copy :: "paddr_t \<Rightarrow> paddr_t \<Rightarrow> ('a mmu_scheme, unit) kern" where
  "frame_copy src dest =
     kbind (pg_tmp_map src) (\<lambda>vsrc.
     kbind (pg_tmp_map dest) (\<lambda>vdest.
     kthen (tmp_copy vdest vsrc)
    (kthen (pg_tmp_unmap vsrc)
           (pg_tmp_unmap vdest))))"

definition pg_clone_page :: "pgentry_t \<Rightarrow> ('a mmu_scheme, pgentry_t) kern" where
  "pg_clone_page page =
     (if PTE_FLAGS page AND PAGE_PRESENT = 0 then kret page
      else if PTE_FLAGS page AND PAGE_LINK \<noteq> 0 then kret page
      else kbind frame_alloc (\<lambda>newpgframe.
           kthen (frame_set newpgframe)
          (kthen (frame_copy (PTE_ADDR page) newpgframe)
                 (kret (PAGE_ENTRY newpgframe (PTE_FLAGS page))))))"

definition pg_clone_page_4m :: "pgentry_t \<Rightarrow> ('a mmu_scheme, pgentry_t) kern" where
  "pg_clone_page_4m page =
     (if PDE_FLAGS page AND PAGE_PRESENT = 0 then kret page
      else if PDE_FLAGS page AND PAGE_LINK \<noteq> 0 then kret page
      else kbind frame_alloc_4m (\<lambda>newpgframe.
           kthen (frame_set_range newpgframe (newpgframe + 1024 * PAGE_SIZE))
          (kthen (kfor [0..<1024] (\<lambda>i. frame_copy (PDE_ADDR page + of_nat i * PAGE_SIZE) (newpgframe + of_nat i * PAGE_SIZE)))
                 (kret (PAGE_ENTRY newpgframe (PDE_FLAGS page))))))"

definition pg_clone_tbl :: "pgentry_t \<Rightarrow> ('a mmu_scheme, pgentry_t) kern" where
  "pg_clone_tbl tblent =
     (if PTE_FLAGS tblent AND PAGE_LINK \<noteq> 0 then kret tblent
      else if PTE_FLAGS tblent AND PAGE_PRESENT = 0 then kret tblent
      else kbind pg_dir_new (\<lambda>newtblframe.
           kbind (pg_tmp_map (PTE_ADDR tblent)) (\<lambda>tbl.
           kbind (pg_tmp_map newtblframe) (\<lambda>newtbl.
           kthen (kfor [0..<1024] (\<lambda>i.
             kbind (tmp_get tbl i) (\<lambda>e. kwhen (e \<noteq> NilPgEnt)
               (kbind (pg_clone_page e) (\<lambda>e'. tmp_put newtbl i e')))))
          (kthen (pg_tmp_unmap tbl)
          (kthen (pg_tmp_unmap newtbl)
                 (kret (PAGE_ENTRY newtblframe (PTE_FLAGS tblent)))))))))"

definition pg_clone_dir :: "pgaddr_t \<Rightarrow> ('a mmu_scheme, pgaddr_t) kern" where
  "pg_clone_dir dirframe =
     kbind pg_dir_new (\<lambda>newdirframe.
     kbind (pg_tmp_map dirframe) (\<lambda>dir.
     kbind (pg_tmp_map newdirframe) (\<lambda>newdir.
     kthen (kfor [0..<1024] (\<lambda>i.
       kbind (tmp_get dir i) (\<lambda>e. kwhen (e \<noteq> NilPgEnt)
         (if e AND PAGE_EXTENDED \<noteq> 0
          then kbind (pg_clone_page_4m e) (\<lambda>e'. tmp_put newdir i e')
          else kbind (pg_clone_tbl e) (\<lambda>e'. tmp_put newdir i e')))))
    (kthen (pg_tmp_unmap dir)
    (kthen (pg_tmp_unmap newdir)
           (kret newdirframe))))))"

subsection \<open>Copies from physical memory\<close>

text \<open>One byte stored at a virtual address of the running address space: the destination of
  \<^verbatim>\<open>memcpy\<close> in \<^verbatim>\<open>memcpy_phys\<close>. An address the processor cannot translate stops the copy.\<close>

definition virt_put :: "vaddr_t \<Rightarrow> u8 \<Rightarrow> ('a machine_scheme, unit) kern" where
  "virt_put va b s = (case translate (mem s) (cr3 s) va of
     None \<Rightarrow> Halt BadAccess | Some p \<Rightarrow> Done () (s\<lparr>mem := (mem s)(p := b)\<rparr>))"

definition tmp_byte :: "vaddr_t \<Rightarrow> vaddr_t \<Rightarrow> nat \<Rightarrow> ('a mmu_scheme, unit) kern" where
  "tmp_byte dest p k =
     kbind (tmp_phys (p + of_nat k)) (\<lambda>a. kbind (kget (\<lambda>s. mem s a)) (virt_put (dest + of_nat k)))"

definition tmp_to_virt :: "vaddr_t \<Rightarrow> vaddr_t \<Rightarrow> u32 \<Rightarrow> ('a mmu_scheme, unit) kern" where
  "tmp_to_virt dest p n = kfor [0..<unat n] (tmp_byte dest p)"

partial_function (option) memcpy_phys_loop ::
  "vaddr_t \<Rightarrow> paddr_t \<Rightarrow> u32 \<Rightarrow> u32 \<Rightarrow> 'a mmu_scheme \<Rightarrow> (stop + unit \<times> 'a mmu_scheme) option" where
  "memcpy_phys_loop dest src len x s =
     (if x < len then
        (let seek = src + x; pg = PGADDR seek; ofs = seek - pg;
             sz = (if len - x < PAGE_SIZE - ofs then len - x else PAGE_SIZE - ofs) in
         kbind (pg_tmp_map pg) (\<lambda>tmpmap.
         kthen (tmp_to_virt (dest + x) (tmpmap + ofs) sz)
        (kthen (pg_tmp_unmap tmpmap)
               (memcpy_phys_loop dest src len (x + sz)))) s)
      else Done () s)"

definition memcpy_phys :: "vaddr_t \<Rightarrow> paddr_t \<Rightarrow> u32 \<Rightarrow> ('a mmu_scheme, unit) kern" where
  "memcpy_phys dest src len = memcpy_phys_loop dest src len 0"

subsection \<open>Copying a frame\<close>

lemma mem_copy_in_page:
  assumes "page_aligned p" "page_aligned q" "n < 4096"
  shows "mem_copy m p r 4096 (q + of_nat n) = (if p = q then m (r + of_nat n) else m (q + of_nat n))"
proof (cases "p = q")
  case True
  then show ?thesis using assms(3)
    by (simp add: mem_copy_def in_page_diff word_less_nat_alt unat_of_nat)
next
  case False
  have "\<not> q + of_nat n - p < 4096"
  proof
    assume less: "q + of_nat n - p < 4096"
    define k where "k = unat (q + of_nat n - p)"
    have k: "k < 4096" using less by (simp add: k_def word_less_nat_alt)
    have "q + of_nat n = p + of_nat k" by (simp add: k_def)
    then show False using in_page_eq_iff [OF assms(2,1,3) k] False by simp
  qed
  with False show ?thesis by (simp add: mem_copy_def)
qed

lemma frame_copy_run:
  assumes "tmp_room 2 (TmpPageTbl s)" "page_aligned src" "page_aligned dest"
  shows "frame_copy src dest s = Done () (s\<lparr>mem := mem_copy (mem s) dest src 4096\<rparr>)"
proof -
  from assms(1) obtain e where e: "e < 1024" "TmpPageTbl s ! e = 0" "length (TmpPageTbl s) = 1024"
    "tmp_room 1 ((TmpPageTbl s)[e := PAGE_ENTRY src KERNEL_FLAGS])"
    "pg_tmp_map src s = Done (win e) (s\<lparr>TmpPageTbl := (TmpPageTbl s)[e := PAGE_ENTRY src KERNEL_FLAGS]\<rparr>)"
    by (rule table_slots)
  let ?u = "s\<lparr>TmpPageTbl := (TmpPageTbl s)[e := PAGE_ENTRY src KERNEL_FLAGS]\<rparr>"
  obtain d where d: "d < 1024" "TmpPageTbl ?u ! d = 0"
    "pg_tmp_map dest ?u = Done (win d) (?u\<lparr>TmpPageTbl := (TmpPageTbl ?u)[d := PAGE_ENTRY dest KERNEL_FLAGS]\<rparr>)"
    using tmp_map_ex [of 0 ?u dest] e(4) by auto
  let ?v = "?u\<lparr>TmpPageTbl := (TmpPageTbl ?u)[d := PAGE_ENTRY dest KERNEL_FLAGS]\<rparr>"
  have ne: "d \<noteq> e" using d(2) e by auto
  have "tmp_phys (win e) ?v = Done src ?v" using e(1,3) ne assms(2) by (intro tmp_phys_run) simp_all
  moreover have "tmp_phys (win d) ?v = Done dest ?v" using d(1) e(3) assms(3) by (intro tmp_phys_run) simp_all
  ultimately have copy: "tmp_copy (win d) (win e) ?v = Done () (?v\<lparr>mem := mem_copy (mem s) dest src 4096\<rparr>)"
    by (simp add: tmp_copy_def PAGE_SIZE_def)
  have "TmpPageTbl s ! d = 0" using d(2) ne by simp
  then have "(TmpPageTbl ?v)[e := 0, d := 0] = TmpPageTbl s"
    using ne e(2) by (simp add: list_update_swap [of d e]) (metis list_update_id)
  then have "kthen (pg_tmp_unmap (win e)) (pg_tmp_unmap (win d)) (?v\<lparr>mem := m\<rparr>) = Done () (s\<lparr>mem := m\<rparr>)" for m
    using e(1) d(1) by (simp add: tmp_unmap_run)
  then show ?thesis using e(5) d(3) copy by (simp add: frame_copy_def)
qed

subsection \<open>\<^verbatim>\<open>memcpy_phys\<close> is a copy byte by byte\<close>

definition phys_byte :: "vaddr_t \<Rightarrow> paddr_t \<Rightarrow> nat \<Rightarrow> ('a machine_scheme, unit) kern" where
  "phys_byte dest src k = kbind (kget (\<lambda>s. mem s (src + of_nat k))) (virt_put (dest + of_nat k))"

lemma kfor_map: "kfor (map g xs) f = kfor xs (\<lambda>i. f (g i))"
  by (induction xs) simp_all

lemma win_offset:
  assumes "e < 1024" "n < 4096"
  shows "ADDR_PTE (win e + of_nat n) = e" "(win e + of_nat n) mod PAGE_SIZE = of_nat n" "\<not> win e + of_nat n < KTMPMEM"
proof -
  have al: "page_aligned (win e)" using assms(1) by (simp add: page_aligned_def)
  note un = unat_in_page [OF al assms(2)]
  have un': "unat (win e + of_nat n) = (1047552 + e) * 4096 + n" using un assms(1) by (simp add: unat_win)
  have "(1047552 + e) mod 1024 = e" using assms(1) mod_mult_self3 [of 1023 1024 e] by simp
  then show "ADDR_PTE (win e + of_nat n) = e" 
    unfolding ADDR_PTE_unat un' using assms(2) by (subst div_mult_self3) simp_all
  show "(win e + of_nat n) mod PAGE_SIZE = of_nat n"
    unfolding word_unat_eq_iff unat_mod un' using assms(2) mod_mult_self3 [of "1047552 + e" 4096 n]
    by (simp add: PAGE_SIZE_def unat_of_nat)
  show "\<not> win e + of_nat n < KTMPMEM" by (simp add: word_less_nat_alt KTMPMEM_def un')
qed

lemma tmp_phys_offset:
  assumes "e < 1024" "n < 4096" "TmpPageTbl s ! e = PAGE_ENTRY a KERNEL_FLAGS" "page_aligned a"
  shows "tmp_phys (win e + of_nat n) s = Done (a + of_nat n) s"
  using assms by (simp add: tmp_phys_def win_offset NilPgEnt_def Let_def)

text \<open>Bytes copied through a slot of the window.\<close>

lemma window_bytes:
  assumes "e < 1024" "X ! e = PAGE_ENTRY a KERNEL_FLAGS" "page_aligned a" "\<forall>k \<in> set ks. n + k < 4096"
  shows "kfor ks (tmp_byte dest (win e + of_nat n)) (s\<lparr>TmpPageTbl := X\<rparr>)
    = map_option (map_sum id (\<lambda>(u, t). (u, t\<lparr>TmpPageTbl := X\<rparr>))) (kfor ks (phys_byte dest (a + of_nat n)) s)"
  using assms(4)
proof (induction ks arbitrary: s)
  case Nil
  then show ?case by simp
next
  case (Cons k ks)
  have "tmp_phys (win e + of_nat n + of_nat k) (s\<lparr>TmpPageTbl := X\<rparr>) = Done (a + of_nat n + of_nat k) (s\<lparr>TmpPageTbl := X\<rparr>)"
    using tmp_phys_offset [of e "n + k" "s\<lparr>TmpPageTbl := X\<rparr>" a] assms(1-3) Cons.prems
    by (simp add: add.assoc)
  then have byte: "tmp_byte dest (win e + of_nat n) k (s\<lparr>TmpPageTbl := X\<rparr>) = virt_put (dest + of_nat k) (mem s (a + of_nat n + of_nat k)) (s\<lparr>TmpPageTbl := X\<rparr>)"
    and phys: "phys_byte dest (a + of_nat n) k s = virt_put (dest + of_nat k) (mem s (a + of_nat n + of_nat k)) s"
    by (simp_all add: phys_byte_def tmp_byte_def)
  have all: "\<forall>k \<in> set ks. n + k < 4096" using Cons.prems by simp
  show ?case
  proof (cases "translate (mem s) (cr3 s) (dest + of_nat k)")
    case None
    then have "virt_put (dest + of_nat k) b s = Halt BadAccess"
      "virt_put (dest + of_nat k) b (s\<lparr>TmpPageTbl := X\<rparr>) = Halt BadAccess" for b
      by (simp_all add: virt_put_def)
    with byte phys show ?thesis by simp
  next
    case (Some p)
    define s' where "s' = s\<lparr>mem := (mem s)(p := mem s (a + of_nat n + of_nat k))\<rparr>"
    have "virt_put (dest + of_nat k) (mem s (a + of_nat n + of_nat k)) s = Done () s'"
      "virt_put (dest + of_nat k) (mem s (a + of_nat n + of_nat k)) (s\<lparr>TmpPageTbl := X\<rparr>) = Done () (s'\<lparr>TmpPageTbl := X\<rparr>)"
      using Some by (simp_all add: virt_put_def s'_def)
    with byte phys Cons.IH [OF all, of s'] show ?thesis by simp
  qed
qed

lemma phys_byte_window: "phys_byte dest src k s = Done () t \<Longrightarrow> TmpPageTbl t = TmpPageTbl s"
  for s :: "'a mmu_scheme"
  by (auto simp: phys_byte_def virt_put_def split: option.splits)

lemma phys_bytes_window: "kfor ks (phys_byte dest src) s = Done () t \<Longrightarrow> TmpPageTbl t = TmpPageTbl s"
  for s :: "'a mmu_scheme"
  by (induction ks arbitrary: s) (auto simp: kthen_eq_Done dest!: phys_byte_window)

lemma memcpy_chunk:
  assumes "tmp_room 1 (TmpPageTbl s)" "seek - PGADDR seek = of_nat n" "n < 4096" "n + unat sz \<le> 4096"
  shows "kbind (pg_tmp_map (PGADDR seek)) (\<lambda>tmpmap. kthen (tmp_to_virt d (tmpmap + (seek - PGADDR seek)) sz)
      (kthen (pg_tmp_unmap tmpmap) rest)) s
    = kthen (kfor [0..<unat sz] (phys_byte d seek)) rest s"
proof -
  obtain e where e: "e < 1024" "TmpPageTbl s ! e = 0"
    "pg_tmp_map (PGADDR seek) s = Done (win e) (s\<lparr>TmpPageTbl := (TmpPageTbl s)[e := PAGE_ENTRY (PGADDR seek) KERNEL_FLAGS]\<rparr>)"
    using tmp_map_ex [of 0 s "PGADDR seek"] assms(1) by auto
  let ?X = "(TmpPageTbl s)[e := PAGE_ENTRY (PGADDR seek) KERNEL_FLAGS]"
  have len: "length (TmpPageTbl s) = 1024" using assms(1) by (rule tmp_room_length)
  have "PGADDR seek + of_nat n = seek" using assms(2) page_offset(2) [of seek] by simp
  then have bytes: "tmp_to_virt d (win e + (seek - PGADDR seek)) sz (s\<lparr>TmpPageTbl := ?X\<rparr>)
    = map_option (map_sum id (\<lambda>(u, t). (u, t\<lparr>TmpPageTbl := ?X\<rparr>))) (kfor [0..<unat sz] (phys_byte d seek) s)"
    using window_bytes [of e ?X "PGADDR seek" "[0..<unat sz]" n d s] e(1) len PGADDR_aligned assms(2-4)
    by (simp add: tmp_to_virt_def)
  have "kthen (pg_tmp_unmap (win e)) rest (t\<lparr>TmpPageTbl := ?X\<rparr>) = rest t" if "TmpPageTbl t = TmpPageTbl s" for t
  proof -
    have "(TmpPageTbl s)[e := 0] = TmpPageTbl t" using slot_released [OF e(2)] that by simp
    then show ?thesis using e(1) by (simp add: tmp_unmap_run)
  qed
  then have "kthen (tmp_to_virt d (win e + (seek - PGADDR seek)) sz) (kthen (pg_tmp_unmap (win e)) rest) (s\<lparr>TmpPageTbl := ?X\<rparr>)
    = kthen (kfor [0..<unat sz] (phys_byte d seek)) rest s"
    using bytes phys_bytes_window [of "[0..<unat sz]" d seek s]
    by (cases "kfor [0..<unat sz] (phys_byte d seek) s" rule: option.exhaust)
      (auto simp: kthen_def kbind_def split: sum.splits)
  then show ?thesis unfolding kbind_Done [of "pg_tmp_map (PGADDR seek)" s, OF e(3)] .
qed

lemma phys_bytes_shift:
  fixes dest src :: u32
  defines "f \<equiv> (phys_byte dest src :: nat \<Rightarrow> ('a machine_scheme, unit) kern)"
  shows "kfor [0..<n] (phys_byte (dest + x) (src + x)) = kfor [unat x..<unat x + n] f"
proof -
  have "phys_byte (dest + x) (src + x) = (\<lambda>k. f (k + unat x))"
    by (rule ext) (simp add: phys_byte_def ac_simps f_def)
  then show ?thesis
    using kfor_map [of "\<lambda>k. k + unat x" "[0..<n]" f] by (simp add: map_add_upt add.commute)
qed

lemma memcpy_phys_loop_bytes:
  fixes s :: "'a mmu_scheme"
  assumes "tmp_room 1 (TmpPageTbl s)"
  shows "memcpy_phys_loop dest src len x s = kfor [unat x..<unat len] (phys_byte dest src) s"
  using assms
proof (induction "unat len - unat x" arbitrary: x s rule: less_induct)
  case less
  show ?case
  proof (cases "x < len")
    case False
    then show ?thesis
      by (simp add: memcpy_phys_loop.simps [of dest src len x s] word_less_nat_alt)
  next
    case True
    let ?seek = "src + x"
    define ofs where "ofs = ?seek - PGADDR ?seek"
    define sz where "sz = (if len - x < PAGE_SIZE - ofs then len - x else PAGE_SIZE - ofs)"
    obtain n where n: "n < 4096" "ofs = of_nat n" using page_offset(1) [of ?seek] by (auto simp: ofs_def)
    have un: "unat ofs = n" using n by (simp add: unat_of_nat)
    have rest: "unat (len - x) = unat len - unat x" using True by (simp add: unat_sub word_le_nat_alt word_less_nat_alt)
    have room: "unat (PAGE_SIZE - ofs) = 4096 - n"
      using un n(1) by (simp add: PAGE_SIZE_def unat_sub word_le_nat_alt)
    have sz: "n + unat sz \<le> 4096" "0 < unat sz" "unat x + unat sz \<le> unat len"
      using rest room n(1) True by (auto simp: sz_def word_less_nat_alt)
    have "unat x + unat sz < 2 ^ 32" using sz(3) unat_lt32 [of len] by simp
    then have nxt: "unat (x + sz) = unat x + unat sz" using unat_add_lem [of x sz] by simp
    have "memcpy_phys_loop dest src len x s = kbind (pg_tmp_map (PGADDR ?seek)) (\<lambda>tmpmap.
       kthen (tmp_to_virt (dest + x) (tmpmap + (?seek - PGADDR ?seek)) sz)
         (kthen (pg_tmp_unmap tmpmap) (memcpy_phys_loop dest src len (x + sz)))) s"
      by (subst memcpy_phys_loop.simps) (simp only: True if_True Let_def sz_def ofs_def)
    also have "\<dots> = kthen (kfor [0..<unat sz] (phys_byte (dest + x) ?seek)) (memcpy_phys_loop dest src len (x + sz)) s"
      by (rule memcpy_chunk [OF less.prems _ n(1) sz(1)]) (simp add: n(2) flip: ofs_def)
    finally have loop: "memcpy_phys_loop dest src len x s =
       kthen (kfor [0..<unat sz] (phys_byte (dest + x) ?seek)) (memcpy_phys_loop dest src len (x + sz)) s" .
    have split: "[unat x..<unat len] = [unat x..<unat x + unat sz] @ [unat x + unat sz..<unat len]"
      using sz(3) upt_add_eq_append [of "unat x" "unat x + unat sz" "unat len - (unat x + unat sz)"] by simp
    have "memcpy_phys_loop dest src len (x + sz) t = kfor [unat x + unat sz..<unat len] (phys_byte dest src) t"
      if "TmpPageTbl t = TmpPageTbl s" for t :: "'a mmu_scheme"
      using less.hyps [of "x + sz" t] less.prems that sz nxt by simp
    then show ?thesis unfolding loop phys_bytes_shift split kfor_append
      using phys_bytes_window [of "[unat x..<unat x + unat sz]" dest src s]
      by (cases "kfor [unat x..<unat x + unat sz] (phys_byte dest src) s" rule: option.exhaust)
        (auto simp: kthen_def kbind_def split: sum.splits)
  qed
qed

text \<open>C12: \<^verbatim>\<open>memcpy_phys\<close>, which maps the source page by page into the temporary window and copies the
  part of each page that is wanted, does exactly what a copy byte by byte from physical memory does,
  for every source, length and alignment: it ends, with the same stores in the same order.\<close>

theorem memcpy_phys_bytewise:
  assumes "tmp_room 1 (TmpPageTbl s)"
  shows "memcpy_phys dest src len s = kfor [0..<unat len] (\<lambda>k.
     kbind (kget (\<lambda>s. mem s (src + of_nat k))) (virt_put (dest + of_nat k))) s"
  using memcpy_phys_loop_bytes [OF assms, of dest src len 0]
  by (simp add: memcpy_phys_def phys_byte_def [abs_def])

theorem memcpy_phys_bytewise_witness:
  "memcpy_phys 0x8000 0x1FFE 2 demo_mmu = kfor [0..<2] (\<lambda>k.
     kbind (kget (\<lambda>s. mem s (0x1FFE + of_nat k))) (virt_put (0x8000 + of_nat k))) demo_mmu"
  using memcpy_phys_bytewise [of demo_mmu "0x8000" "0x1FFE" 2] by simp

end
