(* ===== verification/Brk.thy ===== *)
theory Brk
  imports Clonedir
begin

text \<open>
  The program break and the allocator used before the C library's (\<^verbatim>\<open>arch/x86/mem/brk.c\<close>,
  \<^verbatim>\<open>early_malloc.c\<close>), and \<^verbatim>\<open>frame_alloc_init\<close> of \<^verbatim>\<open>framealloc.c\<close>, which calls \<^verbatim>\<open>malloc\<close>.
  The C library's own allocator (\<^verbatim>\<open>__real_malloc\<close>, \<^verbatim>\<open>__real_free\<close>) is an argument of the
  wrappers.
\<close>

record brks = mmu +
  EarlyMallocEnabled :: bool
  AllocStack :: "vaddr_t list"
  AllocSP :: nat
  curbrk :: vaddr_t

definition brk_grow_page :: "vaddr_t \<Rightarrow> ('a mmu_scheme, unit) kern" where
  "brk_grow_page p = kbind mmu_is_ready (\<lambda>ready.
     if ready then kbind (pg_is_allocated p) (\<lambda>a. kwhen (\<not> a) (pg_alloc p)) else kret ())"

definition brk_drop_page :: "vaddr_t \<Rightarrow> ('a mmu_scheme, unit) kern" where
  "brk_drop_page p = kbind mmu_is_ready (\<lambda>ready. kwhen ready (pg_unmap p))"

definition task_brk :: "u32 \<Rightarrow> vaddr_t \<Rightarrow> ('a mmu_scheme, vaddr_t) kern" where
  "task_brk task brk =
     kbind (kget (\<lambda>s. t_brk (tasks s task))) (\<lambda>old.
     kthen (if brk = 0 then kret ()
            else if brk > old then
              kthen (kmod (upd_task task (\<lambda>t. t\<lparr>t_brk := brk\<rparr>)))
                    (page_loop brk_grow_page old (brk + PAGE_SIZE))
            else if brk < old then
              kthen (kmod (upd_task task (\<lambda>t. t\<lparr>t_brk := brk\<rparr>)))
                    (page_loop brk_drop_page (PGADDR brk + 1) (PGADDR old))
            else kret ())
           (kget (\<lambda>s. t_brk (tasks s task))))"

definition early_malloc :: "u32 \<Rightarrow> ('a brks_scheme, vaddr_t) kern" where
  "early_malloc sz =
     kbind (kget CurrentTask) (\<lambda>task.
     kbind (task_brk task 0) (\<lambda>brk0.
     kbind (task_brk task (brk0 + sz)) (\<lambda>brk.
     kthen (kmod (\<lambda>s. s\<lparr>curbrk := t_brk (cur s), AllocSP := AllocSP s + 1\<rparr>))
    (kbind (kget (\<lambda>s. AllocSP s < length (AllocStack s))) (\<lambda>room.
     kthen (kguard room BadAccess)
    (kthen (kmod (\<lambda>s. s\<lparr>AllocStack := (AllocStack s)[AllocSP s := brk]\<rparr>))
           (kret (brk - sz))))))))"

definition early_free :: "vaddr_t \<Rightarrow> ('a brks_scheme, unit) kern" where
  "early_free addr =
     kbind (kget (\<lambda>s. (AllocSP s < length (AllocStack s), AllocStack s ! AllocSP s))) (\<lambda>(room, top).
     kthen (kguard room BadAccess)
    (kwhen (top = addr)
      (kthen (kmod (\<lambda>s. s\<lparr>AllocSP := AllocSP s - 1\<rparr>))
      (kbind (kget CurrentTask) (\<lambda>task.
       kthen (kbind (task_brk task top) (\<lambda>_. kret ()))
             (kmod (\<lambda>s. s\<lparr>curbrk := t_brk (cur s)\<rparr>)))))))"

definition enter_kernel :: "('a procs_scheme, unit) kern" where
  "enter_kernel = kmod (\<lambda>s. if CurrentTask s \<noteq> sym_KernelTask (syms s)
     then s\<lparr>UserTask := CurrentTask s, CurrentTask := sym_KernelTask (syms s)\<rparr> else s)"

definition leave_kernel :: "('a procs_scheme, unit) kern" where
  "leave_kernel = kmod (\<lambda>s. if UserTask s \<noteq> NULL then s\<lparr>CurrentTask := UserTask s\<rparr> else s)"

definition wrap_malloc :: "(u32 \<Rightarrow> ('a brks_scheme, vaddr_t) kern) \<Rightarrow> u32 \<Rightarrow> ('a brks_scheme, vaddr_t) kern" where
  "wrap_malloc real_malloc sz =
     kbind (kget EarlyMallocEnabled) (\<lambda>early.
     if early then early_malloc sz
     else kthen enter_kernel (kbind (real_malloc sz) (\<lambda>m. kthen leave_kernel (kret m))))"

definition wrap_free :: "(vaddr_t \<Rightarrow> ('a brks_scheme, unit) kern) \<Rightarrow> vaddr_t \<Rightarrow> ('a brks_scheme, unit) kern" where
  "wrap_free real_free addr =
     kbind (kget EarlyMallocEnabled) (\<lambda>early.
     kthen (kwhen early (early_free addr))
    (kthen enter_kernel (kthen (real_free addr) leave_kernel)))"

definition early_malloc_disable :: "('a brks_scheme, unit) kern" where
  "early_malloc_disable = kmod (\<lambda>s. s\<lparr>EarlyMallocEnabled := False\<rparr>)"

definition frame_alloc_init :: "(u32 \<Rightarrow> ('a brks_scheme, vaddr_t) kern) \<Rightarrow> paddr_t \<Rightarrow> ('a brks_scheme, unit) kern" where
  "frame_alloc_init malloc mem_max =
     kthen (kmod (\<lambda>s. s\<lparr>FrameCount := ADDR_PAGE mem_max\<rparr>))
    (kbind (kget (\<lambda>s. BIT_IDX (FrameCount s))) (\<lambda>count.
     kbind (malloc (count * 4)) (\<lambda>p.
     kthen (kguard (p \<noteq> NULL \<or> count = 0) BadAccess)
           (kmod (\<lambda>s. s\<lparr>FrameBitmap := replicate (unat count) 0xFFFFFFFF, FrameAllocInitialized := True\<rparr>)))))"

subsection \<open>Growing the break\<close>

lemma ADDR_page_of: "ADDR_PDE u = page_of u div 1024" "ADDR_PTE u = page_of u mod 1024"
  by (simp_all add: ADDR_PDE_unat ADDR_PTE_unat page_of_def div_mult2_eq [symmetric])

lemma translate_None_page:
  "page_of u = page_of v \<Longrightarrow> translate m pgd u = None \<longleftrightarrow> translate m pgd v = None"
  by (simp add: translate_def ADDR_page_of Let_def)

text \<open>The pages \<open>P\<close> are mapped in \<open>t\<close>, and what was mapped in \<open>s\<close> still is, to the same frames.\<close>

definition grown :: "'a mmu_scheme \<Rightarrow> 'a mmu_scheme \<Rightarrow> pgaddr_t \<Rightarrow> nat set \<Rightarrow> bool" where
  "grown s t pgd P \<longleftrightarrow> (\<forall>u. page_of u \<in> P \<longrightarrow> translate (mem t) pgd u \<noteq> None)
     \<and> (\<forall>u. translate (mem s) pgd u \<noteq> None \<longrightarrow> translate (mem t) pgd u = translate (mem s) pgd u)
     \<and> (\<forall>u. dir_entry (mem s) pgd u AND PAGE_EXTENDED = 0 \<longrightarrow> dir_entry (mem t) pgd u AND PAGE_EXTENDED = 0)"

definition growing :: "'a mmu_scheme \<Rightarrow> 'a mmu_scheme \<Rightarrow> pgaddr_t \<Rightarrow> nat \<Rightarrow> bool" where
  "growing s t pgd n \<longleftrightarrow> vm_wf t pgd \<and> TmpPageTbl t = TmpPageTbl s \<and> tasks t = tasks s
     \<and> CurrentTask t = CurrentTask s \<and> MMUReady t \<and> frames_left n t"

lemma grown_insert:
  assumes "grown s t pgd P" "grown t w pgd {}" "translate (mem w) pgd p \<noteq> None"
  shows "grown s w pgd (insert (page_of p) P)"
proof -
  have "translate (mem w) pgd u \<noteq> None" if "page_of u = page_of p" for u
    using assms(3) by (simp add: translate_None_page [OF that])
  then show ?thesis using assms(1,2) unfolding grown_def by (metis insert_iff)
qed

lemma growing_alloc:
  assumes "growing s t pgd (Suc (Suc n))" "backed t w pgd p f"
  shows "growing s w pgd n"
proof -
  have "\<exists>T. frame_used w \<subseteq> {T, page_of f} \<union> frame_used t" and cap: "frame_capacity w = frame_capacity t"
    and rest: "same_rest t w" "vm_wf w pgd" using assms(2) unfolding backed_def by blast+
  then obtain T where T: "frame_used w \<subseteq> {T, page_of f} \<union> frame_used t" by blast
  have "card {T, page_of f} \<le> 2" by (simp add: card_insert_if)
  then have card: "n + card {T, page_of f} \<le> Suc (Suc n)" by linarith
  have "frames_left (Suc (Suc n)) t" using assms(1) by (simp add: growing_def)
  from frames_left_take [OF this cap T _ card] have "frames_left n w" by simp
  then show ?thesis using assms(1) rest(2) same_rest_fields [OF rest(1)] by (simp add: growing_def)
qed

lemma grow_page:
  assumes "growing s t (t_pgd (cur s)) (Suc (Suc n))" "grown s t (t_pgd (cur s)) P"
    and "dir_entry (mem s) (t_pgd (cur s)) p AND PAGE_EXTENDED = 0 \<or> translate (mem s) (t_pgd (cur s)) p \<noteq> None"
  shows "runs (brk_grow_page p) t (\<lambda>_ w. growing s w (t_pgd (cur s)) n \<and> grown s w (t_pgd (cur s)) (insert (page_of p) P))"
proof -
  let ?pgd = "t_pgd (cur s)"
  have ready: "MMUReady t" and cur: "cur t = cur s" and wf: "vm_wf t ?pgd" and left: "frames_left 2 t"
    using assms(1) by (auto simp: growing_def frames_left_def)
  have alloc: "pg_is_allocated p t = Done (translate (mem t) ?pgd p \<noteq> None) t"
    using pg_is_allocated_wf [of t p] wf cur by simp
  show ?thesis
  proof (cases "translate (mem t) ?pgd p = None")
    case False
    then have "brk_grow_page p t = Done () t" using ready alloc by (simp add: brk_grow_page_def mmu_is_ready_def)
    moreover have "growing s t ?pgd n" using assms(1) by (simp add: growing_def frames_left_def)
    moreover have "grown s t ?pgd (insert (page_of p) P)"
      by (rule grown_insert [OF assms(2) _ False]) (simp add: grown_def)
    ultimately show ?thesis by (simp add: runs_def)
  next
    case True
    then have run: "brk_grow_page p t = pg_alloc p t" using ready alloc by (simp add: brk_grow_page_def mmu_is_ready_def)
    have "translate (mem s) ?pgd p = None" using True assms(2) unfolding grown_def by metis
    then have "dir_entry (mem t) ?pgd p AND PAGE_EXTENDED = 0" using assms(2,3) unfolding grown_def by blast
    then have "runs (pg_alloc p) t (\<lambda>_ w. \<exists>f. backed t w ?pgd p f)"
      using pg_alloc_remaps [of t p] wf left cur by simp
    then obtain w f where w: "pg_alloc p t = Done () w" "backed t w ?pgd p f" by (auto simp: runs_def)
    have tr: "translate (mem w) ?pgd u = (if page_of u = page_of p then Some (f + (u AND 0xFFF)) else translate (mem t) ?pgd u)"
      and ext: "dir_entry (mem t) ?pgd u AND PAGE_EXTENDED = 0 \<Longrightarrow> dir_entry (mem w) ?pgd u AND PAGE_EXTENDED = 0" for u
      using w(2) unfolding backed_def PGADDR_page_of by blast+
    have "translate (mem t) ?pgd u = None" if "page_of u = page_of p" for u
      using True by (simp add: translate_None_page [OF that])
    with tr ext have "grown t w ?pgd {}" unfolding grown_def by (metis empty_iff)
    moreover have "translate (mem w) ?pgd p \<noteq> None" using tr [of p] by simp
    ultimately have "grown s w ?pgd (insert (page_of p) P)" by (rule grown_insert [OF assms(2)])
    with growing_alloc [OF assms(1) w(2)] w(1) run show ?thesis
      by (simp add: runs_def)
  qed
qed

lemma div_add_ceil: "(a + d) div 4096 \<le> a div 4096 + (d + 4095) div 4096" for a d :: nat
proof -
  have "a + d \<le> 4096 * (a div 4096) + 4095 + 4096 * ((d + 4095) div 4096)"
    using mult_div_mod_eq [of 4096 a] mult_div_mod_eq [of 4096 "d + 4095"]
      mod_less_divisor [of 4096 a] mod_less_divisor [of 4096 "d + 4095"] by linarith
  then have "a + d < 4096 * (a div 4096 + (d + 4095) div 4096 + 1)" by simp
  then have "(a + d) div 4096 < a div 4096 + (d + 4095) div 4096 + 1"
    by (simp add: less_mult_imp_div_less mult.commute)
  then show ?thesis by simp
qed

lemma break_pages:
  assumes "old < brk" "brk < 0xFFFFE000" "old \<le> u" "u \<le> brk"
  shows "page_of u \<in> page_of ` set (page_list old (brk + PAGE_SIZE))"
proof -
  have un: "unat (brk + PAGE_SIZE) = unat brk + 4096"
    using unat_next_page [of brk "0xFFFFF000"] assms(2) by (simp add: word_less_nat_alt)
  then have lim: "brk + PAGE_SIZE \<le> 0xFFFFF000" using assms(2) by (simp add: word_less_nat_alt word_le_nat_alt)
  have le: "unat old \<le> unat u" "unat u \<le> unat brk" using assms by (simp_all add: word_le_nat_alt)
  then have "page_of old \<le> page_of u" by (simp add: page_of_def div_le_mono)
  moreover have "page_of u < page_of old + page_count old (brk + PAGE_SIZE)"
  proof -
    have "page_of u \<le> page_of old + (unat u - unat old + 4095) div 4096"
      using div_add_ceil [of "unat old" "unat u - unat old"] le by (simp add: page_of_def)
    also have "(unat u - unat old + 4095) div 4096 \<le> (unat brk - unat old + 4095) div 4096"
      using le by (intro div_le_mono) simp
    also have "\<dots> < page_count old (brk + PAGE_SIZE)"
      using un le by (simp add: page_count_def)
    finally show ?thesis by simp
  qed
  ultimately show ?thesis by (simp add: page_list_pages [OF lim])
qed

lemma upd_task_wf [simp]:
  "vm_wf (upd_task a f s) p = vm_wf s p" "frames_left n (upd_task a f s) = frames_left n s"
  "mem (upd_task a f s) = mem s" "TmpPageTbl (upd_task a f s) = TmpPageTbl s" "MMUReady (upd_task a f s) = MMUReady s"
  by (simp_all add: upd_task_def vm_wf_def frames_wf_def spare_def frame_capacity_def frames_left_def)



subsection \<open>Lowering the break\<close>

lemma drop_pages:
  assumes "brk < old"
  shows "page_of ` set (page_list (PGADDR brk + 1) (PGADDR old)) = {page_of brk..<page_of old}"
    and "length (page_list (PGADDR brk + 1) (PGADDR old)) = page_of old - page_of brk"
proof -
  have lim: "PGADDR old \<le> 0xFFFFF000"
    using page_aligned_bound [OF PGADDR_aligned [of old]] by (simp add: word_le_nat_alt)
  have un: "unat (PGADDR brk + 1) = 4096 * page_of brk + 1"
    using unat_in_page [OF PGADDR_aligned [of brk], of 1] by (simp add: unat_PGADDR page_of_def)
  then have page: "page_of (PGADDR brk + 1) = page_of brk" by (simp add: page_of_def [of "PGADDR brk + 1"])
  have "page_of brk \<le> page_of old" using assms by (simp add: page_of_def word_less_nat_alt div_le_mono)
  then obtain D where D: "page_of old = page_of brk + D" using le_Suc_ex by blast
  have "4096 * (page_of brk + D) - (4096 * page_of brk + 1) + 4095 = (if D = 0 then 4095 else D * 4096 + 4094)"
    by (cases D) auto
  then have "(4096 * (page_of brk + D) - (4096 * page_of brk + 1) + 4095) div 4096 = D"
    using div_mult_self3 [of 4096 D 4094] by simp
  then have "page_count (PGADDR brk + 1) (PGADDR old) = D"
    unfolding page_count_def un unat_PGADDR page_of_def [of old, symmetric] D .
  then show "page_of ` set (page_list (PGADDR brk + 1) (PGADDR old)) = {page_of brk..<page_of old}"
    and "length (page_list (PGADDR brk + 1) (PGADDR old)) = page_of old - page_of brk"
    using D page by (simp add: page_list_pages [OF lim], simp add: page_list_def)
qed

lemma kfor_drop:
  assumes "vm_wf s (t_pgd (cur s))" "MMUReady s" "frames_left (length ps) s"
    and "\<forall>p \<in> set ps. dir_entry (mem s) (t_pgd (cur s)) p AND PAGE_EXTENDED = 0"
  shows "runs (kfor ps brk_drop_page) s (\<lambda>_ t. same_rest s t \<and> vm_wf t (t_pgd (cur s))
     \<and> (\<forall>u. translate (mem t) (t_pgd (cur s)) u = (if page_of u \<in> page_of ` set ps then None else translate (mem s) (t_pgd (cur s)) u)))"
proof -
  let ?pgd = "t_pgd (cur s)"
  define I where "I d t \<longleftrightarrow> same_rest s t \<and> vm_wf t ?pgd \<and> frames_left (length ps - length d) t
     \<and> (\<forall>p \<in> set ps. dir_entry (mem t) ?pgd p AND PAGE_EXTENDED = 0)
     \<and> (\<forall>u. translate (mem t) ?pgd u = (if page_of u \<in> page_of ` set d then None else translate (mem s) ?pgd u))" for d t
  have "I [] s" using assms by (simp add: I_def same_rest_def)
  moreover have "runs (brk_drop_page p) t (\<lambda>_. I (d @ [p]))" if I: "I d t" "ps = d @ p # r" for d p r t
  proof -
    have rest: "same_rest s t" using I(1) by (simp add: I_def)
    note fld = same_rest_fields [OF rest]
    have run: "brk_drop_page p t = pg_write_entry ?pgd (PGADDR p) NilPgEnt t"
      using fld assms(2) by (simp add: brk_drop_page_def mmu_is_ready_def pg_unmap_def)
    have "length ps - length d = Suc (length ps - length (d @ [p]))" using I(2) by simp
    then have left: "frames_left (Suc (length ps - length (d @ [p]))) t" using I(1) by (simp add: I_def)
    have "runs (pg_write_entry ?pgd (PGADDR p) NilPgEnt) t (\<lambda>_ w. remapped t w ?pgd p NilPgEnt)"
      using I frames_left_frame_left [OF left] by (intro pg_write_entry_remaps) (auto simp: I_def)
    then obtain w where w: "brk_drop_page p t = Done () w" "remapped t w ?pgd p NilPgEnt" using run by (auto simp: runs_def)
    have "same_rest s w" using same_rest_trans [OF rest] w(2) by (simp add: remapped_def)
    moreover have "frames_left (length ps - length (d @ [p])) w"
      using frames_left_grow [OF left] w(2) by (auto simp: remapped_def)
    moreover have "translate (mem w) ?pgd u = (if page_of u \<in> page_of ` set (d @ [p]) then None else translate (mem s) ?pgd u)" for u
      using w(2) I(1) by (simp add: remapped_def I_def PGADDR_page_of entry_addr_def NilPgEnt_def)
    moreover have "\<forall>p \<in> set ps. dir_entry (mem w) ?pgd p AND PAGE_EXTENDED = 0" "vm_wf w ?pgd"
      using w(2) I(1) by (auto simp: remapped_def I_def)
    ultimately show ?thesis by (intro runsI [of "brk_drop_page p" t, OF w(1)]) (simp add: I_def)
  qed
  ultimately show ?thesis by (rule runs_kfor) (auto simp: I_def)
qed

text \<open>Lowering the break of the running task unmaps exactly the pages from the one that holds the
  new break up to, but not including, the one that holds the old break, and nothing else. (The page
  of the new break goes too, although the bytes below the break in it are still part of the heap.)\<close>

theorem task_brk_shrink_unmaps:
  assumes "vm_wf s (t_pgd (cur s))" "MMUReady s" "brk \<noteq> 0" "brk < t_brk (cur s)"
    and "frames_left (page_of (t_brk (cur s)) - page_of brk) s"
    and "\<forall>p. page_of brk \<le> page_of p \<and> page_of p < page_of (t_brk (cur s)) \<longrightarrow> dir_entry (mem s) (t_pgd (cur s)) p AND PAGE_EXTENDED = 0"
  shows "runs (task_brk (CurrentTask s) brk) s (\<lambda>r t. r = brk \<and> vm_wf t (t_pgd (cur s))
     \<and> (\<forall>u. translate (mem t) (t_pgd (cur s)) u =
          (if page_of brk \<le> page_of u \<and> page_of u < page_of (t_brk (cur s)) then None
           else translate (mem s) (t_pgd (cur s)) u)))"
proof -
  let ?pgd = "t_pgd (cur s)" and ?ps = "page_list (PGADDR brk + 1) (PGADDR (t_brk (cur s)))"
  let ?s = "upd_task (CurrentTask s) (\<lambda>t. t\<lparr>t_brk := brk\<rparr>) s"
  note pages = drop_pages [OF assms(4)]
  have lim: "PGADDR (t_brk (cur s)) \<le> 0xFFFFF000"
    using page_aligned_bound [OF PGADDR_aligned [of "t_brk (cur s)"]] by (simp add: word_le_nat_alt)
  have "\<forall>p \<in> set ?ps. dir_entry (mem s) ?pgd p AND PAGE_EXTENDED = 0"
  proof
    fix p assume "p \<in> set ?ps"
    then have "page_of p \<in> page_of ` set ?ps" by simp
    with pages(1) assms(6) show "dir_entry (mem s) ?pgd p AND PAGE_EXTENDED = 0" by simp
  qed
  then have "runs (kfor ?ps brk_drop_page) ?s (\<lambda>_ t. same_rest ?s t \<and> vm_wf t ?pgd
     \<and> (\<forall>u. translate (mem t) ?pgd u = (if page_of u \<in> page_of ` set ?ps then None else translate (mem s) ?pgd u)))"
    by (intro runs_weaken [OF kfor_drop]) (use assms(1,2,5) pages(2) in simp_all)
  then obtain t where t: "kfor ?ps brk_drop_page ?s = Done () t" "same_rest ?s t" "vm_wf t ?pgd"
    "\<forall>u. translate (mem t) ?pgd u = (if page_of u \<in> page_of ` set ?ps then None else translate (mem s) ?pgd u)"
    by (auto simp: runs_def)
  have "task_brk (CurrentTask s) brk s = Done brk t"
    using t(1) assms(3,4) same_rest_fields(4) [OF t(2)]
    by (auto simp: task_brk_def page_loop_kfor [OF lim])
  then show ?thesis using t(3,4) pages(1) by (simp add: runs_def)
qed

theorem task_brk_shrink_unmaps_witness:
  "runs (task_brk 0x9000 0x6800) demo_mmu (\<lambda>r t. translate (mem t) 0x300000 0x67FF = None)"
proof -
  have brk: "t_brk demo_child = 0x8000" "MMUReady demo_mmu"
    by (simp_all add: demo_child_def demo_mmu_def procs.defs)
  have "runs (task_brk (CurrentTask demo_mmu) 0x6800) demo_mmu (\<lambda>r t. translate (mem t) 0x300000 0x67FF = None)"
    by (rule runs_weaken [OF task_brk_shrink_unmaps]) (simp_all add: brk demo_frames_left page_of_def)
  then show ?thesis by simp
qed

subsection \<open>The early allocator\<close>

lemma grow_not_ready: "\<not> MMUReady s \<Longrightarrow> kfor ps brk_grow_page s = Done () s"
  by (induction ps) (simp_all add: brk_grow_page_def mmu_is_ready_def)

lemma task_brk_not_ready:
  assumes "\<not> MMUReady s" "t_brk (tasks s task) \<le> brk" "brk < 0xFFFFE000" "brk \<noteq> 0"
  shows "task_brk task brk s = Done brk (upd_task task (\<lambda>t. t\<lparr>t_brk := brk\<rparr>) s)"
proof -
  have lim: "brk + PAGE_SIZE \<le> 0xFFFFF000"
    using unat_next_page [of brk "0xFFFFF000"] assms(3) by (simp add: word_less_nat_alt word_le_nat_alt)
  have same: "upd_task task (\<lambda>t. t\<lparr>t_brk := t_brk (tasks s task)\<rparr>) s = s"
    by (simp add: upd_task_def fun_upd_idem)
  show ?thesis
    using assms same by (cases "brk = t_brk (tasks s task)")
      (auto simp: task_brk_def page_loop_kfor [OF lim] grow_not_ready)
qed

lemma early_malloc_run:
  assumes "\<not> MMUReady s" "unat (t_brk (cur s)) + unat sz < 0xFFFFE000" "0 < t_brk (cur s)" "AllocSP s + 1 < length (AllocStack s)"
  shows "early_malloc sz s = Done (t_brk (cur s))
    (let b = t_brk (cur s) + sz in (upd_task (CurrentTask s) (\<lambda>t. t\<lparr>t_brk := b\<rparr>) s)
      \<lparr>curbrk := b, AllocSP := AllocSP s + 1, AllocStack := (AllocStack s)[AllocSP s + 1 := b]\<rparr>)"
proof -
  let ?b = "t_brk (cur s) + sz"
  have un: "unat ?b = unat (t_brk (cur s)) + unat sz"
    using assms(2) unat_add_lem [of "t_brk (cur s)" sz] by simp
  have "t_brk (cur s) \<le> ?b" "?b < 0xFFFFE000" "?b \<noteq> 0"
    using un assms(2,3) by (auto simp: word_le_nat_alt word_less_nat_alt)
  from task_brk_not_ready [OF assms(1) this]
  have brk: "task_brk (CurrentTask s) ?b s = Done ?b (upd_task (CurrentTask s) (\<lambda>t. t\<lparr>t_brk := ?b\<rparr>) s)" .
  have "task_brk (CurrentTask s) 0 s = Done (t_brk (cur s)) s" by (simp add: task_brk_def)
  with brk assms(4) show ?thesis
    by (simp add: early_malloc_def upd_task_def Let_def)
qed

primrec early_mallocs :: "u32 list \<Rightarrow> ('a brks_scheme, vaddr_t list) kern" where
  "early_mallocs [] = kret []"
| "early_mallocs (sz # szs) = kbind (early_malloc sz) (\<lambda>p. kbind (early_mallocs szs) (\<lambda>ps. kret (p # ps)))"

text \<open>Before paging is ready, a sequence of \<^verbatim>\<open>early_malloc\<close> calls returns blocks that follow one
  another from the break on, without gap or overlap, as long as the break stays below the last two
  pages and the bookkeeping stack has room; the break ends where the last block ends.\<close>

theorem early_mallocs_contiguous:
  assumes "\<not> MMUReady s" "0 < t_brk (cur s)" "unat (t_brk (cur s)) + sum_list (map unat szs) < 0xFFFFE000"
    and "AllocSP s + length szs < length (AllocStack s)"
  shows "runs (early_mallocs szs) s (\<lambda>ps t. length ps = length szs
     \<and> (\<forall>i < length szs. unat (ps ! i) = unat (t_brk (cur s)) + sum_list (map unat (take i szs)))
     \<and> unat (t_brk (cur t)) = unat (t_brk (cur s)) + sum_list (map unat szs))"
  using assms
proof (induction szs arbitrary: s)
  case Nil
  then show ?case by (simp add: runs_def)
next
  case (Cons sz szs)
  let ?b = "t_brk (cur s) + sz"
  have un: "unat ?b = unat (t_brk (cur s)) + unat sz"
    using Cons.prems(3) unat_add_lem [of "t_brk (cur s)" sz] by simp
  let ?t = "(upd_task (CurrentTask s) (\<lambda>t. t\<lparr>t_brk := ?b\<rparr>) s)
      \<lparr>curbrk := ?b, AllocSP := AllocSP s + 1, AllocStack := (AllocStack s)[AllocSP s + 1 := ?b]\<rparr>"
  have first: "early_malloc sz s = Done (t_brk (cur s)) ?t"
    using early_malloc_run [of s sz] Cons.prems by (simp add: Let_def)
  have "runs (early_mallocs szs) ?t (\<lambda>ps t. length ps = length szs
     \<and> (\<forall>i < length szs. unat (ps ! i) = unat ?b + sum_list (map unat (take i szs)))
     \<and> unat (t_brk (cur t)) = unat ?b + sum_list (map unat szs))"
    using Cons.IH [of ?t] Cons.prems un by (auto simp: word_less_nat_alt upd_task_def)
  with first un show ?case
    by (auto simp: runs_def nth_Cons less_Suc_eq_0_disj)
qed

definition demo_brks :: brks where
  "demo_brks = mmu.extend (demo_mmu\<lparr>MMUReady := False\<rparr>)
     \<lparr>EarlyMallocEnabled = True, AllocStack = replicate 0x1000 0, AllocSP = 0, curbrk = 0\<rparr>"

lemma demo_brks_simps [simp]:
  "\<not> MMUReady demo_brks" "CurrentTask demo_brks = 0x9000" "tasks demo_brks 0x9000 = demo_child"
  "t_brk demo_child = 0x8000" "AllocSP demo_brks = 0" "length (AllocStack demo_brks) = 0x1000"
  "EarlyMallocEnabled demo_brks" "UserTask demo_brks = 0" "sym_KernelTask (syms demo_brks) = 0xC0180000"
  by (simp_all add: demo_brks_def mmu.defs demo_mmu_def procs.defs demo_procs_def frames.defs demo_child_def
      demo_frames_def intr.defs demo_intr_def machine.defs demo_machine_def demo_syms_def)

theorem early_mallocs_contiguous_witness:
  "runs (early_mallocs [0x20, 0x30]) demo_brks (\<lambda>ps t. unat (ps ! 1) = 0x8020)"
proof -
  have "unat (t_brk (cur demo_brks)) + sum_list (map unat [0x20 :: u32, 0x30]) < 0xFFFFE000" by simp
  from early_mallocs_contiguous [of demo_brks "[0x20, 0x30]", OF _ _ this] show ?thesis
    by (auto elim!: runs_weaken)
qed

text \<open>The bookkeeping stack holds the end of each block, but \<^verbatim>\<open>early_free\<close> compares it with the
  start of the block: a block that is not empty is never given back.\<close>

lemma early_free_keeps_block:
  assumes "\<not> MMUReady s" "unat (t_brk (cur s)) + unat sz < 0xFFFFE000" "0 < t_brk (cur s)"
    and "AllocSP s + 1 < length (AllocStack s)" "sz \<noteq> 0"
  shows "runs (kbind (early_malloc sz) early_free) s (\<lambda>_ t. t_brk (cur t) = t_brk (cur s) + sz \<and> AllocSP t = AllocSP s + 1)"
  using early_malloc_run [OF assms(1-4)] assms(4,5)
  by (auto simp: runs_def Let_def early_free_def kwhen_def)

subsection \<open>Allocation as the kernel task\<close>

text \<open>Once the C library's allocator is in use, \<^verbatim>\<open>malloc\<close> called by a user task runs as the kernel
  task (so that the pages it needs go into the kernel's address space), and the user task is current
  again when it returns, if the library's allocator leaves the task pointers alone.\<close>

theorem malloc_runs_as_kernel:
  assumes "\<not> EarlyMallocEnabled s" "CurrentTask s \<noteq> sym_KernelTask (syms s)" "CurrentTask s \<noteq> NULL"
    and "\<And>t. CurrentTask t = sym_KernelTask (syms t) \<Longrightarrow> runs (real_malloc sz) t (\<lambda>m u. CurrentTask u = CurrentTask t
      \<and> UserTask u = UserTask t \<and> P t m)"
  shows "runs (wrap_malloc real_malloc sz) s (\<lambda>m t. CurrentTask t = CurrentTask s
     \<and> P (s\<lparr>UserTask := CurrentTask s, CurrentTask := sym_KernelTask (syms s)\<rparr>) m)"
proof -
  let ?t = "s\<lparr>UserTask := CurrentTask s, CurrentTask := sym_KernelTask (syms s)\<rparr>"
  have "runs (real_malloc sz) ?t (\<lambda>m u. CurrentTask u = CurrentTask ?t \<and> UserTask u = UserTask ?t \<and> P ?t m)"
    by (rule assms(4)) simp
  then show ?thesis using assms(1-3)
    by (auto simp: runs_def wrap_malloc_def enter_kernel_def leave_kernel_def)
qed

theorem malloc_runs_as_kernel_witness:
  "runs (wrap_malloc (\<lambda>_. kget CurrentTask) 8) (demo_brks\<lparr>EarlyMallocEnabled := False\<rparr>)
     (\<lambda>m t. CurrentTask t = 0x9000 \<and> m = 0xC0180000)"
  by (rule runs_weaken [OF malloc_runs_as_kernel [where P = "\<lambda>t m. m = CurrentTask t"]])
    (auto simp: runs_def)

text \<open>\<^verbatim>\<open>leave_kernel\<close> never clears \<^verbatim>\<open>UserTask\<close>: when the kernel task itself allocates after any
  user task has, it comes back from \<^verbatim>\<open>malloc\<close> as that user task.\<close>

lemma malloc_changes_kernel_task:
  assumes "\<not> EarlyMallocEnabled s" "CurrentTask s = sym_KernelTask (syms s)" "UserTask s \<noteq> NULL"
    and "runs (real_malloc sz) s (\<lambda>m u. UserTask u = UserTask s)"
  shows "runs (wrap_malloc real_malloc sz) s (\<lambda>m t. CurrentTask t = UserTask s)"
  using assms by (auto simp: runs_def wrap_malloc_def enter_kernel_def leave_kernel_def)

text \<open>\<^verbatim>\<open>__wrap_free\<close> goes on to the library's \<^verbatim>\<open>free\<close> after \<^verbatim>\<open>early_free\<close>.\<close>

lemma early_wrap_free_calls_library:
  assumes "EarlyMallocEnabled s" "early_free a s = Done () t" "CurrentTask t = sym_KernelTask (syms t)"
  shows "wrap_free real_free a s = kthen (real_free a) leave_kernel t"
  using assms by (simp add: wrap_free_def enter_kernel_def)

subsection \<open>Setting up the frame bitmap\<close>

text \<open>\<^verbatim>\<open>frame_alloc_init\<close> leaves a well-formed bitmap in which every frame is in use, for any memory
  size, provided \<^verbatim>\<open>malloc\<close> gives it memory.\<close>

theorem frame_alloc_init_all_used:
  assumes "\<And>n t. runs (malloc n) t (\<lambda>p u. p \<noteq> NULL \<and> FrameCount u = FrameCount t)"
  shows "runs (frame_alloc_init malloc mem_max) s (\<lambda>_ t. frames_wf t
     \<and> frame_used t = {..<frame_capacity t} \<and> FrameCount t = mem_max div PAGE_SIZE)"
proof -
  let ?n = "ADDR_PAGE mem_max"
  have n: "unat ?n < 2 ^ 20" using unat_lt32 [of mem_max] by (simp add: ADDR_PAGE_def PAGE_SIZE_def unat_div)
  have len: "unat (BIT_IDX ?n) = unat ?n div 32" by (simp add: BIT_IDX_def BITS_PER_ENTRY_def unat_div)
  have "bit (0xFFFFFFFF :: u32) (x mod 32)" for x using full_word [of "x mod 32"] by simp
  then have full: "used (replicate k 0xFFFFFFFF) = {..<32 * k}" for k
    using index_less by (auto simp: used_def)
  obtain p u where u: "malloc (BIT_IDX ?n * 4) (s\<lparr>FrameCount := ?n\<rparr>) = Done p u" "p \<noteq> NULL" "FrameCount u = ?n"
    using assms [of "BIT_IDX ?n * 4" "s\<lparr>FrameCount := ?n\<rparr>"] by (auto simp: runs_def)
  have "frame_alloc_init malloc mem_max s = Done () (u\<lparr>FrameBitmap := replicate (unat ?n div 32) 0xFFFFFFFF, FrameAllocInitialized := True\<rparr>)"
    using u len by (simp add: frame_alloc_init_def)
  then show ?thesis using u(3) n
    by (simp add: runs_def frames_wf_def frame_capacity_def full ADDR_PAGE_def)
qed

theorem frame_alloc_init_all_used_witness:
  "runs (frame_alloc_init (\<lambda>_. kret 0x5000) 0x40000) demo_brks (\<lambda>_ t. frame_used t = {..<frame_capacity t})"
  by (rule runs_weaken [OF frame_alloc_init_all_used]) (simp_all add: runs_def)

end
