(* ===== verification/Fdio.thy ===== *)
theory Fdio
  imports Brk
begin

text \<open>
  File descriptor tables (\<^verbatim>\<open>kernel/io/fdio.c\<close>, \<^verbatim>\<open>fdio.h\<close>). The table of a task is the list of its
  slots (theory Task); an access outside it is \<open>BadAccess\<close>. The address that \<^verbatim>\<open>malloc\<close> returns for
  a descriptor is an argument, \<^verbatim>\<open>free\<close> records the address in \<open>freed\<close>.
\<close>

record ios = brks +
  errno :: nat
  freed :: "u32 set"

definition EBADF :: nat where "EBADF = 9"

definition FD_MAX :: u16 where "FD_MAX = 0xFFFF"

abbreviation upd_cur :: "(task \<Rightarrow> task) \<Rightarrow> 'a procs_scheme \<Rightarrow> 'a procs_scheme" where
  "upd_cur f s \<equiv> upd_task (CurrentTask s) f s"

text \<open>The \<^verbatim>\<open>while\<close> of \<^verbatim>\<open>fd_alloc\<close>: the first empty slot from \<^verbatim>\<open>fdnext\<close> on, or an access past
  the end of the table.\<close>

function fd_scan :: "u32 list \<Rightarrow> nat \<Rightarrow> stop + nat" where
  "fd_scan tbl i = (if length tbl \<le> i then Inl BadAccess
     else if tbl ! i \<noteq> NULL then fd_scan tbl (Suc i) else Inr i)"
  by pat_completeness auto
termination
  by (relation "measure (\<lambda>(tbl, i). length tbl - i)") auto

declare fd_scan.simps [simp del]

definition fd_alloc :: "('a ios_scheme, u16) kern" where
  "fd_alloc s = (case fd_scan (t_fdtbl (cur s)) (unat (t_fdnext (cur s))) of
     Inl e \<Rightarrow> Halt e
   | Inr i \<Rightarrow>
       let s1 = upd_cur (\<lambda>t. t\<lparr>t_fdnext := of_nat i\<rparr>) s;
           oldcap = t_fdcap (cur s1) in
       if oldcap \<le> t_fdnext (cur s1)
       then Done (t_fdnext (cur s1)) (upd_cur (\<lambda>t. t\<lparr>t_fdcap := oldcap * 2,
              t_fdtbl := take (unat oldcap) (t_fdtbl t) @ replicate (unat (oldcap * 2) - unat oldcap) NULL\<rparr>) s1)
       else Done (t_fdnext (cur s1)) s1)"

definition set_slot :: "u16 \<Rightarrow> u32 \<Rightarrow> ('a procs_scheme, unit) kern" where
  "set_slot fd d s = (if length (t_fdtbl (cur s)) \<le> unat fd then Halt BadAccess
     else Done () (upd_cur (\<lambda>t. t\<lparr>t_fdtbl := (t_fdtbl t)[unat fd := d]\<rparr>) s))"

definition get_slot :: "u16 \<Rightarrow> ('a procs_scheme, u32) kern" where
  "get_slot fd s = (if length (t_fdtbl (cur s)) \<le> unat fd then Halt BadAccess
     else Done (t_fdtbl (cur s) ! unat fd) s)"

definition fd_open :: "u32 \<Rightarrow> u32 \<Rightarrow> ('a ios_scheme, u16) kern" where
  "fd_open descr dev =
     kbind fd_alloc (\<lambda>fd.
     kthen (kmod (\<lambda>s. s\<lparr>fdescrs := (fdescrs s)(descr := \<lparr>fd_dev = dev, fd_refs = 1\<rparr>), freed := freed s - {descr}\<rparr>))
    (kthen (set_slot fd descr)
           (kret fd)))"

definition fd_lookup :: "u16 \<Rightarrow> ('a procs_scheme, u32) kern" where
  "fd_lookup fd = get_slot fd"

definition fail :: "nat \<Rightarrow> ('a ios_scheme, int) kern" where
  "fail e = kthen (kmod (\<lambda>s. s\<lparr>errno := e\<rparr>)) (kret (- 1))"

definition fd_dupfd :: "u16 \<Rightarrow> u16 \<Rightarrow> ('a ios_scheme, int) kern" where
  "fd_dupfd from to =
     kbind (get_slot from) (\<lambda>d.
     if d = NULL then fail EBADF
     else kbind (kget (\<lambda>s. fd_scan (t_fdtbl (cur s)) (unat to))) (\<lambda>r.
       case r of Inl e \<Rightarrow> kstop e
       | Inr i \<Rightarrow> kthen (set_slot (of_nat i) d) (kret 0)))"

definition fd_close :: "u16 \<Rightarrow> ('a ios_scheme, int) kern" where
  "fd_close fd =
     kbind (get_slot fd) (\<lambda>d.
     if d = NULL then fail EBADF
     else kthen (kmod (\<lambda>s. s\<lparr>fdescrs := (fdescrs s)(d := (fdescrs s d)\<lparr>fd_refs := fd_refs (fdescrs s d) - 1\<rparr>)\<rparr>))
         (kthen (kmod (\<lambda>s. if fd_refs (fdescrs s d) = 0 then s\<lparr>freed := insert d (freed s)\<rparr> else s))
         (kthen (set_slot fd NULL)
                (kret 0))))"

definition fdio_tbl_init :: "('a ios_scheme, bool) kern" where
  "fdio_tbl_init = kthen (kmod (\<lambda>s. upd_cur (\<lambda>t. t\<lparr>t_fdnext := 0, t_fdcap := 16, t_fdtbl := replicate 16 NULL\<rparr>) s)) (kret True)"

subsection \<open>Scanning the table\<close>

lemma unat_of_nat_u16: "k < unat (c :: u16) \<Longrightarrow> unat (of_nat k :: u16) = k"
proof -
  assume "k < unat c"
  moreover have "unat c < 2 ^ 16" using unsigned_less [of c, where 'a = nat] by simp
  ultimately show ?thesis by (simp add: unat_of_nat)
qed

lemma fd_scan_first:
  assumes "i \<le> j" "j < length tbl" "tbl ! j = NULL"
  shows "\<exists>k. fd_scan tbl i = Inr k \<and> i \<le> k \<and> k \<le> j \<and> tbl ! k = NULL \<and> (\<forall>m. i \<le> m \<and> m < k \<longrightarrow> tbl ! m \<noteq> NULL)"
  using assms
proof (induction tbl i rule: fd_scan.induct)
  case (1 tbl i)
  show ?case
  proof (cases "tbl ! i = NULL")
    case True
    then show ?thesis using "1.prems" by (auto simp: fd_scan.simps [of tbl i])
  next
    case False
    then have "Suc i \<le> j" using "1.prems" by (metis le_neq_implies_less Suc_leI)
    moreover have "\<not> length tbl \<le> i" using "1.prems"(1,2) by simp
    ultimately obtain k where "fd_scan tbl (Suc i) = Inr k" "Suc i \<le> k" "k \<le> j" "tbl ! k = NULL"
      "\<forall>m. Suc i \<le> m \<and> m < k \<longrightarrow> tbl ! m \<noteq> NULL" using "1.IH" [OF _ False] "1.prems"(2,3) by blast
    moreover have "fd_scan tbl i = fd_scan tbl (Suc i)" using False "1.prems" by (simp add: fd_scan.simps [of tbl i])
    ultimately show ?thesis using False by (metis Suc_leD Suc_leI le_neq_implies_less)
  qed
qed

lemma fd_scan_full:
  assumes "\<forall>j. i \<le> j \<and> j < length tbl \<longrightarrow> tbl ! j \<noteq> NULL"
  shows "fd_scan tbl i = Inl BadAccess"
  using assms
proof (induction tbl i rule: fd_scan.induct)
  case (1 tbl i)
  then show ?case by (cases "length tbl \<le> i") (simp_all add: fd_scan.simps [of tbl i])
qed

subsection \<open>Properties\<close>

text \<open>A table as the kernel makes it: \<^verbatim>\<open>fdcap\<close> slots.\<close>

definition fds_ok :: "'a procs_scheme \<Rightarrow> bool" where
  "fds_ok s \<longleftrightarrow> length (t_fdtbl (cur s)) = unat (t_fdcap (cur s))"

definition fd_slot :: "'a procs_scheme \<Rightarrow> nat \<Rightarrow> u32" where
  "fd_slot s i = t_fdtbl (cur s) ! i"

lemma fd_alloc_run:
  assumes "fds_ok s" "unat (t_fdnext (cur s)) \<le> j" "j < length (t_fdtbl (cur s))" "fd_slot s j = NULL"
  shows "\<exists>k. fd_alloc s = Done (of_nat k) (upd_cur (\<lambda>t. t\<lparr>t_fdnext := of_nat k\<rparr>) s)
    \<and> unat (t_fdnext (cur s)) \<le> k \<and> k < length (t_fdtbl (cur s)) \<and> fd_slot s k = NULL
    \<and> (\<forall>m. unat (t_fdnext (cur s)) \<le> m \<and> m < k \<longrightarrow> fd_slot s m \<noteq> NULL)"
proof -
  from fd_scan_first [of "unat (t_fdnext (cur s))" j "t_fdtbl (cur s)"] assms(2-4) obtain k
    where k: "fd_scan (t_fdtbl (cur s)) (unat (t_fdnext (cur s))) = Inr k" "unat (t_fdnext (cur s)) \<le> k" "k \<le> j"
      "t_fdtbl (cur s) ! k = NULL" "\<forall>m. unat (t_fdnext (cur s)) \<le> m \<and> m < k \<longrightarrow> t_fdtbl (cur s) ! m \<noteq> NULL"
    by (auto simp: fd_slot_def)
  have "k < unat (t_fdcap (cur s))" using k(3) assms(1,3) by (simp add: fds_ok_def)
  moreover from this have "unat (of_nat k :: u16) = k" by (rule unat_of_nat_u16)
  ultimately have "of_nat k < t_fdcap (cur s)" by (simp add: word_less_nat_alt)
  then have "fd_alloc s = Done (of_nat k) (upd_cur (\<lambda>t. t\<lparr>t_fdnext := of_nat k\<rparr>) s)"
    using k(1) by (simp add: fd_alloc_def Let_def not_le)
  with k assms(1,3) show ?thesis by (auto simp: fd_slot_def)
qed

text \<open>The state after slot \<open>k\<close> was given to a descriptor \<open>d\<close> for \<open>dev\<close>.\<close>

definition fd_opened :: "nat \<Rightarrow> u32 \<Rightarrow> u32 \<Rightarrow> 'a ios_scheme \<Rightarrow> 'a ios_scheme" where
  "fd_opened k d dev s = upd_cur (\<lambda>t. t\<lparr>t_fdtbl := (t_fdtbl t)[k := d]\<rparr>)
     ((upd_cur (\<lambda>t. t\<lparr>t_fdnext := of_nat k\<rparr>) s)\<lparr>fdescrs := (fdescrs s)(d := \<lparr>fd_dev = dev, fd_refs = 1\<rparr>), freed := freed s - {d}\<rparr>)"

lemma fd_open_run:
  assumes "fds_ok s" "unat (t_fdnext (cur s)) \<le> j" "j < length (t_fdtbl (cur s))" "fd_slot s j = NULL"
  obtains k where "fd_open d dev s = Done (of_nat k) (fd_opened k d dev s)" "unat (of_nat k :: u16) = k"
    "unat (t_fdnext (cur s)) \<le> k" "k \<le> j" "k < length (t_fdtbl (cur s))" "fd_slot s k = NULL"
    "\<forall>m. unat (t_fdnext (cur s)) \<le> m \<and> m < k \<longrightarrow> fd_slot s m \<noteq> NULL"
proof -
  obtain k where k: "fd_alloc s = Done (of_nat k) (upd_cur (\<lambda>t. t\<lparr>t_fdnext := of_nat k\<rparr>) s)"
    "unat (t_fdnext (cur s)) \<le> k" "k < length (t_fdtbl (cur s))" "fd_slot s k = NULL"
    "\<forall>m. unat (t_fdnext (cur s)) \<le> m \<and> m < k \<longrightarrow> fd_slot s m \<noteq> NULL"
    using fd_alloc_run [OF assms] by blast
  have un: "unat (of_nat k :: u16) = k"
    using k(3) assms(1) by (intro unat_of_nat_u16 [of k "t_fdcap (cur s)"]) (simp add: fds_ok_def)
  have "k \<le> j" using k(5) assms(2,4) by (meson not_le_imp_less)
  moreover have "fd_open d dev s = Done (of_nat k) (fd_opened k d dev s)"
    using k(1,3) un by (simp add: fd_open_def fd_opened_def set_slot_def upd_task_def)
  ultimately show thesis using that un k by blast
qed

lemma fd_opened_lookup:
  assumes "k < length (t_fdtbl (cur s))" "unat (of_nat k :: u16) = k"
  shows "fd_lookup (of_nat k) (fd_opened k d dev s) = Done d (fd_opened k d dev s)"
    "fdescrs (fd_opened k d dev s) d = \<lparr>fd_dev = dev, fd_refs = 1\<rparr>"
    "fd_slot (fd_opened k d dev s) m = (if m = k then d else fd_slot s m)"
  using assms by (simp_all add: fd_lookup_def get_slot_def fd_opened_def fd_slot_def nth_list_update)

text \<open>C19: opening a device returns the first free descriptor from \<^verbatim>\<open>fdnext\<close> on; looking it up gives
  the new descriptor object, which refers to the device and has one reference; every other slot is as
  before. Closing it empties the slot and releases the object.\<close>

theorem fd_open_lookup_close:
  assumes "fds_ok s" "unat (t_fdnext (cur s)) \<le> j" "j < length (t_fdtbl (cur s))" "fd_slot s j = NULL" "d \<noteq> NULL"
  shows "runs (fd_open d dev) s (\<lambda>fd t. fds_ok t
     \<and> unat (t_fdnext (cur s)) \<le> unat fd \<and> unat fd \<le> j \<and> fd_slot s (unat fd) = NULL
     \<and> (\<forall>m. unat (t_fdnext (cur s)) \<le> m \<and> m < unat fd \<longrightarrow> fd_slot s m \<noteq> NULL)
     \<and> fd_lookup fd t = Done d t \<and> fdescrs t d = \<lparr>fd_dev = dev, fd_refs = 1\<rparr>
     \<and> (\<forall>m. m \<noteq> unat fd \<longrightarrow> fd_slot t m = fd_slot s m)
     \<and> runs (fd_close fd) t (\<lambda>r u. r = 0 \<and> d \<in> freed u \<and> (\<forall>m. fd_slot u m = fd_slot s m)))"
proof -
  obtain k where k: "fd_open d dev s = Done (of_nat k) (fd_opened k d dev s)" "unat (of_nat k :: u16) = k"
    "unat (t_fdnext (cur s)) \<le> k" "k \<le> j" "k < length (t_fdtbl (cur s))" "fd_slot s k = NULL"
    "\<forall>m. unat (t_fdnext (cur s)) \<le> m \<and> m < k \<longrightarrow> fd_slot s m \<noteq> NULL"
    by (rule fd_open_run [OF assms(1-4), of d dev])
  let ?t = "fd_opened k d dev s"
  have close: "runs (fd_close (of_nat k)) ?t (\<lambda>r u. r = 0 \<and> d \<in> freed u \<and> (\<forall>m. fd_slot u m = fd_slot s m))"
    using k(2,5,6) assms(5)
    by (auto simp: runs_def fd_close_def get_slot_def set_slot_def upd_task_def fd_slot_def fd_opened_def nth_list_update)
  have "fds_ok ?t" using assms(1) by (simp add: fds_ok_def fd_opened_def)
  then show ?thesis
    using k close fd_opened_lookup [OF k(5,2), of d dev] by (auto simp: runs_def)
qed

definition demo_ios :: ios where
  "demo_ios = brks.extend demo_brks \<lparr>errno = 0, freed = {}\<rparr>"

lemma demo_ios_simps [simp]:
  "CurrentTask demo_ios = 0x9000" "tasks demo_ios 0x9000 = demo_child" "t_fdtbl demo_child = [64, 0]"
  "t_fdnext demo_child = 0" "t_fdcap demo_child = 2"
  by (simp_all add: demo_ios_def brks.defs demo_brks_def mmu.defs demo_mmu_def procs.defs demo_procs_def
      frames.defs demo_child_def zero_task_def)

theorem fd_open_lookup_close_witness:
  "runs (fd_open 0x500 0x600) demo_ios (\<lambda>fd t. unat fd \<le> 1 \<and> fd_lookup fd t = Done 0x500 t)"
  by (rule runs_weaken [OF fd_open_lookup_close [of _ 1]])
    (simp_all add: fds_ok_def fd_slot_def)

text \<open>When every slot from \<^verbatim>\<open>fdnext\<close> on is taken, opening a device does not grow the table: the
  search reads past its end first, so the code that doubles the table is never reached.\<close>

theorem fd_open_full_overruns:
  assumes "\<forall>j. unat (t_fdnext (cur s)) \<le> j \<and> j < length (t_fdtbl (cur s)) \<longrightarrow> fd_slot s j \<noteq> NULL"
  shows "fd_open d dev s = Halt BadAccess"
  using fd_scan_full [of "unat (t_fdnext (cur s))" "t_fdtbl (cur s)"] assms
  by (simp add: fd_open_def fd_alloc_def fd_slot_def)

theorem fd_open_full_overruns_witness:
  "fd_open 0x500 0x600 (upd_task 0x9000 (\<lambda>t. t\<lparr>t_fdtbl := [64, 72]\<rparr>) demo_ios) = Halt BadAccess"
  by (rule fd_open_full_overruns) (auto simp: fd_slot_def less_Suc_eq)

text \<open>\<^verbatim>\<open>task_clone\<close> counts a reference for the slots below \<^verbatim>\<open>fdnext\<close>, but \<^verbatim>\<open>fd_open\<close> leaves
  \<^verbatim>\<open>fdnext\<close> at the slot it just filled: the newest descriptor is in both tables with its count
  unchanged, and the first of the two tasks to close it releases it.\<close>

lemma clone_misses_newest_descriptor:
  assumes "fdtbl_ok (cur s)" "clone \<noteq> CurrentTask s" "unat (t_fdnext (cur s)) < unat (t_fdcap (cur s))"
    and "d = fd_slot s (unat (t_fdnext (cur s)))" "d \<notin> set (take (unat (t_fdnext (cur s))) (t_fdtbl (cur s)))"
  shows "runs (task_clone clone) s (\<lambda>_ t. t_fdtbl (tasks t clone) ! unat (t_fdnext (cur s)) = d
     \<and> t_fdtbl (cur t) ! unat (t_fdnext (cur s)) = d \<and> fd_refs (fdescrs t d) = fd_refs (fdescrs s d))"
  using assms task_clone_run [OF assms(1), of clone]
  by (simp add: runs_def clone_fields_def fdtbl_ok_def fd_slot_def add_refs_def count_notin)

text \<open>\<^verbatim>\<open>fd_dupfd\<close> shares the descriptor without counting the new reference, and returns 0 instead of
  the new descriptor.\<close>

lemma dupfd_not_counted:
  assumes "unat from < length (t_fdtbl (cur s))" "fd_slot s (unat from) = d" "d \<noteq> NULL"
    and "unat to < length (t_fdtbl (cur s))" "fd_slot s (unat to) = NULL"
  shows "runs (fd_dupfd from to) s (\<lambda>r t. r = 0 \<and> fd_slot t (unat to) = d \<and> fdescrs t = fdescrs s)"
  using assms
  by (auto simp: runs_def fd_dupfd_def get_slot_def fd_slot_def set_slot_def fd_scan.simps [of _ "unat to"])

end
