(* ===== verification/Fs.thy ===== *)
theory Fs
  imports Fdio
begin

text \<open>
  The in-memory file system (\<^verbatim>\<open>kernel/fs/node.c\<close>, \<^verbatim>\<open>tmpfs.c\<close>, \<^verbatim>\<open>devfs.c\<close> and their headers).
  A node is named by its address; the structure that embeds it (\<^verbatim>\<open>tmpnode_t\<close>, \<^verbatim>\<open>devfsnode_t\<close>,
  \<^verbatim>\<open>cpionode_t\<close>) contributes the field \<open>n_device\<close>. Function pointers are values of small data
  types, with \<open>None\<close> for \<^verbatim>\<open>NULL\<close> and a value for memory that \<^verbatim>\<open>malloc\<close> left as it was.
  Strings are character lists without the terminating zero. \<open>vmem\<close> is memory as the running task
  sees it, the buffers of system calls and the boot archive among it. The allocator
  \<^verbatim>\<open>malloc\<close> is an argument of the routines that call it; the path copy that \<^verbatim>\<open>fs_locate\<close> allocates
  and frees is not modelled.
\<close>

subsection \<open>Strings\<close>

fun strcmp :: "string \<Rightarrow> string \<Rightarrow> int" where
  "strcmp [] [] = 0"
| "strcmp [] (b # bs) = - 1"
| "strcmp (a # as) [] = 1"
| "strcmp (a # as) (b # bs) =
     (if a = b then strcmp as bs else if (of_char a :: nat) < of_char b then - 1 else 1)"

lemma strcmp_eq_0 [simp]: "strcmp a b = 0 \<longleftrightarrow> a = b"
  by (induction a b rule: strcmp.induct) auto

text \<open>The tokens that successive calls of \<^verbatim>\<open>strtok(path, "/")\<close> return.\<close>

definition FS_PATH_DELIM :: char where "FS_PATH_DELIM = CHR ''/''"
definition FS_NAME_MAX :: nat where "FS_NAME_MAX = 128"

function path_tokens :: "string \<Rightarrow> string list" where
  "path_tokens p = (let q = dropWhile (\<lambda>c. c = FS_PATH_DELIM) p in
     if q = [] then []
     else takeWhile (\<lambda>c. c \<noteq> FS_PATH_DELIM) q # path_tokens (dropWhile (\<lambda>c. c \<noteq> FS_PATH_DELIM) q))"
  by pat_completeness auto
termination
proof (relation "measure length")
  show "wf (measure (length :: string \<Rightarrow> nat))" by simp
next
  fix p q :: string
  assume q: "q = dropWhile (\<lambda>c. c = FS_PATH_DELIM) p" "q \<noteq> []"
  then have "hd q \<noteq> FS_PATH_DELIM" using hd_dropWhile [of "\<lambda>c. c = FS_PATH_DELIM" p] by simp
  then have "length (dropWhile (\<lambda>c. c \<noteq> FS_PATH_DELIM) q) < length q"
    using q(2) length_dropWhile_le [of "\<lambda>c. c \<noteq> FS_PATH_DELIM" "tl q"] by (cases q) simp_all
  also have "length q \<le> length p" using q(1) by (simp add: length_dropWhile_le)
  finally show "(dropWhile (\<lambda>c. c \<noteq> FS_PATH_DELIM) q, p) \<in> measure length" by simp
qed

declare path_tokens.simps [simp del]

subsection \<open>Nodes and devices\<close>

datatype fsopen = TmpfsOpen | DevfsOpen | CpiofsOpen
datatype fscreate = TmpfsCreate
datatype fsstat = CpiofsStat | GarbageStat

record fsnode =
  n_name :: string
  n_open :: "fsopen option"
  n_create :: "fscreate option"
  n_stat :: "fsstat option"
  n_parent :: u32
  n_first_child :: u32
  n_next_sibling :: u32
  n_device :: u32

datatype devkind = KConsole | KTmp | KCpio

text \<open>\<open>f_data\<close> is the heap buffer of a \<^verbatim>\<open>tmpfs\<close> file (\<open>None\<close> once freed), \<open>f_base\<close> the address of a
  \<^verbatim>\<open>cpiofs\<close> file's bytes in the archive.\<close>

record filedev =
  f_kind :: devkind
  f_pos :: u32
  f_length :: u32
  f_data :: "u8 list option"
  f_base :: vaddr_t

record fss = ios +
  nodes :: "u32 \<Rightarrow> fsnode option"
  files :: "u32 \<Rightarrow> filedev option"
  vmem :: bytes
  junk :: "nat \<Rightarrow> u8"
  FSRootNode :: u32
  devfs :: u32
  ConsoleDev :: u32

definition get_node :: "u32 \<Rightarrow> ('a fss_scheme, fsnode) kern" where
  "get_node a s = (case nodes s a of None \<Rightarrow> Halt (if a = NULL then NullCall else BadAccess) | Some n \<Rightarrow> Done n s)"

definition set_node :: "u32 \<Rightarrow> fsnode \<Rightarrow> ('a fss_scheme, unit) kern" where
  "set_node a n = kmod (\<lambda>s. s\<lparr>nodes := (nodes s)(a \<mapsto> n)\<rparr>)"

definition get_file :: "u32 \<Rightarrow> ('a fss_scheme, filedev) kern" where
  "get_file a s = (case files s a of None \<Rightarrow> Halt (if a = NULL then NullCall else BadAccess) | Some n \<Rightarrow> Done n s)"

definition set_file :: "u32 \<Rightarrow> filedev \<Rightarrow> ('a fss_scheme, unit) kern" where
  "set_file a n = kmod (\<lambda>s. s\<lparr>files := (files s)(a \<mapsto> n)\<rparr>)"

definition fs_child_iter :: "u32 \<Rightarrow> u32 \<Rightarrow> ('a fss_scheme, u32) kern" where
  "fs_child_iter parent nxt =
     (if nxt = NULL then kbind (get_node parent) (\<lambda>p. kret (n_first_child p))
      else kbind (get_node nxt) (\<lambda>n. kret (n_next_sibling n)))"

text \<open>The inner loop of \<^verbatim>\<open>fs_locate\<close>: from the child found last (\<^verbatim>\<open>NULL\<close> at first) to the next one
  with the name, or \<^verbatim>\<open>NULL\<close>.\<close>

partial_function (option) child_named ::
  "u32 \<Rightarrow> string \<Rightarrow> u32 \<Rightarrow> 'a fss_scheme \<Rightarrow> (stop + u32 \<times> 'a fss_scheme) option" where
  "child_named node tok child s =
     kbind (fs_child_iter node child) (\<lambda>c.
     if c = NULL then kret NULL
     else kbind (get_node c) (\<lambda>n. if strcmp tok (n_name n) = 0 then kret c else child_named node tok c)) s"

fun locate_from :: "u32 \<Rightarrow> string list \<Rightarrow> ('a fss_scheme, u32) kern" where
  "locate_from node [] = kret node"
| "locate_from node (tok # toks) = kbind (child_named node tok NULL) (\<lambda>child.
     if child = NULL then kret NULL else locate_from child toks)"

text \<open>A path without a name gives \<^verbatim>\<open>strtok\<close> no token: the first \<^verbatim>\<open>strcmp\<close> is then passed \<^verbatim>\<open>NULL\<close>.\<close>

definition fs_locate :: "u32 \<Rightarrow> string \<Rightarrow> ('a fss_scheme, u32) kern" where
  "fs_locate origin path =
     (case path_tokens path of
        [] \<Rightarrow> kbind (fs_child_iter origin NULL) (\<lambda>c. if c = NULL then kret NULL else kstop NullCall)
      | toks \<Rightarrow> locate_from origin toks)"

partial_function (option) link_pos ::
  "string \<Rightarrow> u32 \<Rightarrow> 'a fss_scheme \<Rightarrow> (stop + u32 \<times> 'a fss_scheme) option" where
  "link_pos name i s =
     (if i = NULL then Done NULL s
      else kbind (get_node i) (\<lambda>n. if strcmp (n_name n) name < 0 then link_pos name (n_next_sibling n) else kret i) s)"

definition fs_link_child :: "u32 \<Rightarrow> u32 \<Rightarrow> ('a fss_scheme, unit) kern" where
  "fs_link_child parent child =
     kbind (get_node parent) (\<lambda>p.
     if n_first_child p = NULL then set_node parent (p\<lparr>n_first_child := child\<rparr>)
     else kbind (get_node child) (\<lambda>c.
       kbind (link_pos (n_name c) (n_first_child p)) (\<lambda>i.
       if i = NULL then
         kthen (set_node parent (p\<lparr>n_first_child := child\<rparr>))
         (kbind (get_node child) (\<lambda>c. set_node child (c\<lparr>n_next_sibling := n_first_child p\<rparr>)))
       else kbind (get_node i) (\<lambda>n.
         kthen (set_node i (n\<lparr>n_next_sibling := child\<rparr>))
         (kbind (get_node child) (\<lambda>c. set_node child (c\<lparr>n_next_sibling := n_next_sibling n\<rparr>)))))))"

subsection \<open>\<^verbatim>\<open>tmpfs\<close>\<close>

definition tmpfs_dir_tmpl :: fsnode where
  "tmpfs_dir_tmpl = \<lparr>n_name = '''', n_open = None, n_create = Some TmpfsCreate, n_stat = None,
     n_parent = NULL, n_first_child = NULL, n_next_sibling = NULL, n_device = 0\<rparr>"

definition tmpfs_file_tmpl :: fsnode where
  "tmpfs_file_tmpl = \<lparr>n_name = '''', n_open = Some TmpfsOpen, n_create = None, n_stat = None,
     n_parent = NULL, n_first_child = NULL, n_next_sibling = NULL, n_device = 0\<rparr>"

text \<open>\<^verbatim>\<open>strcpy(node->name, name)\<close> into 128 characters.\<close>

definition name_fits :: "string \<Rightarrow> ('s, unit) kern" where
  "name_fits name = kguard (length name < FS_NAME_MAX) BadAccess"

definition SIZEOF_FSNODE :: u32 where "SIZEOF_FSNODE = 156"
definition SIZEOF_FILENODE :: u32 where "SIZEOF_FILENODE = 160"
definition SIZEOF_TMPFILEDEV :: u32 where "SIZEOF_TMPFILEDEV = 32"

type_synonym 's malloc_t = "u32 \<Rightarrow> ('s, u32) kern"

definition tmpfs_create :: "'a fss_scheme malloc_t \<Rightarrow> string \<Rightarrow> ('a fss_scheme, u32) kern" where
  "tmpfs_create malloc name =
     kbind (malloc SIZEOF_FSNODE) (\<lambda>tmpfs.
     kthen (kguard (tmpfs \<noteq> NULL) NullCall)
    (kthen (name_fits name)
    (kthen (set_node tmpfs (tmpfs_dir_tmpl\<lparr>n_name := name\<rparr>))
           (kret tmpfs))))"

definition tmpfs_create_file :: "'a fss_scheme malloc_t \<Rightarrow> u32 \<Rightarrow> string \<Rightarrow> ('a fss_scheme, u32) kern" where
  "tmpfs_create_file malloc parent name =
     kbind (malloc SIZEOF_TMPFILEDEV) (\<lambda>file.
     kthen (kguard (file \<noteq> NULL) NullCall)
    (kthen (set_file file \<lparr>f_kind = KTmp, f_pos = 0, f_length = 0, f_data = Some [], f_base = 0\<rparr>)
    (kbind (malloc 0) (\<lambda>_.
     kbind (malloc SIZEOF_FILENODE) (\<lambda>node.
     kthen (kguard (node \<noteq> NULL) NullCall)
    (kthen (name_fits name)
    (kthen (set_node node (tmpfs_file_tmpl\<lparr>n_name := name, n_device := file\<rparr>))
    (kthen (fs_link_child parent node)
           (kret node)))))))))"

definition tmpfs_open_file :: "u32 \<Rightarrow> ('a fss_scheme, u32) kern" where
  "tmpfs_open_file node = kbind (get_node node) (\<lambda>n. kret (n_device n))"

text \<open>\<^verbatim>\<open>realloc\<close> keeps the bytes both blocks have and leaves the others as the heap had them.\<close>

definition realloc_bytes :: "(nat \<Rightarrow> u8) \<Rightarrow> u8 list \<Rightarrow> nat \<Rightarrow> u8 list" where
  "realloc_bytes jk d n = take n d @ map jk [length d..<n]"

definition put_bytes :: "u8 list \<Rightarrow> nat \<Rightarrow> u8 list \<Rightarrow> u8 list" where
  "put_bytes d p bs = take p d @ bs @ drop (p + length bs) d"

definition buf_bytes :: "bytes \<Rightarrow> vaddr_t \<Rightarrow> nat \<Rightarrow> u8 list" where
  "buf_bytes m a n = map (\<lambda>k. m (a + of_nat k)) [0..<n]"

definition buf_put :: "bytes \<Rightarrow> vaddr_t \<Rightarrow> u8 list \<Rightarrow> bytes" where
  "buf_put m a bs = (\<lambda>x. if unat (x - a) < length bs then bs ! unat (x - a) else m x)"

definition tmpfs_write_file :: "u32 \<Rightarrow> vaddr_t \<Rightarrow> u32 \<Rightarrow> ('a fss_scheme, u32) kern" where
  "tmpfs_write_file file buf nbyte =
     kbind (get_file file) (\<lambda>f.
     kbind (kget (\<lambda>s. (junk s, buf_bytes (vmem s) buf (unat nbyte)))) (\<lambda>(jk, bs).
     case f_data f of None \<Rightarrow> kstop BadAccess
     | Some d \<Rightarrow>
         let f1 = (if f_length f < f_pos f + nbyte
                   then f\<lparr>f_data := Some (realloc_bytes jk d (unat (f_pos f + nbyte))), f_length := f_pos f + nbyte\<rparr>
                   else f);
             d1 = the (f_data f1) in
         kthen (kguard (unat (f_pos f) + unat nbyte \<le> length d1) BadAccess)
        (kthen (set_file file (f1\<lparr>f_data := Some (put_bytes d1 (unat (f_pos f)) bs), f_pos := f_pos f + nbyte\<rparr>))
               (kret nbyte))))"

definition tmpfs_read_file :: "u32 \<Rightarrow> vaddr_t \<Rightarrow> u32 \<Rightarrow> ('a fss_scheme, u32) kern" where
  "tmpfs_read_file file buf nbyte =
     kbind (get_file file) (\<lambda>f.
     case f_data f of None \<Rightarrow> kstop BadAccess
     | Some d \<Rightarrow>
         let n = (if f_length f < f_pos f + nbyte then f_length f - f_pos f else nbyte) in
         kthen (kguard (unat (f_pos f) + unat n \<le> length d) BadAccess)
        (kthen (kmod (\<lambda>s. s\<lparr>vmem := buf_put (vmem s) buf (take (unat n) (drop (unat (f_pos f)) d))\<rparr>))
        (kthen (set_file file (f\<lparr>f_pos := f_pos f + n\<rparr>))
               (kret n))))"

definition SEEK_SET :: u32 where "SEEK_SET = 0"
definition SEEK_CUR :: u32 where "SEEK_CUR = 1"
definition SEEK_END :: u32 where "SEEK_END = 2"

definition file_seek :: "u32 \<Rightarrow> u32 \<Rightarrow> u32 \<Rightarrow> ('a fss_scheme, u32) kern" where
  "file_seek file offset whence =
     kbind (get_file file) (\<lambda>f.
     let p = (if whence = SEEK_SET then offset
              else if whence = SEEK_CUR then f_pos f + offset
              else if whence = SEEK_END then f_length f - offset
              else f_pos f) in
     kthen (set_file file (f\<lparr>f_pos := p\<rparr>)) (kret p))"

definition tmpfs_seek_file :: "u32 \<Rightarrow> u32 \<Rightarrow> u32 \<Rightarrow> ('a fss_scheme, u32) kern" where
  "tmpfs_seek_file = file_seek"

definition tmpfs_close_file :: "u32 \<Rightarrow> ('a fss_scheme, unit) kern" where
  "tmpfs_close_file file = kbind (get_file file) (\<lambda>f.
     case f_data f of None \<Rightarrow> kstop BadAccess | Some _ \<Rightarrow> set_file file (f\<lparr>f_data := None\<rparr>))"

subsection \<open>\<^verbatim>\<open>devfs\<close> and the root\<close>

definition devfs_init_node :: fsnode where
  "devfs_init_node = \<lparr>n_name = ''dev'', n_open = None, n_create = None, n_stat = None,
     n_parent = NULL, n_first_child = NULL, n_next_sibling = NULL, n_device = 0\<rparr>"

definition devfs_get :: "('a fss_scheme, u32) kern" where
  "devfs_get = kget devfs"

definition devfs_register_device :: "'a fss_scheme malloc_t \<Rightarrow> string \<Rightarrow> u32 \<Rightarrow> ('a fss_scheme, unit) kern" where
  "devfs_register_device malloc devname device =
     kbind (malloc SIZEOF_FILENODE) (\<lambda>node.
     kthen (kguard (node \<noteq> NULL) NullCall)
    (kthen (name_fits devname)
    (kthen (set_node node \<lparr>n_name = devname, n_open = Some DevfsOpen, n_create = None, n_stat = Some GarbageStat,
       n_parent = NULL, n_first_child = NULL, n_next_sibling = NULL, n_device = device\<rparr>)
    (kbind (kget devfs) (\<lambda>d. fs_link_child d node)))))"

text \<open>\<^verbatim>\<open>console_open\<close>, the only device's \<^verbatim>\<open>open\<close>, returns 0 and does nothing else; the other two
  kinds have no \<^verbatim>\<open>open\<close>.\<close>

definition devfs_open_dev :: "u32 \<Rightarrow> ('a fss_scheme, u32) kern" where
  "devfs_open_dev node =
     kbind (get_node node) (\<lambda>n.
     kbind (get_file (n_device n)) (\<lambda>d.
     case f_kind d of KConsole \<Rightarrow> kret (n_device n) | _ \<Rightarrow> kstop NullCall))"

definition fs_create_rootfs :: "'a fss_scheme malloc_t \<Rightarrow> ('a fss_scheme, unit) kern" where
  "fs_create_rootfs malloc =
     kbind (tmpfs_create malloc ''root'') (\<lambda>root.
     kthen (kmod (\<lambda>s. s\<lparr>FSRootNode := root\<rparr>))
    (kbind devfs_get (\<lambda>d. fs_link_child root d)))"

subsection \<open>Sibling lists\<close>

text \<open>\<open>sibs N n cs\<close>: the \<^verbatim>\<open>next_sibling\<close> chain from \<open>n\<close> to \<^verbatim>\<open>NULL\<close> is \<open>cs\<close>; \<open>children N p cs\<close>: the children
  of \<open>p\<close> are \<open>cs\<close>.\<close>

fun sibs :: "(u32 \<Rightarrow> fsnode option) \<Rightarrow> u32 \<Rightarrow> u32 list \<Rightarrow> bool" where
  "sibs N n [] \<longleftrightarrow> n = NULL"
| "sibs N n (c # cs) \<longleftrightarrow> n = c \<and> c \<noteq> NULL \<and> (case N c of None \<Rightarrow> False | Some nd \<Rightarrow> sibs N (n_next_sibling nd) cs)"

definition children :: "(u32 \<Rightarrow> fsnode option) \<Rightarrow> u32 \<Rightarrow> u32 list \<Rightarrow> bool" where
  "children N p cs \<longleftrightarrow> (case N p of None \<Rightarrow> False | Some nd \<Rightarrow> sibs N (n_first_child nd) cs)"

definition name_of :: "(u32 \<Rightarrow> fsnode option) \<Rightarrow> u32 \<Rightarrow> string" where
  "name_of N c = (case N c of None \<Rightarrow> [] | Some nd \<Rightarrow> n_name nd)"

lemma sibs_upd [simp]: "a \<notin> set cs \<Longrightarrow> sibs (N(a \<mapsto> x)) n cs = sibs N n cs"
  by (induction N n cs rule: sibs.induct) (auto split: option.splits)

lemma sibs_not_null: "sibs N n cs \<Longrightarrow> NULL \<notin> set cs"
  by (induction N n cs rule: sibs.induct) (auto split: option.splits)

lemma sibs_null [simp]: "sibs N NULL cs \<longleftrightarrow> cs = []"
  by (cases cs) auto

lemma sibs_node: "sibs N n cs \<Longrightarrow> c \<in> set cs \<Longrightarrow> \<exists>nd. N c = Some nd"
  by (induction N n cs rule: sibs.induct) (auto split: option.splits)

definition before :: "(u32 \<Rightarrow> fsnode option) \<Rightarrow> string \<Rightarrow> u32 \<Rightarrow> bool" where
  "before N name c \<longleftrightarrow> strcmp (name_of N c) name < 0"

lemma link_pos_run:
  "sibs (nodes s) i cs \<Longrightarrow> link_pos name i s =
     Done (case dropWhile (before (nodes s) name) cs of [] \<Rightarrow> NULL | c # _ \<Rightarrow> c) s"
proof (induction cs arbitrary: i)
  case Nil
  then show ?case by (simp add: link_pos.simps [of name NULL s])
next
  case (Cons c cs)
  then obtain nd where "i = c" "c \<noteq> NULL" "nodes s c = Some nd" "sibs (nodes s) (n_next_sibling nd) cs"
    by (auto split: option.splits)
  then show ?case using Cons.IH
    by (simp add: link_pos.simps [of name c s] get_node_def before_def name_of_def)
qed

text \<open>Where \<^verbatim>\<open>fs_link_child\<close> puts the new child.\<close>

definition link_list :: "(u32 \<Rightarrow> fsnode option) \<Rightarrow> string \<Rightarrow> u32 \<Rightarrow> u32 list \<Rightarrow> u32 list" where
  "link_list N name child cs = (case dropWhile (before N name) cs of
     [] \<Rightarrow> child # cs | c # rest \<Rightarrow> takeWhile (before N name) cs @ c # child # rest)"

lemma sibs_insert_after:
  assumes "sibs N n (as @ c # bs)" "distinct (as @ c # bs)" "child \<notin> set (as @ c # bs)" "child \<noteq> NULL" "N c = Some nc"
  shows "sibs (N(c \<mapsto> nc\<lparr>n_next_sibling := child\<rparr>, child \<mapsto> ch\<lparr>n_next_sibling := n_next_sibling nc\<rparr>)) n (as @ c # child # bs)"
proof -
  define N' where "N' = N(c \<mapsto> nc\<lparr>n_next_sibling := child\<rparr>, child \<mapsto> ch\<lparr>n_next_sibling := n_next_sibling nc\<rparr>)"
  have at: "N' c = Some (nc\<lparr>n_next_sibling := child\<rparr>)" "N' child = Some (ch\<lparr>n_next_sibling := n_next_sibling nc\<rparr>)"
    "\<And>x. x \<noteq> c \<Longrightarrow> x \<noteq> child \<Longrightarrow> N' x = N x" and keep: "\<And>n ds. c \<notin> set ds \<Longrightarrow> child \<notin> set ds \<Longrightarrow> sibs N' n ds = sibs N n ds"
    using assms(3) by (auto simp: N'_def)
  have "sibs N' n (as @ c # child # bs)"
    using assms
  proof (induction as arbitrary: n)
    case Nil
    then show ?case using at keep [of bs] by auto
  next
    case (Cons a as)
    then obtain nd where "N a = Some nd" "sibs N (n_next_sibling nd) (as @ c # bs)" by (auto split: option.splits)
    with Cons at(3) [of a] show ?case by auto
  qed
  then show ?thesis by (simp only: N'_def)
qed

text \<open>What linking leaves alone of a node.\<close>

definition node_body :: "fsnode \<Rightarrow> string \<times> fsopen option \<times> fscreate option \<times> fsstat option \<times> u32" where
  "node_body n = (n_name n, n_open n, n_create n, n_stat n, n_device n)"

lemma node_body_links [simp]:
  "node_body (n\<lparr>n_first_child := c\<rparr>) = node_body n" "node_body (n\<lparr>n_next_sibling := c\<rparr>) = node_body n"
  by (simp_all add: node_body_def)

lemma fs_link_child_run:
  assumes "children (nodes s) p cs" "distinct cs" "p \<notin> set cs" "child \<notin> insert p (set cs)" "child \<noteq> NULL"
    and "nodes s child = Some ch" "n_next_sibling ch = NULL"
  shows "runs (fs_link_child p child) s (\<lambda>_ t. children (nodes t) p (link_list (nodes s) (n_name ch) child cs)
     \<and> (\<forall>x. name_of (nodes t) x = name_of (nodes s) x)
     \<and> (\<forall>x. map_option node_body (nodes t x) = map_option node_body (nodes s x))
     \<and> (\<forall>x. x \<notin> {p, child} \<union> set cs \<longrightarrow> nodes t x = nodes s x) \<and> t = s\<lparr>nodes := nodes t\<rparr>)"
proof -
  let ?N = "nodes s"
  obtain nd where p: "?N p = Some nd" "sibs ?N (n_first_child nd) cs"
    using assms(1) by (auto simp: children_def split: option.splits)
  show ?thesis
  proof (cases cs)
    case Nil
    then have run: "fs_link_child p child s = Done () (s\<lparr>nodes := ?N(p \<mapsto> nd\<lparr>n_first_child := child\<rparr>)\<rparr>)"
      using p by (simp add: fs_link_child_def get_node_def set_node_def)
    show ?thesis
      by (rule runsI, rule run)
        (use Nil p assms in \<open>auto simp: children_def link_list_def name_of_def\<close>)
  next
    case (Cons c0 cs0)
    then have first: "n_first_child nd \<noteq> NULL" using p(2) by auto
    show ?thesis
    proof (cases "dropWhile (before ?N (n_name ch)) cs")
      case Nil
      have "link_pos (n_name ch) (n_first_child nd) s = Done NULL s"
        using link_pos_run [OF p(2), of "n_name ch"] by (simp only: Nil list.case)
      then have run: "fs_link_child p child s = Done () (s\<lparr>nodes := ?N(p \<mapsto> nd\<lparr>n_first_child := child\<rparr>,
          child \<mapsto> ch\<lparr>n_next_sibling := n_first_child nd\<rparr>)\<rparr>)"
        using p first assms(4,6)
        by (simp add: fs_link_child_def get_node_def set_node_def)
      have "link_list ?N (n_name ch) child cs = child # cs" by (simp only: link_list_def Nil list.case)
      moreover have "sibs (?N(p \<mapsto> nd\<lparr>n_first_child := child\<rparr>, child \<mapsto> ch\<lparr>n_next_sibling := n_first_child nd\<rparr>)) (n_first_child nd) cs"
        using p assms(3,4) by simp
      ultimately show ?thesis
        by (intro runsI [of "fs_link_child p child" s, OF run])
          (use p assms in \<open>auto simp: children_def name_of_def simp del: sibs_upd\<close>)
    next
      case (Cons c rest)
      have split: "cs = takeWhile (before ?N (n_name ch)) cs @ c # rest"
        using Cons takeWhile_dropWhile_id [of "before ?N (n_name ch)" cs] by simp
      then have cin: "c \<in> set cs" by (metis in_set_conv_decomp)
      then obtain nc where nc: "?N c = Some nc" using sibs_node [OF p(2)] by blast
      have "c \<noteq> NULL" using sibs_not_null [OF p(2)] cin by auto
      moreover have "child \<noteq> c" using cin assms(4) by auto
      moreover have "link_pos (n_name ch) (n_first_child nd) s = Done c s"
        using link_pos_run [OF p(2), of "n_name ch"] by (simp only: Cons list.case)
      ultimately have run: "fs_link_child p child s = Done () (s\<lparr>nodes := ?N(c \<mapsto> nc\<lparr>n_next_sibling := child\<rparr>,
          child \<mapsto> ch\<lparr>n_next_sibling := n_next_sibling nc\<rparr>)\<rparr>)"
        using p first assms(4,6) cin nc
        by (simp add: fs_link_child_def get_node_def set_node_def)
      have "sibs (?N(c \<mapsto> nc\<lparr>n_next_sibling := child\<rparr>, child \<mapsto> ch\<lparr>n_next_sibling := n_next_sibling nc\<rparr>))
          (n_first_child nd) (link_list ?N (n_name ch) child cs)"
        using sibs_insert_after [of ?N "n_first_child nd" "takeWhile (before ?N (n_name ch)) cs" c rest child nc ch]
          p(2) split assms(2,4,5) nc Cons by (simp add: link_list_def)
      then show ?thesis
        by (intro runsI [of "fs_link_child p child" s, OF run])
          (use p assms cin nc in \<open>auto simp: children_def name_of_def\<close>)
    qed
  qed
qed

lemma link_list_cases:
  obtains "link_list N name child cs = child # cs"
  | as c bs where "cs = as @ c # bs" "link_list N name child cs = as @ c # child # bs"
proof (cases "dropWhile (before N name) cs")
  case Nil
  then have "link_list N name child cs = child # cs" by (simp only: link_list_def list.case)
  with that(1) show ?thesis .
next
  case (Cons c bs)
  then have "link_list N name child cs = takeWhile (before N name) cs @ c # child # bs"
    by (simp only: link_list_def list.case)
  moreover have "cs = takeWhile (before N name) cs @ c # bs"
    using takeWhile_dropWhile_id [of "before N name" cs] unfolding Cons by (rule sym)
  ultimately show ?thesis using that(2) by blast
qed

lemma link_list_perm:
  "set (link_list N name child cs) = insert child (set cs)"
  "distinct cs \<Longrightarrow> child \<notin> set cs \<Longrightarrow> distinct (link_list N name child cs)"
  by (rule link_list_cases [of N name child cs]; auto)+

subsection \<open>Looking up names\<close>

lemma child_named_run:
  assumes "if c = NULL then children (nodes s) p cs
    else (case nodes s c of None \<Rightarrow> False | Some n \<Rightarrow> sibs (nodes s) (n_next_sibling n) cs)"
  shows "child_named p tok c s =
    Done (case List.find (\<lambda>c. name_of (nodes s) c = tok) cs of None \<Rightarrow> NULL | Some x \<Rightarrow> x) s"
  using assms
proof (induction cs arbitrary: c)
  case Nil
  then have "fs_child_iter p c s = Done NULL s"
    by (auto simp: fs_child_iter_def get_node_def children_def split: if_splits option.splits)
  then show ?case by (simp add: child_named.simps [of p tok c s])
next
  case (Cons x cs)
  then have "fs_child_iter p c s = Done x s" and x: "x \<noteq> NULL"
    by (auto simp: fs_child_iter_def get_node_def children_def split: if_splits option.splits)
  moreover obtain n where n: "nodes s x = Some n" "sibs (nodes s) (n_next_sibling n) cs"
    using Cons.prems by (auto simp: children_def split: if_splits option.splits)
  ultimately have "child_named p tok c s = (if tok = n_name n then Done x s else child_named p tok x s)"
    by (simp add: child_named.simps [of p tok c s] get_node_def)
  with Cons.IH [of x] x n show ?case by (auto simp: name_of_def)
qed

text \<open>\<open>resolves N n toks r\<close>: following the names \<open>toks\<close> from node \<open>n\<close>, each time to the first child of that
  name, leads to \<open>r\<close>, or \<open>r\<close> is \<^verbatim>\<open>NULL\<close> because a name is missing on the way.\<close>

fun resolves :: "(u32 \<Rightarrow> fsnode option) \<Rightarrow> u32 \<Rightarrow> string list \<Rightarrow> u32 \<Rightarrow> bool" where
  "resolves N n [] r \<longleftrightarrow> r = n"
| "resolves N n (tok # toks) r \<longleftrightarrow> (\<exists>cs. children N n cs \<and>
     (case List.find (\<lambda>c. name_of N c = tok) cs of None \<Rightarrow> r = NULL | Some x \<Rightarrow> resolves N x toks r))"

lemma locate_from_run: "resolves (nodes s) n toks r \<Longrightarrow> locate_from n toks s = Done r s"
proof (induction toks arbitrary: n)
  case Nil
  then show ?case by simp
next
  case (Cons tok toks)
  then obtain cs where cs: "children (nodes s) n cs" by auto
  have find_not_null: "x \<noteq> NULL" if "List.find (\<lambda>c. name_of (nodes s) c = tok) ds = Some x" "children (nodes s) n ds" for x ds
    using that sibs_not_null by (fastforce simp: find_Some_iff children_def in_set_conv_nth split: option.splits)
  obtain ds where ds: "children (nodes s) n ds"
    "case List.find (\<lambda>c. name_of (nodes s) c = tok) ds of None \<Rightarrow> r = NULL | Some x \<Rightarrow> resolves (nodes s) x toks r"
    using Cons.prems by auto
  note run = child_named_run [of NULL s n ds tok]
  show ?case
  proof (cases "List.find (\<lambda>c. name_of (nodes s) c = tok) ds")
    case None
    then show ?thesis using run ds by simp
  next
    case (Some x)
    then show ?thesis using run ds find_not_null [OF Some ds(1)] Cons.IH [of x] by simp
  qed
qed

lemma path_tokens_name:
  assumes "nm \<noteq> []" "FS_PATH_DELIM \<notin> set nm"
  shows "path_tokens nm = [nm]"
proof -
  have "dropWhile (\<lambda>c. c = FS_PATH_DELIM) nm = nm" "takeWhile (\<lambda>c. c \<noteq> FS_PATH_DELIM) nm = nm"
    "dropWhile (\<lambda>c. c \<noteq> FS_PATH_DELIM) nm = []"
    using assms by (cases nm, auto simp: takeWhile_eq_all_conv dropWhile_eq_Nil_conv)+
  moreover have "path_tokens [] = []" by (simp add: path_tokens.simps [of "[]"])
  ultimately show ?thesis using assms(1) by (subst path_tokens.simps) (simp only: Let_def if_False)
qed

text \<open>Looking up a path with at least one name in it always ends, with the node that the names lead
  to (each to the first child of that name) or with \<^verbatim>\<open>NULL\<close> when one is missing, and changes nothing.\<close>

theorem fs_locate_follows_names:
  assumes "path_tokens path \<noteq> []" "resolves (nodes s) origin (path_tokens path) r"
  shows "fs_locate origin path s = Done r s"
proof -
  obtain tok toks where "path_tokens path = tok # toks" using assms(1) by (cases "path_tokens path") auto
  then show ?thesis using locate_from_run [OF assms(2)] by (simp only: fs_locate_def list.case)
qed

subsection \<open>A concrete file system\<close>

definition demo_fss :: fss where
  "demo_fss = ios.extend demo_ios \<lparr>
     nodes = [0x100 \<mapsto> tmpfs_dir_tmpl\<lparr>n_name := ''root'', n_first_child := 0x200\<rparr>,
              0x200 \<mapsto> tmpfs_file_tmpl\<lparr>n_name := ''b'', n_device := 0x800\<rparr>,
              0x300 \<mapsto> tmpfs_file_tmpl\<lparr>n_name := ''a'', n_device := 0x900\<rparr>],
     files = [0x800 \<mapsto> \<lparr>f_kind = KTmp, f_pos = 1, f_length = 2, f_data = Some [7, 8], f_base = 0\<rparr>],
     vmem = (\<lambda>a. ucast a), junk = (\<lambda>_. 0xEE), FSRootNode = 0x100, devfs = 0x400, ConsoleDev = 0x500\<rparr>"

lemma demo_fss_simps [simp]:
  "nodes demo_fss = [0x100 \<mapsto> tmpfs_dir_tmpl\<lparr>n_name := ''root'', n_first_child := 0x200\<rparr>,
              0x200 \<mapsto> tmpfs_file_tmpl\<lparr>n_name := ''b'', n_device := 0x800\<rparr>,
              0x300 \<mapsto> tmpfs_file_tmpl\<lparr>n_name := ''a'', n_device := 0x900\<rparr>]"
  "files demo_fss = [0x800 \<mapsto> \<lparr>f_kind = KTmp, f_pos = 1, f_length = 2, f_data = Some [7, 8], f_base = 0\<rparr>]"
  "vmem demo_fss = (\<lambda>a. ucast a)" "FSRootNode demo_fss = 0x100"
  by (simp_all add: demo_fss_def ios.defs)

lemma demo_children: "children (nodes demo_fss) 0x100 [0x200]"
  by (simp add: children_def tmpfs_dir_tmpl_def tmpfs_file_tmpl_def)

theorem fs_locate_follows_names_witness:
  "fs_locate 0x100 ''/b'' demo_fss = Done 0x200 demo_fss"
proof (rule fs_locate_follows_names)
  have toks: "path_tokens ''/b'' = [''b'']"
    by (subst path_tokens.simps, subst path_tokens.simps) (simp add: FS_PATH_DELIM_def Let_def)
  then show "path_tokens ''/b'' \<noteq> []" by simp
  show "resolves (nodes demo_fss) 0x100 (path_tokens ''/b'') 0x200"
    unfolding toks resolves.simps
    by (intro exI [of _ "[0x200]"] conjI demo_children) (simp add: name_of_def tmpfs_file_tmpl_def)
qed

subsection \<open>Linking\<close>

lemma locate_child:
  assumes "children (nodes t) p ds" "c \<in> set ds" "inj_on (name_of (nodes t)) (set ds)" "distinct ds"
    and nm: "name_of (nodes t) c \<noteq> []" "FS_PATH_DELIM \<notin> set (name_of (nodes t) c)"
  shows "fs_locate p (name_of (nodes t) c) t = Done c t"
proof -
  have "List.find (\<lambda>x. name_of (nodes t) x = name_of (nodes t) c) ds = Some c"
    using assms(2-4) by (intro find_unique) (simp_all add: distinct_map)
  then have "resolves (nodes t) p [name_of (nodes t) c] c" using assms(1) by auto
  from locate_from_run [OF this] show ?thesis
    by (simp only: fs_locate_def path_tokens_name [OF nm] list.case)
qed

text \<open>C20: linking a new node into a directory keeps every child of the directory and adds the new one, and
  nothing else of the tree changes its name; after it the new node and all the old children are found
  by their names, as long as the names are distinct and are not paths.\<close>

theorem fs_link_then_locate:
  assumes "children (nodes s) p cs" "distinct cs" "p \<notin> set cs" "child \<notin> insert p (set cs)" "child \<noteq> NULL"
    and "nodes s child = Some ch" "n_next_sibling ch = NULL" "inj_on (name_of (nodes s)) (insert child (set cs))"
  shows "runs (fs_link_child p child) s (\<lambda>_ t. (\<exists>ds. children (nodes t) p ds \<and> distinct ds \<and> set ds = insert child (set cs))
     \<and> (\<forall>x. name_of (nodes t) x = name_of (nodes s) x)
     \<and> (\<forall>c \<in> insert child (set cs). name_of (nodes s) c \<noteq> [] \<and> FS_PATH_DELIM \<notin> set (name_of (nodes s) c) \<longrightarrow>
          fs_locate p (name_of (nodes s) c) t = Done c t))"
proof (rule runs_weaken [OF fs_link_child_run [OF assms(1-7)]], elim conjE)
  fix t
  assume t: "children (nodes t) p (link_list (nodes s) (n_name ch) child cs)" "\<forall>x. name_of (nodes t) x = name_of (nodes s) x"
  let ?ds = "link_list (nodes s) (n_name ch) child cs"
  have set: "set ?ds = insert child (set cs)" "distinct ?ds" using link_list_perm assms(2,4) by auto
  have inj: "inj_on (name_of (nodes t)) (set ?ds)" using set(1) assms(8) t(2) by (simp add: inj_on_def)
  have "fs_locate p (name_of (nodes s) c) t = Done c t"
    if "c \<in> set ?ds" "name_of (nodes s) c \<noteq> []" "FS_PATH_DELIM \<notin> set (name_of (nodes s) c)" for c
    using locate_child [OF t(1) that(1) inj set(2)] that(2,3) t(2) by simp
  then show "(\<exists>ds. children (nodes t) p ds \<and> distinct ds \<and> set ds = insert child (set cs))
     \<and> (\<forall>x. name_of (nodes t) x = name_of (nodes s) x)
     \<and> (\<forall>c \<in> insert child (set cs). name_of (nodes s) c \<noteq> [] \<and> FS_PATH_DELIM \<notin> set (name_of (nodes s) c) \<longrightarrow>
          fs_locate p (name_of (nodes s) c) t = Done c t)"
    using t set by auto
qed

theorem fs_link_then_locate_witness:
  "runs (fs_link_child 0x100 0x300) demo_fss (\<lambda>_ t. fs_locate 0x100 ''a'' t = Done 0x300 t)"
  by (rule runs_weaken [OF fs_link_then_locate [OF demo_children]])
    (auto simp: tmpfs_dir_tmpl_def tmpfs_file_tmpl_def name_of_def FS_PATH_DELIM_def inj_on_def)

text \<open>The comment calls the list of children sorted. It is not: the new child goes after the first child
  that does not precede it, and to the front when every child precedes it.\<close>

lemma link_order:
  "link_list (nodes demo_fss) ''a'' 0x300 [0x200] = [0x200, 0x300]"
  "link_list (nodes demo_fss) ''c'' 0x300 [0x200] = [0x300, 0x200]"
  by (simp_all add: link_list_def before_def name_of_def tmpfs_file_tmpl_def)

text \<open>A path without a name, such as \<^verbatim>\<open>"/"\<close>, passes a null pointer to \<^verbatim>\<open>strcmp\<close>.\<close>

lemma fs_locate_root_null: "fs_locate 0x100 ''/'' demo_fss = Halt NullCall"
proof -
  have "path_tokens ''/'' = []" by (subst path_tokens.simps) (simp add: FS_PATH_DELIM_def)
  then show ?thesis by (simp add: fs_locate_def fs_child_iter_def get_node_def tmpfs_dir_tmpl_def)
qed

end
