(* ===== verification/Tmpfs.thy ===== *)
theory Tmpfs
  imports Fs
begin

text \<open>
  What a \<^verbatim>\<open>tmpfs\<close> file holds. The device of \<^verbatim>\<open>tmpfs.c\<close> is a heap block with a length and a position;
  the lemmas relate it to the byte list that a client wrote, and state where the code departs from
  that: seeking from the end, reading after the end, and opening a file again after its close.
\<close>

subsection \<open>Buffers\<close>

lemma length_buf_bytes [simp]: "length (buf_bytes m a n) = n"
  by (simp add: buf_bytes_def)

lemma buf_bytes_put:
  assumes "length bs \<le> 2 ^ 32"
  shows "buf_bytes (buf_put m a bs) a (length bs) = bs"
proof (rule nth_equalityI)
  fix k
  assume "k < length (buf_bytes (buf_put m a bs) a (length bs))"
  then have k: "k < length bs" by simp
  then have "unat (of_nat k :: u32) = k" using assms by (simp add: unat_of_nat take_bit_nat_eq_self)
  then show "buf_bytes (buf_put m a bs) a (length bs) ! k = bs ! k"
    using k by (simp add: buf_bytes_def buf_put_def)
qed simp

lemma put_bytes_length:
  "p \<le> length d \<Longrightarrow> length (put_bytes d p bs) = max (length d) (p + length bs)"
  by (simp add: put_bytes_def)

lemma put_bytes_part: "p \<le> length d \<Longrightarrow> take (length bs) (drop p (put_bytes d p bs)) = bs"
  by (simp add: put_bytes_def)

subsection \<open>Files as byte lists\<close>

text \<open>\<open>tmp_file s a d p\<close>: at \<open>a\<close> there is an open \<^verbatim>\<open>tmpfs\<close> file with contents \<open>d\<close>, positioned at \<open>p\<close>.\<close>

definition tmp_file :: "'a fss_scheme \<Rightarrow> u32 \<Rightarrow> u8 list \<Rightarrow> nat \<Rightarrow> bool" where
  "tmp_file s a d p \<longleftrightarrow> (\<exists>f. files s a = Some f \<and> f_kind f = KTmp \<and> f_data f = Some d
     \<and> length d = unat (f_length f) \<and> p = unat (f_pos f))"

lemma tmpfs_write_run:
  assumes "tmp_file s a d p" "p \<le> length d" "p + unat n < 2 ^ 32"
  shows "runs (tmpfs_write_file a buf n) s (\<lambda>r t. r = n \<and> vmem t = vmem s
     \<and> tmp_file t a (put_bytes d p (buf_bytes (vmem s) buf (unat n))) (p + unat n)
     \<and> (\<forall>x. x \<noteq> a \<longrightarrow> files t x = files s x))"
proof -
  obtain f where f: "files s a = Some f" "f_kind f = KTmp" "f_data f = Some d" "length d = unat (f_length f)"
    "p = unat (f_pos f)" using assms(1) by (auto simp: tmp_file_def)
  define bs where "bs = buf_bytes (vmem s) buf (unat n)"
  have sum: "unat (f_pos f + n) = p + unat n" using assms(3) f(5) by (simp add: unat_word_ariths(1))
  have grow: "f_length f < f_pos f + n \<longleftrightarrow> length d < p + unat n"
    using sum f(4) by (simp add: word_less_nat_alt)
  have bs: "length bs = unat n" by (simp add: bs_def)
  define g where "g = f\<lparr>f_length := (if length d < p + unat n then f_pos f + n else f_length f), f_data := Some (put_bytes d p bs), f_pos := f_pos f + n\<rparr>"
  have junked: "put_bytes (realloc_bytes (junk s) d (p + unat n)) p bs = put_bytes d p bs" if "length d < p + unat n"
    using that assms(2) bs by (simp add: put_bytes_def realloc_bytes_def)
  have "tmpfs_write_file a buf n s = Done n (s\<lparr>files := (files s)(a \<mapsto> g)\<rparr>)"
  proof (cases "length d < p + unat n")
    case True
    then have "length (realloc_bytes (junk s) d (p + unat n)) = p + unat n" by (simp add: realloc_bytes_def)
    with True junked f(1,3,5) sum grow show ?thesis
      by (simp add: tmpfs_write_file_def get_file_def set_file_def g_def bs_def)
  next
    case False
    with f(1,3,5) sum grow show ?thesis
      by (simp add: tmpfs_write_file_def get_file_def set_file_def g_def bs_def)
  qed
  moreover have "length (put_bytes d p bs) = unat (f_length g)"
    using put_bytes_length [OF assms(2), of bs] bs sum f(4) by (simp add: g_def)
  then have "tmp_file (s\<lparr>files := (files s)(a \<mapsto> g)\<rparr>) a (put_bytes d p bs) (p + unat n)"
    using f(2) sum by (simp add: tmp_file_def g_def)
  ultimately show ?thesis by (simp add: runs_def bs_def)
qed

lemma tmpfs_seek_set_run:
  assumes "tmp_file s a d p"
  shows "runs (tmpfs_seek_file a ofs SEEK_SET) s (\<lambda>r t. r = ofs \<and> vmem t = vmem s \<and> tmp_file t a d (unat ofs))"
  using assms by (auto simp: runs_def tmpfs_seek_file_def file_seek_def get_file_def set_file_def tmp_file_def Let_def)

lemma tmpfs_read_run:
  assumes "tmp_file s a d p" "p \<le> length d" "p + unat n < 2 ^ 32"
  shows "runs (tmpfs_read_file a buf n) s (\<lambda>r t. unat r = min (unat n) (length d - p)
     \<and> vmem t = buf_put (vmem s) buf (take (unat n) (drop p d)) \<and> tmp_file t a d (p + unat r))"
proof -
  obtain f where f: "files s a = Some f" "f_kind f = KTmp" "f_data f = Some d" "length d = unat (f_length f)"
    "p = unat (f_pos f)" using assms(1) by (auto simp: tmp_file_def)
  have sum: "unat (f_pos f + n) = p + unat n" using assms(3) f(5) by (simp add: unat_word_ariths(1))
  have short: "f_length f < f_pos f + n \<longleftrightarrow> length d < p + unat n"
    using sum f(4) by (simp add: word_less_nat_alt)
  have rest: "unat (f_length f - f_pos f) = length d - p"
    using f(4,5) assms(2) by (simp add: unat_sub word_le_nat_alt)
  define r where "r = (if length d < p + unat n then f_length f - f_pos f else n)"
  have r: "unat r = min (unat n) (length d - p)" using rest assms(2) by (simp add: r_def)
  then have fits: "p + unat r \<le> length d" using assms(2) by simp
  have full_length: "unat (f_length f) < 2 ^ 32" by (rule unat_lt32)
  from fits have pos: "unat (f_pos f + r) = p + unat r"
    using f(4,5) full_length by (simp add: unat_word_ariths(1))
  have part: "take (unat r) (drop p d) = take (unat n) (drop p d)" by (simp add: r min_def)
  have "tmpfs_read_file a buf n s = Done r (s\<lparr>vmem := buf_put (vmem s) buf (take (unat n) (drop p d)),
      files := (files s)(a \<mapsto> f\<lparr>f_pos := f_pos f + r\<rparr>)\<rparr>)"
    using f(1,3,5) fits part short by (simp add: tmpfs_read_file_def get_file_def set_file_def r_def Let_def)
  moreover have "tmp_file (s\<lparr>vmem := buf_put (vmem s) buf (take (unat n) (drop p d)),
      files := (files s)(a \<mapsto> f\<lparr>f_pos := f_pos f + r\<rparr>)\<rparr>) a d (p + unat r)"
    using f pos by (simp add: tmp_file_def)
  ultimately show ?thesis using r by (simp add: runs_def)
qed



subsection \<open>Where files differ from byte lists\<close>

text \<open>\<^verbatim>\<open>SEEK_END\<close> subtracts the offset: an offset of -1, one byte before the end, leads one byte past it.\<close>

lemma seek_end_negative_offset:
  assumes "files s a = Some f"
  shows "runs (tmpfs_seek_file a (- 1) SEEK_END) s (\<lambda>r t. r = f_length f + 1)"
  using assms
  by (simp add: runs_def tmpfs_seek_file_def file_seek_def get_file_def set_file_def SEEK_SET_def SEEK_CUR_def SEEK_END_def Let_def)

text \<open>At a position past the end the number of bytes left is computed by a subtraction that wraps
  around: the read copies from outside the file's block.\<close>

lemma read_past_end_overruns:
  assumes "tmp_file s a d p" "length d < p" "p + unat n < 2 ^ 32"
  shows "tmpfs_read_file a buf n s = Halt BadAccess"
proof -
  obtain f where f: "files s a = Some f" "f_data f = Some d" "length d = unat (f_length f)" "p = unat (f_pos f)"
    using assms(1) by (auto simp: tmp_file_def)
  have "f_length f < f_pos f" using f(3,4) assms(2) by (simp add: word_less_nat_alt)
  moreover have "f_pos f \<le> f_pos f + n"
    using assms(3) f(4) by (simp add: word_le_nat_alt unat_word_ariths(1))
  ultimately have "f_length f < f_pos f + n" by simp
  then show ?thesis
    using f assms(2) by (simp add: tmpfs_read_file_def get_file_def kguard_def)
qed

text \<open>The node keeps its device when the file is closed, so a second \<^verbatim>\<open>open\<close> returns the device whose
  block has been freed.\<close>

lemma reopened_file_is_freed:
  assumes "nodes s c = Some nd" "n_device nd = a" "tmp_file s a d p"
  shows "runs (kthen (tmpfs_close_file a) (tmpfs_open_file c)) s (\<lambda>r t. r = a \<and> tmpfs_read_file a buf n t = Halt BadAccess)"
  using assms
  by (auto simp: runs_def tmp_file_def tmpfs_close_file_def tmpfs_open_file_def get_file_def set_file_def get_node_def
      tmpfs_read_file_def)

end
