(* ===== verification/Cpio.thy ===== *)
theory Cpio
  imports Tmpfs
begin

text \<open>
  The archive file system (\<^verbatim>\<open>kernel/fs/cpiofs.c\<close>) and the boot archive that is mounted with it
  (\<^verbatim>\<open>kernel/initrd.c\<close>). The archive lies in memory; a header is read field by field from \<open>vmem\<close>. The
  address of the static object \<^verbatim>\<open>CpioEOF\<close>, which marks the end of the archive, is a field of the state.
  What the mount needs of \<^verbatim>\<open>malloc\<close> is the interface \<open>node_heap\<close>, which the kernel's early
  allocator satisfies.
\<close>

subsection \<open>Headers\<close>

record cpios = fss +
  Initrd :: vaddr_t
  InitrdStart :: paddr_t
  InitrdEnd :: paddr_t
  CpioEOF :: vaddr_t

definition CPIO_MAGIC :: u16 where "CPIO_MAGIC = 0x71C7"
definition SIZEOF_CPIOHDR :: u32 where "SIZEOF_CPIOHDR = 26"
definition SIZEOF_CPIOFILEDEV :: u32 where "SIZEOF_CPIOFILEDEV = 36"

record cpiohdr =
  h_magic :: u16
  h_dev :: u16
  h_ino :: u16
  h_mode :: u16
  h_uid :: u16
  h_gid :: u16
  h_nlink :: u16
  h_rdev :: u16
  h_mtime :: "u16 \<times> u16"
  h_namesize :: u16
  h_filesize :: "u16 \<times> u16"

definition cpio_hdr :: "bytes \<Rightarrow> vaddr_t \<Rightarrow> cpiohdr" where
  "cpio_hdr m a = \<lparr>h_magic = get16 m a, h_dev = get16 m (a + 2), h_ino = get16 m (a + 4), h_mode = get16 m (a + 6),
     h_uid = get16 m (a + 8), h_gid = get16 m (a + 10), h_nlink = get16 m (a + 12), h_rdev = get16 m (a + 14),
     h_mtime = (get16 m (a + 16), get16 m (a + 18)), h_namesize = get16 m (a + 20),
     h_filesize = (get16 m (a + 22), get16 m (a + 24))\<rparr>"

text \<open>The characters of a string in memory, up to its terminator or \<open>n\<close> of them.\<close>

definition cstr :: "bytes \<Rightarrow> vaddr_t \<Rightarrow> nat \<Rightarrow> string" where
  "cstr m a n = map (\<lambda>b. char_of (unat b)) (takeWhile (\<lambda>b. b \<noteq> 0) (buf_bytes m a n))"

subsection \<open>Files of the archive\<close>

definition cpiofs_dir_tmpl :: fsnode where
  "cpiofs_dir_tmpl = \<lparr>n_name = '''', n_open = None, n_create = None, n_stat = None,
     n_parent = NULL, n_first_child = NULL, n_next_sibling = NULL, n_device = 0\<rparr>"

definition cpiofs_file_tmpl :: fsnode where
  "cpiofs_file_tmpl = \<lparr>n_name = '''', n_open = Some CpiofsOpen, n_create = None, n_stat = Some CpiofsStat,
     n_parent = NULL, n_first_child = NULL, n_next_sibling = NULL, n_device = 0\<rparr>"

definition cpiofs_open_file :: "u32 \<Rightarrow> ('a fss_scheme, u32) kern" where
  "cpiofs_open_file node = kbind (get_node node) (\<lambda>n. kret (n_device n))"

text \<open>The archive is read only, so the bytes of a file are those of the archive.\<close>

definition cpiofs_read_file :: "u32 \<Rightarrow> vaddr_t \<Rightarrow> u32 \<Rightarrow> ('a fss_scheme, u32) kern" where
  "cpiofs_read_file file buf nbyte =
     kbind (get_file file) (\<lambda>f.
     let n = (if f_length f < f_pos f + nbyte then f_length f - f_pos f else nbyte) in
     kthen (kmod (\<lambda>s. s\<lparr>vmem := buf_put (vmem s) buf (buf_bytes (vmem s) (f_base f + f_pos f) (unat n))\<rparr>))
    (kthen (set_file file (f\<lparr>f_pos := f_pos f + n\<rparr>))
           (kret n)))"

definition cpiofs_seek_file :: "u32 \<Rightarrow> u32 \<Rightarrow> u32 \<Rightarrow> ('a fss_scheme, u32) kern" where
  "cpiofs_seek_file = file_seek"

definition cpiofs_close_file :: "u32 \<Rightarrow> ('a fss_scheme, unit) kern" where
  "cpiofs_close_file file = kret ()"

text \<open>\<^verbatim>\<open>cpiofs_stat_file\<close> stores the length in the field \<^verbatim>\<open>st_size\<close> of the caller's structure.\<close>

definition ST_SIZE_OFS :: u32 where "ST_SIZE_OFS = 20"

definition cpiofs_stat_file :: "u32 \<Rightarrow> vaddr_t \<Rightarrow> ('a fss_scheme, int) kern" where
  "cpiofs_stat_file node stat =
     kbind (cpiofs_open_file node) (\<lambda>dev.
     if dev = NULL then kret (- 1)
     else kbind (get_file dev) (\<lambda>f.
       kthen (kmod (\<lambda>s. s\<lparr>vmem := set32 (vmem s) (stat + ST_SIZE_OFS) (f_length f)\<rparr>)) (kret 0)))"

subsection \<open>Mounting\<close>

definition cpiofs_unpack_file :: "'a cpios_scheme malloc_t \<Rightarrow> u32 \<Rightarrow> vaddr_t \<Rightarrow> ('a cpios_scheme, vaddr_t) kern" where
  "cpiofs_unpack_file malloc parent hdr =
     kbind (kget (\<lambda>s. cpio_hdr (vmem s) hdr)) (\<lambda>h.
     if h_magic h \<noteq> CPIO_MAGIC then kret NULL
     else let name = hdr + SIZEOF_CPIOHDR in
       kbind (kget (\<lambda>s. cstr (vmem s) name 11)) (\<lambda>start.
       if strcmp start ''TRAILER!!!'' = 0 then kget CpioEOF
       else let data = name + ucast (h_namesize h) + (if h_namesize h mod 2 \<noteq> 0 then 1 else 0);
                len = push_bit 16 (ucast (fst (h_filesize h))) + ucast (snd (h_filesize h)) in
         kbind (malloc SIZEOF_CPIOFILEDEV) (\<lambda>file.
         kthen (kguard (file \<noteq> NULL) NullCall)
        (kthen (set_file file \<lparr>f_kind = KCpio, f_pos = 0, f_length = len, f_data = None, f_base = data\<rparr>)
        (kbind (malloc SIZEOF_FILENODE) (\<lambda>node.
         kthen (kguard (node \<noteq> NULL) NullCall)
        (kbind (kget (\<lambda>s. cstr (vmem s) name FS_NAME_MAX)) (\<lambda>nm.
         kthen (name_fits nm)
        (kthen (set_node node (cpiofs_file_tmpl\<lparr>n_name := nm, n_device := file\<rparr>))
        (kthen (fs_link_child parent node)
               (kret (data + len + (if len mod 2 \<noteq> 0 then 1 else 0)))))))))))))"

partial_function (option) mount_loop ::
  "'a cpios_scheme malloc_t \<Rightarrow> u32 \<Rightarrow> vaddr_t \<Rightarrow> 'a cpios_scheme \<Rightarrow> (stop + u32 \<times> 'a cpios_scheme) option" where
  "mount_loop malloc cpiofs hdr s =
     (if hdr = CpioEOF s then Done cpiofs s
      else kbind (cpiofs_unpack_file malloc cpiofs hdr) (\<lambda>hdr.
        if hdr = NULL then kret NULL else mount_loop malloc cpiofs hdr) s)"

definition cpiofs_mount :: "'a cpios_scheme malloc_t \<Rightarrow> string \<Rightarrow> vaddr_t \<Rightarrow> ('a cpios_scheme, u32) kern" where
  "cpiofs_mount malloc name hdr =
     kbind (malloc SIZEOF_FILENODE) (\<lambda>cpiofs.
     kthen (kguard (cpiofs \<noteq> NULL) NullCall)
    (kthen (name_fits name)
    (kthen (set_node cpiofs (cpiofs_dir_tmpl\<lparr>n_name := name\<rparr>))
           (mount_loop malloc cpiofs hdr))))"

definition initrd_mount :: "'a cpios_scheme malloc_t \<Rightarrow> u32 \<Rightarrow> ('a cpios_scheme, unit) kern" where
  "initrd_mount malloc mountpoint =
     kbind (kget Initrd) (\<lambda>initrd.
     kbind (cpiofs_mount malloc ''initrd'' initrd) (\<lambda>ird.
     if ird = NULL then kret () else fs_link_child mountpoint ird))"

subsection \<open>What an archive holds\<close>

lemma takeWhile_take:
  "length (takeWhile P (take n xs)) < n \<Longrightarrow> takeWhile P xs = takeWhile P (take n xs)"
proof (induction xs arbitrary: n)
  case (Cons x xs)
  then show ?case by (cases n) auto
qed simp

lemma buf_bytes_take: "n \<le> k \<Longrightarrow> buf_bytes m a n = take n (buf_bytes m a k)"
  by (simp add: buf_bytes_def take_map)

lemma cstr_longer: "length (cstr m a n) < n \<Longrightarrow> n \<le> k \<Longrightarrow> cstr m a k = cstr m a n"
  using takeWhile_take [of "\<lambda>b. b \<noteq> 0" n "buf_bytes m a k"] by (simp add: cstr_def buf_bytes_take [of n k])

definition even_up :: "nat \<Rightarrow> nat" where
  "even_up n = n + n mod 2"

text \<open>\<open>archive m eof a es\<close>: from \<open>a\<close> on, memory holds an archive with the files \<open>es\<close> (names and contents), in
  the layout of the binary \<^verbatim>\<open>cpio\<close> format: a header of 26 bytes, the name with its terminator, the contents, the latter
  two padded to an even length; the last entry is named \<^verbatim>\<open>TRAILER!!!\<close>.\<close>

fun archive :: "bytes \<Rightarrow> vaddr_t \<Rightarrow> vaddr_t \<Rightarrow> (string \<times> u8 list) list \<Rightarrow> bool" where
  "archive m eof a [] \<longleftrightarrow> a \<notin> {NULL, eof} \<and> h_magic (cpio_hdr m a) = CPIO_MAGIC \<and> cstr m (a + 26) 11 = ''TRAILER!!!''"
| "archive m eof a ((nm, bs) # es) \<longleftrightarrow>
     (let h = cpio_hdr m a; data = a + of_nat (26 + even_up (Suc (length nm))) in
      a \<notin> {NULL, eof} \<and> h_magic h = CPIO_MAGIC \<and> length nm < FS_NAME_MAX \<and> nm \<noteq> ''TRAILER!!!''
      \<and> cstr m (a + 26) FS_NAME_MAX = nm \<and> unat (h_namesize h) = Suc (length nm)
      \<and> unat (fst (h_filesize h)) * 65536 + unat (snd (h_filesize h)) = length bs
      \<and> buf_bytes m data (length bs) = bs
      \<and> archive m eof (data + of_nat (even_up (length bs))) es)"

lemma odd_word_nat: "(w :: u16) mod 2 \<noteq> 0 \<longleftrightarrow> unat w mod 2 = 1" "(v :: u32) mod 2 \<noteq> 0 \<longleftrightarrow> unat v mod 2 = 1"
  by (simp_all add: word_unat_eq_iff unat_mod)

lemma pad_word: "(v :: u32) + (if v mod 2 \<noteq> 0 then 1 else 0) = of_nat (even_up (unat v))"
proof -
  have "v + (if unat v mod 2 = 1 then 1 else 0) = of_nat (unat v) + (of_nat (unat v mod 2) :: u32)" by auto
  then show ?thesis by (simp only: odd_word_nat even_up_def of_nat_add)
qed

lemma pad_name: "ucast (w :: u16) + (if w mod 2 \<noteq> 0 then 1 else 0) = (of_nat (even_up (unat w)) :: u32)"
proof -
  have "ucast w + (if unat w mod 2 = 1 then 1 else 0) = of_nat (unat w) + (of_nat (unat w mod 2) :: u32)" by auto
  then show ?thesis by (simp only: odd_word_nat even_up_def of_nat_add)
qed

lemma filesize_nat:
  "unat (push_bit 16 (ucast (f :: u16)) + ucast (g :: u16) :: u32) = unat f * 65536 + unat g"
proof -
  have "unat f < 65536" "unat g < 65536"
    using unsigned_less [of f, where 'a = nat] unsigned_less [of g, where 'a = nat] by simp_all
  then have "unat f * 65536 + unat g < 2 ^ LENGTH(32)" by simp
  moreover have "push_bit 16 (ucast f) + ucast g = (of_nat (unat f * 65536 + unat g) :: u32)"
    by (simp add: push_bit_eq_mult)
  ultimately show ?thesis by (simp only: unat_of_nat mod_less)
qed

subsection \<open>What the mount needs of the allocator\<close>

text \<open>\<open>room k s\<close>: \<open>k\<close> more small blocks can be allocated; \<open>own s\<close> are the addresses handed out so far.\<close>

locale node_heap =
  fixes malloc :: "'a cpios_scheme malloc_t"
    and room :: "nat \<Rightarrow> 'a cpios_scheme \<Rightarrow> bool"
    and own :: "'a cpios_scheme \<Rightarrow> u32 set"
  assumes alloc: "room (Suc k) s \<Longrightarrow> 0 < sz \<Longrightarrow> sz \<le> SIZEOF_FILENODE \<Longrightarrow>
      runs (malloc sz) s (\<lambda>p t. p \<noteq> NULL \<and> nodes s p = None \<and> files s p = None \<and> nodes t = nodes s
        \<and> files t = files s \<and> vmem t = vmem s \<and> CpioEOF t = CpioEOF s \<and> room k t \<and> own t \<supseteq> insert p (own s))"
    and own_nodes: "room k s \<Longrightarrow> dom (nodes s) \<subseteq> own s"
    and own_files: "room k s \<Longrightarrow> dom (files s) \<subseteq> own s"
    and own_upd: "own (s\<lparr>nodes := N\<rparr>) = own s" "own (s\<lparr>files := F\<rparr>) = own s"
    and room_nodes: "room k s \<Longrightarrow> dom N \<subseteq> own s \<Longrightarrow> room k (s\<lparr>nodes := N\<rparr>)"
    and room_files: "room k s \<Longrightarrow> dom F \<subseteq> own s \<Longrightarrow> room k (s\<lparr>files := F\<rparr>)"

definition file_holds :: "'a fss_scheme \<Rightarrow> u32 \<Rightarrow> u8 list \<Rightarrow> bool" where
  "file_holds s d bs \<longleftrightarrow> length bs < 2 ^ 32 \<and> (\<exists>base. buf_bytes (vmem s) base (length bs) = bs
     \<and> files s d = Some \<lparr>f_kind = KCpio, f_pos = 0, f_length = of_nat (length bs), f_data = None, f_base = base\<rparr>)"

definition entry_of :: "'a fss_scheme \<Rightarrow> u32 \<Rightarrow> string \<times> u8 list \<Rightarrow> bool" where
  "entry_of s c e \<longleftrightarrow> (\<exists>nd. nodes s c = Some nd \<and> n_name nd = fst e \<and> n_open nd = Some CpiofsOpen
     \<and> n_stat nd = Some CpiofsStat \<and> file_holds s (n_device nd) (snd e))"

definition mounted :: "'a fss_scheme \<Rightarrow> u32 \<Rightarrow> (string \<times> u8 list) list \<Rightarrow> bool" where
  "mounted s root ps \<longleftrightarrow> (\<exists>cs ds. children (nodes s) root cs \<and> distinct cs \<and> root \<notin> set cs
     \<and> distinct ds \<and> set ds = set cs \<and> list_all2 (entry_of s) ds ps)"

lemma entry_of_keep:
  assumes "entry_of s c e" "map_option node_body (nodes t c) = map_option node_body (nodes s c)"
    and "\<And>d. files s d \<noteq> None \<Longrightarrow> files t d = files s d" "vmem t = vmem s"
  shows "entry_of t c e"
proof -
  obtain nd where nd: "nodes s c = Some nd" "n_name nd = fst e" "n_open nd = Some CpiofsOpen"
    "n_stat nd = Some CpiofsStat" "file_holds s (n_device nd) (snd e)" using assms(1) by (auto simp: entry_of_def)
  moreover obtain nd' where "nodes t c = Some nd'" "node_body nd' = node_body nd" using assms(2) nd(1) by auto
  moreover have "file_holds t (n_device nd) (snd e)" using nd(5) assms(3) [of "n_device nd"] assms(4)
    by (auto simp: file_holds_def)
  ultimately show ?thesis by (auto simp: entry_of_def node_body_def)
qed

lemma children_nodes: "children N p cs \<Longrightarrow> insert p (set cs) \<subseteq> dom N"
  using sibs_node by (fastforce simp: children_def split: option.splits)

text \<open>Linking a node that refers to a file of the archive extends the mounted part by one entry.\<close>

lemma mounted_link:
  assumes "mounted s root ps" "nodes s c = None" "c \<noteq> NULL" "c \<noteq> root" "file_holds s d bs"
  shows "runs (kthen (set_node c (cpiofs_file_tmpl\<lparr>n_name := nm, n_device := d\<rparr>)) (fs_link_child root c)) s
     (\<lambda>_ t. mounted t root (ps @ [(nm, bs)]) \<and> t = s\<lparr>nodes := nodes t\<rparr> \<and> dom (nodes t) \<subseteq> insert c (dom (nodes s)))"
proof -
  obtain cs ds where cs: "children (nodes s) root cs" "distinct cs" "root \<notin> set cs" "distinct ds" "set ds = set cs"
    "list_all2 (entry_of s) ds ps" using assms(1) by (auto simp: mounted_def)
  define nd where "nd = cpiofs_file_tmpl\<lparr>n_name := nm, n_device := d\<rparr>"
  define u where "u = s\<lparr>nodes := (nodes s)(c \<mapsto> nd)\<rparr>"
  have new: "c \<notin> set cs" using children_nodes [OF cs(1)] assms(2) by auto
  have "children (nodes u) root cs"
    using cs(1,3) assms(4) new by (auto simp: children_def u_def split: option.splits)
  then have link: "runs (fs_link_child root c) u (\<lambda>_ t. children (nodes t) root (link_list (nodes u) nm c cs)
     \<and> (\<forall>x. map_option node_body (nodes t x) = map_option node_body (nodes u x)) \<and> t = u\<lparr>nodes := nodes t\<rparr>)"
    by (rule runs_weaken [OF fs_link_child_run [where ch = nd]])
      (use cs new assms(3,4) in \<open>auto simp: u_def nd_def cpiofs_file_tmpl_def\<close>)
  have "mounted t root (ps @ [(nm, bs)]) \<and> t = s\<lparr>nodes := nodes t\<rparr> \<and> dom (nodes t) \<subseteq> insert c (dom (nodes s))"
    if t: "children (nodes t) root (link_list (nodes u) nm c cs)"
      "\<And>x. map_option node_body (nodes t x) = map_option node_body (nodes u x)" "t = u\<lparr>nodes := nodes t\<rparr>" for t
  proof -
    have same: "files t = files s" "vmem t = vmem s" by (subst t(3), simp add: u_def)+
    have "entry_of t x e" if "entry_of s x e" for x e
    proof (rule entry_of_keep [OF that])
      have "x \<noteq> c" using that assms(2) by (auto simp: entry_of_def)
      then show "map_option node_body (nodes t x) = map_option node_body (nodes s x)" using t(2) by (simp add: u_def)
    qed (simp_all add: same)
    then have old: "list_all2 (entry_of t) ds ps" using cs(6) by (auto intro: list_all2_mono)
    obtain nd' where "nodes t c = Some nd'" "node_body nd' = node_body nd" using t(2) [of c] by (auto simp: u_def)
    then have "entry_of t c (nm, bs)"
      using assms(5) same by (auto simp: entry_of_def node_body_def nd_def cpiofs_file_tmpl_def file_holds_def)
    with old have "list_all2 (entry_of t) (ds @ [c]) (ps @ [(nm, bs)])" by (simp add: list_all2_appendI)
    moreover have "dom (nodes t) \<subseteq> insert c (dom (nodes s))"
    proof
      fix x assume "x \<in> dom (nodes t)"
      then show "x \<in> insert c (dom (nodes s))" using t(2) [of x] by (cases "x = c"; cases "nodes s x") (auto simp: u_def dom_def)
    qed
    moreover have "t = s\<lparr>nodes := nodes t\<rparr>" by (subst t(3)) (simp add: u_def)
    ultimately show ?thesis
      unfolding mounted_def
      using t(1) cs link_list_perm(1) [of "nodes u" nm c cs] link_list_perm(2) [of cs c "nodes u" nm] new assms(4)
      by (intro conjI exI [of _ "link_list (nodes u) nm c cs"] exI [of _ "ds @ [c]"]) auto
  qed
  with link show ?thesis
    by (intro runs_kthen) (auto simp: runs_def set_node_def u_def nd_def)
qed

context node_heap
begin

lemma unpack_run:
  assumes room: "room (Suc (Suc k)) s" and arc: "archive (vmem s) (CpioEOF s) a ((nm, bs) # es)"
    and m: "mounted s root ps"
  shows "runs (cpiofs_unpack_file malloc root a) s (\<lambda>r t. r \<noteq> NULL \<and> archive (vmem t) (CpioEOF t) r es
     \<and> room k t \<and> mounted t root (ps @ [(nm, bs)]) \<and> vmem t = vmem s \<and> CpioEOF t = CpioEOF s)"
proof -
  define h where "h = cpio_hdr (vmem s) a"
  define data where "data = a + of_nat (26 + even_up (Suc (length nm)))"
  define len where "len = (push_bit 16 (ucast (fst (h_filesize h))) + ucast (snd (h_filesize h)) :: u32)"
  define dv where "dv = \<lparr>f_kind = KCpio, f_pos = 0, f_length = len, f_data = None, f_base = data\<rparr>"
  from arc have ar: "h_magic h = CPIO_MAGIC" "length nm < FS_NAME_MAX" "nm \<noteq> ''TRAILER!!!''"
    "cstr (vmem s) (a + 26) FS_NAME_MAX = nm" "unat (h_namesize h) = Suc (length nm)"
    "unat (fst (h_filesize h)) * 65536 + unat (snd (h_filesize h)) = length bs"
    "buf_bytes (vmem s) data (length bs) = bs" "archive (vmem s) (CpioEOF s) (data + of_nat (even_up (length bs))) es"
    by (auto simp: Let_def h_def data_def)
  have trailer: "cstr (vmem s) (a + 26) 11 \<noteq> ''TRAILER!!!''"
    using ar(3,4) cstr_longer [of "vmem s" "a + 26" 11 FS_NAME_MAX] by (auto simp: FS_NAME_MAX_def)
  have len: "unat len = length bs" unfolding len_def using filesize_nat ar(6) by simp
  then have len': "len = of_nat (length bs)" "length bs < 2 ^ 32" using unat_lt32 [of len] by (simp_all flip: len)
  have data: "a + 26 + ucast (h_namesize h) + (if h_namesize h mod 2 = 1 then 1 else 0) = data"
    using pad_name [of "h_namesize h"] ar(5) by (simp add: data_def add.assoc split del: if_split)
  have nxt: "data + len + (if len mod 2 = 1 then 1 else 0) = data + of_nat (even_up (length bs))"
    using pad_word [of len] len by (simp add: add.assoc split del: if_split)
  have nxt0: "data + of_nat (even_up (length bs)) \<noteq> NULL" using ar(8) by (cases es) (auto simp: Let_def)
  have size: "0 < SIZEOF_CPIOFILEDEV" "SIZEOF_CPIOFILEDEV \<le> SIZEOF_FILENODE" "0 < SIZEOF_FILENODE"
    by (simp_all add: SIZEOF_CPIOFILEDEV_def SIZEOF_FILENODE_def)
  obtain fl s1 where m1: "malloc SIZEOF_CPIOFILEDEV s = Done fl s1"
    and s1: "fl \<noteq> NULL" "files s fl = None" "nodes s1 = nodes s" "files s1 = files s" "vmem s1 = vmem s"
      "CpioEOF s1 = CpioEOF s" "room (Suc k) s1" "own s1 \<supseteq> insert fl (own s)"
    using alloc [OF room size(1,2)] by (auto elim!: runsE)
  define s2 where "s2 = s1\<lparr>files := (files s1)(fl \<mapsto> dv)\<rparr>"
  have room2: "room (Suc k) s2" unfolding s2_def
    by (rule room_files [OF s1(7)]) (use own_files [OF s1(7)] s1(8) in auto)
  obtain node s3 where m2: "malloc SIZEOF_FILENODE s2 = Done node s3"
    and s3: "node \<noteq> NULL" "nodes s2 node = None" "nodes s3 = nodes s2" "files s3 = files s2" "vmem s3 = vmem s2"
      "CpioEOF s3 = CpioEOF s2" "room k s3" "own s3 \<supseteq> insert node (own s2)"
    using alloc [OF room2 size(3) order_refl] by (auto elim!: runsE)
  have "mounted s3 root ps"
  proof -
    have "entry_of s3 x e" if "entry_of s x e" for x e
      by (rule entry_of_keep [OF that]) (use s1 s3 in \<open>auto simp: s2_def\<close>)
    then have "entry_of s \<le> entry_of s3" by (simp add: le_fun_def)
    then have "list_all2 (entry_of s3) ds ps" if "list_all2 (entry_of s) ds ps" for ds
      using that list.rel_mono by blast
    moreover have "nodes s3 = nodes s" using s1(3) s3(3) by (simp add: s2_def)
    ultimately show ?thesis using m unfolding mounted_def by metis
  qed
  moreover have "nodes s3 node = None" using s3 by simp
  moreover have "node \<noteq> root" using m s1(3) s3(2,3) by (auto simp: mounted_def s2_def children_def split: option.splits)
  moreover have "file_holds s3 fl bs"
    using s1 s3 ar(7) len' by (auto simp: file_holds_def s2_def dv_def)
  ultimately have "runs (kthen (set_node node (cpiofs_file_tmpl\<lparr>n_name := nm, n_device := fl\<rparr>)) (fs_link_child root node)) s3
     (\<lambda>_ t. mounted t root (ps @ [(nm, bs)]) \<and> t = s3\<lparr>nodes := nodes t\<rparr> \<and> dom (nodes t) \<subseteq> insert node (dom (nodes s3)))"
    using s3(1) by (intro mounted_link)
  then obtain w t where link: "kthen (set_node node (cpiofs_file_tmpl\<lparr>n_name := nm, n_device := fl\<rparr>)) (fs_link_child root node) s3 = Done w t"
    and t: "mounted t root (ps @ [(nm, bs)])" "t = s3\<lparr>nodes := nodes t\<rparr>" "dom (nodes t) \<subseteq> insert node (dom (nodes s3))"
    unfolding runs_def by blast
  have rt: "room k t"
    by (subst t(2), rule room_nodes [OF s3(7)]) (use t(3) own_nodes [OF s3(7)] s3(8) in auto)
  have "vmem t = vmem s3" "CpioEOF t = CpioEOF s3" by (subst t(2), simp)+
  then have vm: "vmem t = vmem s" "CpioEOF t = CpioEOF s" using s1(5,6) s3(5,6) by (simp_all add: s2_def)
  have "cpiofs_unpack_file malloc root a s = kthen (kthen (set_node node (cpiofs_file_tmpl\<lparr>n_name := nm, n_device := fl\<rparr>)) (fs_link_child root node))
      (kret (data + of_nat (even_up (length bs)))) s3"
    using ar(1,2,4) trailer m1 m2 s1 s3
    by (simp add: cpiofs_unpack_file_def h_def [symmetric] Let_def data SIZEOF_CPIOHDR_def len_def [symmetric] nxt
        set_file_def name_fits_def s2_def dv_def kthen_assoc split del: if_split)
  also have "\<dots> = Done (data + of_nat (even_up (length bs))) t" using link by simp
  finally show ?thesis using nxt0 ar(8) rt t(1) vm by (simp add: runs_def)
qed


lemma mount_loop_run:
  assumes "room (2 * length es) s" "archive (vmem s) (CpioEOF s) a es" "mounted s root ps"
    and "CpioEOF s \<noteq> NULL"
  shows "runs (mount_loop malloc root a) s (\<lambda>r t. r = root \<and> mounted t root (ps @ es) \<and> vmem t = vmem s)"
  using assms
proof (induction es arbitrary: s a ps)
  case Nil
  then have a: "a \<noteq> CpioEOF s" "cpiofs_unpack_file malloc root a s = Done (CpioEOF s) s"
    by (simp_all add: cpiofs_unpack_file_def SIZEOF_CPIOHDR_def Let_def)
  moreover have "mount_loop malloc root (CpioEOF s) s = Done root s" by (simp add: mount_loop.simps)
  ultimately have "mount_loop malloc root a s = Done root s"
    using Nil.prems(4) by (simp add: mount_loop.simps [of malloc root a])
  then show ?case using Nil by (auto simp: runs_def)
next
  case (Cons e es)
  obtain nm bs where e: "e = (nm, bs)" by (cases e)
  have "room (Suc (Suc (2 * length es))) s" using Cons.prems(1) by simp
  from unpack_run [OF this Cons.prems(2) [unfolded e] Cons.prems(3)]
  obtain r t where run: "cpiofs_unpack_file malloc root a s = Done r t" and t: "r \<noteq> NULL"
    "archive (vmem t) (CpioEOF t) r es" "room (2 * length es) t" "mounted t root (ps @ [(nm, bs)])" "vmem t = vmem s" "CpioEOF t \<noteq> NULL"
    using Cons.prems(4) by (auto elim!: runsE)
  have "a \<noteq> CpioEOF s" using Cons.prems(2) by (simp add: e Let_def)
  with run t(1) have "mount_loop malloc root a s = mount_loop malloc root r t"
    by (simp add: mount_loop.simps [of malloc root a])
  with Cons.IH [OF t(3,2,4,6)] t(5) show ?case by (simp add: runs_def e)
qed

lemma mount_run:
  assumes "room (Suc (2 * length es)) s" "archive (vmem s) (CpioEOF s) a es" "length nm < FS_NAME_MAX" "CpioEOF s \<noteq> NULL"
  shows "runs (cpiofs_mount malloc nm a) s (\<lambda>r t. mounted t r es \<and> vmem t = vmem s)"
proof -
  have size: "0 < SIZEOF_FILENODE" by (simp add: SIZEOF_FILENODE_def)
  obtain root s1 where m1: "malloc SIZEOF_FILENODE s = Done root s1"
    and s1: "root \<noteq> NULL" "nodes s root = None" "nodes s1 = nodes s" "vmem s1 = vmem s"
      "CpioEOF s1 = CpioEOF s" "room (2 * length es) s1" "own s1 \<supseteq> insert root (own s)"
    using alloc [OF assms(1) size order_refl] by (auto elim!: runsE)
  define nd where "nd = cpiofs_dir_tmpl\<lparr>n_name := nm\<rparr>"
  define s2 where "s2 = s1\<lparr>nodes := (nodes s1)(root \<mapsto> nd)\<rparr>"
  have room2: "room (2 * length es) s2" unfolding s2_def
    by (rule room_nodes [OF s1(6)]) (use own_nodes [OF s1(6)] s1(7) in auto)
  have arc: "archive (vmem s2) (CpioEOF s2) a es" using assms(2) s1 by (simp add: s2_def)
  have "mounted s2 root []" unfolding mounted_def
    by (intro exI [of _ "[]"]) (simp add: children_def s2_def nd_def cpiofs_dir_tmpl_def)
  from mount_loop_run [OF room2 arc this] assms(4) s1(5)
  have "runs (mount_loop malloc root a) s2 (\<lambda>r t. mounted t r es \<and> vmem t = vmem s)"
    using s1(4) by (auto simp: s2_def runs_def)
  moreover have "cpiofs_mount malloc nm a s = mount_loop malloc root a s2"
    using m1 s1(1) assms(3) by (simp add: cpiofs_mount_def name_fits_def set_node_def s2_def nd_def)
  ultimately show ?thesis by (simp add: runs_def)
qed

end

subsection \<open>The early allocator as the heap\<close>

definition early_room :: "nat \<Rightarrow> 'a cpios_scheme \<Rightarrow> bool" where
  "early_room k s \<longleftrightarrow> \<not> MMUReady s \<and> 0 < t_brk (cur s) \<and> unat (t_brk (cur s)) + k * 160 < 0xFFFFE000
     \<and> AllocSP s + k < length (AllocStack s) \<and> dom (nodes s) \<union> dom (files s) \<subseteq> {..<t_brk (cur s)}"

definition early_own :: "'a cpios_scheme \<Rightarrow> u32 set" where
  "early_own s = {..<t_brk (cur s)}"

lemma early_malloc_alloc:
  assumes "early_room (Suc k) s" "0 < sz" "sz \<le> SIZEOF_FILENODE"
  shows "runs (early_malloc sz) s (\<lambda>p t. p \<noteq> NULL \<and> nodes s p = None \<and> files s p = None \<and> nodes t = nodes s
        \<and> files t = files s \<and> vmem t = vmem s \<and> CpioEOF t = CpioEOF s \<and> early_room k t \<and> early_own t \<supseteq> insert p (early_own s))"
proof -
  let ?b = "t_brk (cur s)"
  have sz: "0 < unat sz" "unat sz \<le> 160"
    using assms(2,3) by (simp_all add: SIZEOF_FILENODE_def word_less_nat_alt word_le_nat_alt)
  have s: "\<not> MMUReady s" "0 < ?b" "unat ?b + (k + 1) * 160 < 0xFFFFE000" "AllocSP s + Suc k < length (AllocStack s)"
    "dom (nodes s) \<union> dom (files s) \<subseteq> {..<?b}" using assms(1) by (simp_all add: early_room_def)
  have sum: "unat (?b + sz) = unat ?b + unat sz"
    using s(3) sz(2) unat_add_lem [of ?b sz] by simp
  then have grow: "?b < ?b + sz" using sz(1) by (simp add: word_less_nat_alt)
  have fresh: "nodes s ?b = None" "files s ?b = None" using s(5) by auto
  have "unat ?b + unat sz < 0xFFFFE000" "AllocSP s + 1 < length (AllocStack s)" using s(3,4) sz(2) by simp_all
  from early_malloc_run [OF s(1) this(1) s(2) this(2)] show ?thesis
    using s sz sum grow fresh
    by (auto simp: runs_def Let_def early_room_def early_own_def upd_task_def dest: order_less_trans)
qed

interpretation eh: node_heap early_malloc early_room early_own
proof unfold_locales
  show "runs (early_malloc sz) s (\<lambda>p t. p \<noteq> NULL \<and> nodes s p = None \<and> files s p = None \<and> nodes t = nodes s
        \<and> files t = files s \<and> vmem t = vmem s \<and> CpioEOF t = CpioEOF s \<and> early_room k t \<and> insert p (early_own s) \<subseteq> early_own t)"
    if "early_room (Suc k) s" "0 < sz" "sz \<le> SIZEOF_FILENODE" for k s sz
    using early_malloc_alloc [OF that] by simp
qed (auto simp: early_room_def early_own_def)

subsection \<open>Reading the mounted files\<close>

lemma cpiofs_read_whole:
  assumes "file_holds t d bs"
  shows "runs (cpiofs_read_file d buf n) t (\<lambda>r u. unat r = min (unat n) (length bs)
     \<and> vmem u = buf_put (vmem t) buf (take (unat n) bs))"
proof -
  obtain base where f: "files t d = Some \<lparr>f_kind = KCpio, f_pos = 0, f_length = of_nat (length bs), f_data = None, f_base = base\<rparr>"
    "buf_bytes (vmem t) base (length bs) = bs" "length bs < 2 ^ 32" using assms by (auto simp: file_holds_def)
  have len: "unat (of_nat (length bs) :: u32) = length bs" using f(3) by (simp add: unat_of_nat)
  define r where "r = (if (of_nat (length bs) :: u32) < n then of_nat (length bs) else n)"
  have r: "unat r = min (unat n) (length bs)" using len by (auto simp: r_def word_less_nat_alt)
  have "buf_bytes (vmem t) base (unat r) = take (unat n) bs"
    using buf_bytes_take [of "unat r" "length bs" "vmem t" base] f(2) by (simp add: r min_def)
  moreover have "runs (cpiofs_read_file d buf n) t (\<lambda>q u. q = r \<and> vmem u = buf_put (vmem t) buf (buf_bytes (vmem t) base (unat r)))"
    using f(1) by (auto simp: runs_def cpiofs_read_file_def get_file_def set_file_def r_def Let_def)
  ultimately show ?thesis using r by (auto simp: runs_def)
qed

lemma mounted_lookup:
  assumes "mounted t root es" "distinct (map fst es)" "(f, bs) \<in> set es" "f \<noteq> []" "FS_PATH_DELIM \<notin> set f"
  obtains c d where "fs_locate root f t = Done c t" "cpiofs_open_file c t = Done d t" "file_holds t d bs"
proof -
  obtain cs ds where cs: "children (nodes t) root cs" "distinct cs" "distinct ds" "set ds = set cs"
    "list_all2 (entry_of t) ds es" using assms(1) by (auto simp: mounted_def)
  obtain i where i: "i < length es" "es ! i = (f, bs)" using assms(3) by (auto simp: in_set_conv_nth)
  have names: "map (name_of (nodes t)) ds = map fst es"
    using cs(5) by (auto simp: list_all2_conv_all_nth entry_of_def name_of_def intro!: nth_equalityI)
  then have inj: "inj_on (name_of (nodes t)) (set cs)" using assms(2) cs(4) by (metis distinct_map)
  have len: "length ds = length es" using cs(5) by (rule list_all2_lengthD)
  then have c: "ds ! i \<in> set cs" using i(1) cs(4) nth_mem by metis
  obtain nd where nd: "nodes t (ds ! i) = Some nd" "n_name nd = f" "file_holds t (n_device nd) bs"
    using list_all2_nthD2 [OF cs(5) i(1)] i(2) by (auto simp: entry_of_def)
  have nm: "name_of (nodes t) (ds ! i) = f" using nd by (simp add: name_of_def)
  show thesis
  proof (rule that)
    show "fs_locate root f t = Done (ds ! i) t"
      using locate_child [OF cs(1) c inj cs(2)] nm assms(4,5) by simp
    show "cpiofs_open_file (ds ! i) t = Done (n_device nd) t"
      using nd(1) by (simp add: cpiofs_open_file_def get_node_def)
  qed (rule nd(3))
qed

lemma mounted_serves:
  assumes "mounted t root es" "distinct (map fst es)" "(f, bs) \<in> set es" "f \<noteq> []" "FS_PATH_DELIM \<notin> set f"
  shows "\<exists>c d. fs_locate root f t = Done c t \<and> cpiofs_open_file c t = Done d t
         \<and> (\<forall>buf n. runs (cpiofs_read_file d buf n) t (\<lambda>r u. unat r = min (unat n) (length bs)
              \<and> vmem u = buf_put (vmem t) buf (take (unat n) bs)))"
  using mounted_lookup [OF assms] cpiofs_read_whole by metis


text \<open>A small archive at 0x2000, with one file \<^verbatim>\<open>a\<close> that holds the bytes 104 and 105.\<close>

definition demo_archive :: "u8 list" where
  "demo_archive = [0xC7, 0x71] @ replicate 18 0 @ [2, 0, 0, 0, 2, 0] @ [97, 0] @ [104, 105]
     @ [0xC7, 0x71] @ replicate 18 0 @ [11, 0, 0, 0, 0, 0] @ map of_char ''TRAILER!!!'' @ [0]"

definition demo_cpios :: cpios where
  "demo_cpios = fss.extend (demo_fss\<lparr>vmem := buf_put (\<lambda>_. 0) 0x2000 demo_archive\<rparr>)
     \<lparr>Initrd = 0x2000, InitrdStart = 0, InitrdEnd = 0, CpioEOF = 0x700\<rparr>"

lemma buf_put_at: "k < length bs \<Longrightarrow> length bs \<le> 2 ^ 32 \<Longrightarrow> buf_put m a bs (a + of_nat k) = bs ! k"
  by (simp add: buf_put_def unat_of_nat)

lemma buf_bytes_of_put:
  assumes "j + n \<le> length bs" "length bs \<le> 2 ^ 32"
  shows "buf_bytes (buf_put m a bs) (a + of_nat j) n = take n (drop j bs)"
proof (rule nth_equalityI)
  fix k
  assume "k < length (buf_bytes (buf_put m a bs) (a + of_nat j) n)"
  then have "j + k < length bs" "k < n" using assms(1) by simp_all
  then show "buf_bytes (buf_put m a bs) (a + of_nat j) n ! k = take n (drop j bs) ! k"
    using buf_put_at [of "j + k" bs m a] assms by (simp add: buf_bytes_def add.assoc)
qed (use assms in simp)

lemma demo_cpios_archive: "archive (vmem demo_cpios) (CpioEOF demo_cpios) 0x2000 [(''a'', [104, 105])]"
proof -
  define m where "m = buf_put (\<lambda>_. 0) 0x2000 demo_archive"
  have len: "length demo_archive = 67" by (simp add: demo_archive_def)
  have at: "m (0x2000 + of_nat k) = demo_archive ! k" if "k < 67" for k
    using buf_put_at [of k demo_archive] that by (simp add: m_def len)
  have part: "buf_bytes m (0x2000 + of_nat j) n = take n (drop j demo_archive)" if "j + n \<le> 67" for j n
    using buf_bytes_of_put [of j n demo_archive] that by (simp add: m_def len)
  have name: "cstr m 0x201A 2 = ''a''"
    using part [of 26 2] by (simp add: cstr_def demo_archive_def char_of_def bit_iff_odd)
  then have "cstr m 0x201A FS_NAME_MAX = ''a''"
    using cstr_longer [of m "0x201A" 2 FS_NAME_MAX] by (simp add: FS_NAME_MAX_def)
  moreover have "cstr m 0x2038 11 = ''TRAILER!!!''"
    using part [of 56 11] by (simp add: cstr_def demo_archive_def char_of_def bit_iff_odd)
  moreover have "buf_bytes m 0x201C (Suc (Suc 0)) = [104, 105]"
    using part [of 28 "Suc (Suc 0)"] by (simp add: demo_archive_def)
  moreover have "h_magic (cpio_hdr m 0x2000) = CPIO_MAGIC" "h_magic (cpio_hdr m 0x201E) = CPIO_MAGIC"
    using at [of 0] at [of 1] at [of 30] at [of 31]
    by (simp_all add: cpio_hdr_def get16_def demo_archive_def CPIO_MAGIC_def nth_append)
  moreover have "unat (h_namesize (cpio_hdr m 0x2000)) = 2" "h_filesize (cpio_hdr m 0x2000) = (0, 2)"
    using at [of 20] at [of 21] at [of 22] at [of 23] at [of 24] at [of 25]
    by (simp_all add: cpio_hdr_def get16_def demo_archive_def nth_append)
  ultimately have "archive m 0x700 0x2000 [(''a'', [104, 105])]"
    by (simp add: Let_def even_up_def FS_NAME_MAX_def)
  then show ?thesis by (simp add: demo_cpios_def fss.defs m_def)
qed



text \<open>The length of a file is kept when it is found by \<^verbatim>\<open>stat\<close>.\<close>

lemma cpiofs_stat_length:
  assumes "entry_of s c (f, bs)" "\<And>nd. nodes s c = Some nd \<Longrightarrow> n_device nd \<noteq> NULL"
  shows "runs (cpiofs_stat_file c stat) s (\<lambda>r t. r = 0 \<and> get32 (vmem t) (stat + ST_SIZE_OFS) = of_nat (length bs))"
  using assms
  by (auto simp: entry_of_def file_holds_def runs_def cpiofs_stat_file_def cpiofs_open_file_def get_node_def get_file_def)

text \<open>An archive that does not start with the magic number is refused, and \<^verbatim>\<open>initrd_mount\<close> then leaves the
  mount point as it was; the directory node allocated for it is not released.\<close>

lemma initrd_bad_magic:
  assumes "h_magic (cpio_hdr (vmem s) (Initrd s)) \<noteq> CPIO_MAGIC" "Initrd s \<noteq> CpioEOF s"
    and "malloc SIZEOF_FILENODE s = Done p t" "p \<noteq> NULL" "vmem t = vmem s" "CpioEOF t = CpioEOF s"
  shows "initrd_mount malloc mp s = Done () (t\<lparr>nodes := (nodes t)(p \<mapsto> cpiofs_dir_tmpl\<lparr>n_name := ''initrd''\<rparr>)\<rparr>)"
proof -
  define u where "u = t\<lparr>nodes := (nodes t)(p \<mapsto> cpiofs_dir_tmpl\<lparr>n_name := ''initrd''\<rparr>)\<rparr>"
  have eof: "CpioEOF u = CpioEOF s" using assms(6) by (simp add: u_def)
  have "cpiofs_unpack_file malloc p (Initrd s) u = Done NULL u"
    using assms(1,5) by (simp add: cpiofs_unpack_file_def u_def)
  then have "mount_loop malloc p (Initrd s) u = Done NULL u"
    using assms(2) eof by (simp add: mount_loop.simps [of malloc p "Initrd s" u])
  then show ?thesis
    using assms(3,4) by (simp add: initrd_mount_def cpiofs_mount_def name_fits_def FS_NAME_MAX_def set_node_def u_def)
qed

end
