(* ===== verification/Console.thy ===== *)
theory Console
  imports Cpio
begin

text \<open>
  The console: the text screen (\<^verbatim>\<open>arch/x86/vga_console.c\<close>), the keyboard interrupt (\<^verbatim>\<open>kbd.c\<close>,
  \<^verbatim>\<open>keymap.h\<close>) and the device that joins them (\<^verbatim>\<open>arch/x86/console.c\<close>). Screen memory is a function
  from cell numbers, relative to the start of the buffer and possibly negative, to 16-bit cells. The C type
  \<^verbatim>\<open>char\<close> is a signed byte. \<^verbatim>\<open>console_read\<close> waits for keys in a loop; what an interrupt does
  meanwhile is an argument.
\<close>

subsection \<open>The screen\<close>

record cons = cpios +
  vga_cell :: "int \<Rightarrow> u16"
  vga_x :: int
  vga_y :: int
  vga_rows :: int
  vga_cols :: int
  vga_attrib :: u8
  ConsoleReadBuf :: "u8 list"
  RBufRead :: int
  RBufWrite :: int
  kbd_putc_set :: bool

definition VGA_TEXT_ADDR :: "'a cons_scheme \<Rightarrow> int \<Rightarrow> int \<Rightarrow> int" where
  "VGA_TEXT_ADDR s x y = y * vga_cols s + x"

definition vga_console_set_cursor :: "int \<Rightarrow> int \<Rightarrow> ('a cons_scheme, unit) kern" where
  "vga_console_set_cursor x y =
     kbind (kget (\<lambda>s. word_of_int (VGA_TEXT_ADDR s x y) :: u32)) (\<lambda>pos.
     kseq [io_put8 0x3D4 0x0F, io_put8 0x3D5 (ucast (pos AND 0xFF)),
           io_put8 0x3D4 0x0E, io_put8 0x3D5 (ucast (drop_bit 8 pos AND 0xFF))])"

definition vga_blank :: "u8 \<Rightarrow> u16" where
  "vga_blank attrib = push_bit 8 (ucast attrib) OR 0x20"

definition vga_console_clear :: "('a cons_scheme, unit) kern" where
  "vga_console_clear = kmod (\<lambda>s. s\<lparr>vga_cell := (\<lambda>i. if 0 \<le> i \<and> i < (vga_rows s * vga_cols s) * 2
     then vga_blank (vga_attrib s) else vga_cell s i)\<rparr>)"

definition vga_console_init :: "('a cons_scheme, unit) kern" where
  "vga_console_init = kseq [
     kmod (\<lambda>s. s\<lparr>vga_rows := 25, vga_cols := 80, vga_attrib := 0x7, vga_x := 0, vga_y := 0\<rparr>),
     vga_console_set_cursor 0xFF 0xFF, vga_console_clear]"

text \<open>\<^verbatim>\<open>memmove\<close> of rows times cols cells, from one row further on.\<close>

definition vga_console_scroll :: "('a cons_scheme, unit) kern" where
  "vga_console_scroll = kmod (\<lambda>s. s\<lparr>vga_cell := (\<lambda>i. if 0 \<le> i \<and> i < vga_rows s * vga_cols s
     then vga_cell s (i + vga_cols s) else vga_cell s i), vga_y := vga_y s - 1\<rparr>)"

definition BUF_PUTC :: "u8 \<Rightarrow> ('a cons_scheme, unit) kern" where
  "BUF_PUTC c = kmod (\<lambda>s. s\<lparr>vga_cell := (vga_cell s)
     (VGA_TEXT_ADDR s (vga_x s) (vga_y s) := push_bit 8 (ucast (vga_attrib s)) OR scast c)\<rparr>)"

definition vga_console_putc :: "u8 \<Rightarrow> ('a cons_scheme, unit) kern" where
  "vga_console_putc c =
     (if c = 13 then kret ()
      else kseq [
        (if c = 10 then kmod (\<lambda>s. s\<lparr>vga_x := 0, vga_y := vga_y s + 1\<rparr>)
         else if c = 8 then kthen (kmod (\<lambda>s. s\<lparr>vga_x := vga_x s - 1\<rparr>)) (BUF_PUTC 0x20)
         else kthen (BUF_PUTC c) (kmod (\<lambda>s. s\<lparr>vga_x := vga_x s + 1\<rparr>))),
        kmod (\<lambda>s. if vga_x s \<ge> vga_cols s then s\<lparr>vga_x := 0, vga_y := vga_y s + 1\<rparr> else s),
        kmod (\<lambda>s. if vga_x s < 0 then s\<lparr>vga_y := vga_y s - 1, vga_x := vga_cols s - 1\<rparr> else s),
        kbind (kget (\<lambda>s. vga_y s \<ge> vga_rows s)) (\<lambda>b. kwhen b vga_console_scroll),
        kbind (kget (\<lambda>s. (vga_x s, vga_y s))) (\<lambda>(x, y). vga_console_set_cursor x y)])"

subsection \<open>The read buffer and the keyboard\<close>

definition CONS_RBUF_LEN :: nat where "CONS_RBUF_LEN = 256"

definition console_rbuf_putc :: "u8 \<Rightarrow> ('a cons_scheme, unit) kern" where
  "console_rbuf_putc c = kmod (\<lambda>s. s\<lparr>ConsoleReadBuf := (ConsoleReadBuf s)[nat (RBufWrite s mod int CONS_RBUF_LEN) := c],
     RBufWrite := RBufWrite s + 1\<rparr>)"

definition console_rbuf_getc :: "vaddr_t \<Rightarrow> ('a cons_scheme, int) kern" where
  "console_rbuf_getc buf = kbind (kget (\<lambda>s. RBufRead s < RBufWrite s)) (\<lambda>b.
     if b then kthen (kmod (\<lambda>s. s\<lparr>vmem := (vmem s)(buf := ConsoleReadBuf s ! nat (RBufRead s mod int CONS_RBUF_LEN)),
         RBufRead := RBufRead s + 1\<rparr>)) (kret 1)
     else kret 0)"

definition Keymap :: "u8 list" where
  "Keymap = [0x00, 0x1b] @ map of_char ''1234567890-='' @ [0x08, 0x09] @ map of_char ''qwertyuiop[]''
     @ [10, 0x00] @ map of_char ''asdfghjkl;'' @ [39, 96, 0x00, 92] @ map of_char ''zxcvbnm,./'' @ [0x00]
     @ map of_char ''*'' @ [0x00] @ map of_char '' ''"

definition KBD_DATA :: u16 where "KBD_DATA = 0x60"
definition KBD_STATUS :: u16 where "KBD_STATUS = 0x64"

text \<open>The interrupt drains the device; a key release ends the interrupt. A code beyond the map reads past it.\<close>

partial_function (option) kbd_intr :: "'a cons_scheme \<Rightarrow> (stop + unit \<times> 'a cons_scheme) option" where
  "kbd_intr s =
     kbind (io_get8 KBD_STATUS) (\<lambda>status.
     if status AND 1 \<noteq> 0 then
       kbind (io_get8 KBD_DATA) (\<lambda>scode.
       if scode AND 0x80 \<noteq> 0 then kret ()
       else kthen (kbind (kget kbd_putc_set) (\<lambda>b. kguard b NullCall))
           (kthen (kguard (unat scode < length Keymap) BadAccess)
           (kthen (console_rbuf_putc (Keymap ! unat scode)) kbd_intr)))
     else kret ()) s"

definition kbd_init :: "('a cons_scheme, unit) kern" where
  "kbd_init = kthen (kmod (\<lambda>s. s\<lparr>kbd_putc_set := True\<rparr>)) (idt_set_handler INT_KBD IsrKbd)"

subsection \<open>The device\<close>

definition console_open :: "('a cons_scheme, int) kern" where
  "console_open = kret 0"

definition console_close :: "('a cons_scheme, int) kern" where
  "console_close = kret 0"

definition console_write :: "vaddr_t \<Rightarrow> u32 \<Rightarrow> ('a cons_scheme, u32) kern" where
  "console_write buf count =
     kthen (kfor [0..<unat count] (\<lambda>i. kbind (kget (\<lambda>s. vmem s (buf + of_nat i))) vga_console_putc))
           (kret count)"

partial_function (option) console_read_loop ::
  "('a cons_scheme, unit) kern \<Rightarrow> vaddr_t \<Rightarrow> nat \<Rightarrow> 'a cons_scheme \<Rightarrow> (stop + u32 \<times> 'a cons_scheme) option" where
  "console_read_loop irq cbuf c s =
     kbind (console_rbuf_getc (cbuf + of_nat c)) (\<lambda>got.
     if got = 0 then kthen irq (console_read_loop irq cbuf c)
     else kbind (kget (\<lambda>s. vmem s (cbuf + of_nat c))) (\<lambda>ch.
       if ch = 8 then
         if 0 < c then
           kthen (vga_console_putc ch)
          (kthen (kmod (\<lambda>s. s\<lparr>vmem := (vmem s)(cbuf + of_nat c := 0)\<rparr>)) (console_read_loop irq cbuf (c - 1)))
         else console_read_loop irq cbuf c
       else kthen (vga_console_putc ch)
         (if ch = 10 \<or> ch = 0 then kret (of_nat (c + 1)) else console_read_loop irq cbuf (c + 1)))) s"

definition console_read :: "('a cons_scheme, unit) kern \<Rightarrow> vaddr_t \<Rightarrow> u32 \<Rightarrow> ('a cons_scheme, u32) kern" where
  "console_read irq buf count = kthen intr_enable (console_read_loop irq buf 0)"

definition SIZEOF_FDESCR :: u32 where "SIZEOF_FDESCR = 8"

definition console_register :: "'a cons_scheme malloc_t \<Rightarrow> ('a cons_scheme, bool) kern" where
  "console_register malloc =
     kthen vga_console_init
    (kthen kbd_init
    (kbind (malloc SIZEOF_FDESCR) (\<lambda>consfd.
     kthen (kguard (consfd \<noteq> NULL) NullCall)
    (kbind (kget ConsoleDev) (\<lambda>dev.
     kthen (kmod (\<lambda>s. s\<lparr>fdescrs := (fdescrs s)(consfd := (fdescrs s consfd)\<lparr>fd_dev := dev\<rparr>)\<rparr>))
    (kthen (devfs_register_device malloc ''tty'' dev)
           (kret True)))))))"

subsection \<open>The cursor stays on the screen\<close>

definition vga_ok :: "'a cons_scheme \<Rightarrow> bool" where
  "vga_ok s \<longleftrightarrow> vga_rows s = 25 \<and> vga_cols s = 80 \<and> 0 \<le> vga_x s \<and> vga_x s < 80 \<and> 0 \<le> vga_y s \<and> vga_y s < 25"

text \<open>The stages of \<^verbatim>\<open>vga_console_putc\<close> as functions on the state.\<close>

definition vga_place :: "u8 \<Rightarrow> 'a cons_scheme \<Rightarrow> 'a cons_scheme" where
  "vga_place c s =
     (if c = 10 then s\<lparr>vga_x := 0, vga_y := vga_y s + 1\<rparr>
      else if c = 8 then s\<lparr>vga_x := vga_x s - 1, vga_cell := (vga_cell s)(vga_y s * vga_cols s + (vga_x s - 1) := push_bit 8 (ucast (vga_attrib s)) OR 0x20)\<rparr>
      else s\<lparr>vga_cell := (vga_cell s)(vga_y s * vga_cols s + vga_x s := push_bit 8 (ucast (vga_attrib s)) OR scast c), vga_x := vga_x s + 1\<rparr>)"

definition vga_wrap :: "'a cons_scheme \<Rightarrow> 'a cons_scheme" where
  "vga_wrap s = (let t = (if vga_x s \<ge> vga_cols s then s\<lparr>vga_x := 0, vga_y := vga_y s + 1\<rparr> else s) in
     if vga_x t < 0 then t\<lparr>vga_y := vga_y t - 1, vga_x := vga_cols t - 1\<rparr> else t)"

definition vga_roll :: "'a cons_scheme \<Rightarrow> 'a cons_scheme" where
  "vga_roll s = (if vga_y s \<ge> vga_rows s then s\<lparr>vga_cell := (\<lambda>i. if 0 \<le> i \<and> i < vga_rows s * vga_cols s
     then vga_cell s (i + vga_cols s) else vga_cell s i), vga_y := vga_y s - 1\<rparr> else s)"

definition vga_cursor :: "'a cons_scheme \<Rightarrow> 'a cons_scheme" where
  "vga_cursor s = (let pos = word_of_int (vga_y s * vga_cols s + vga_x s) :: u32 in
     s\<lparr>iotrace := iotrace s @ [Out8 0x3D4 0x0F, Out8 0x3D5 (ucast (pos AND 0xFF)), Out8 0x3D4 0x0E,
       Out8 0x3D5 (ucast (drop_bit 8 pos AND 0xFF))]\<rparr>)"

lemma set_cursor_run: "vga_console_set_cursor (vga_x s) (vga_y s) s = Done () (vga_cursor s)"
  by (simp add: vga_console_set_cursor_def vga_cursor_def VGA_TEXT_ADDR_def Let_def)

lemma buf_putc_run:
  "BUF_PUTC c s = Done () (s\<lparr>vga_cell := (vga_cell s)(vga_y s * vga_cols s + vga_x s := push_bit 8 (ucast (vga_attrib s)) OR scast c)\<rparr>)"
  by (simp only: BUF_PUTC_def kmod_run VGA_TEXT_ADDR_def)

lemma scast_space: "(scast (0x20 :: u8) :: u16) = 0x20"
  by simp

lemma place_back: "kthen (kmod (\<lambda>s. s\<lparr>vga_x := vga_x s - 1\<rparr>)) (BUF_PUTC 0x20) s = Done () (vga_place 8 s)"
  by (simp add: buf_putc_run vga_place_def scast_space)

lemma place_char:
  "c \<noteq> 10 \<Longrightarrow> c \<noteq> 8 \<Longrightarrow> kthen (BUF_PUTC c) (kmod (\<lambda>s. s\<lparr>vga_x := vga_x s + 1\<rparr>)) s = Done () (vga_place c s)"
  by (simp add: buf_putc_run vga_place_def)

lemma place_line: "vga_place 10 s = s\<lparr>vga_x := 0, vga_y := vga_y s + 1\<rparr>"
  by (simp add: vga_place_def)

lemma place_run:
  "(if c = 10 then kmod (\<lambda>s. s\<lparr>vga_x := 0, vga_y := vga_y s + 1\<rparr>)
    else if c = 8 then kthen (kmod (\<lambda>s. s\<lparr>vga_x := vga_x s - 1\<rparr>)) (BUF_PUTC 0x20)
    else kthen (BUF_PUTC c) (kmod (\<lambda>s. s\<lparr>vga_x := vga_x s + 1\<rparr>))) s = Done () (vga_place c s)"
proof -
  consider "c = 10" | "c \<noteq> 10" "c = 8" | "c \<noteq> 10" "c \<noteq> 8" by blast
  then show ?thesis
  proof cases
    case 1
    show ?thesis unfolding 1 place_line by (simp only: simp_thms if_True kmod_run)
  next
    case 2
    show ?thesis unfolding if_not_P [OF 2(1)] if_P [OF 2(2)] unfolding 2(2) by (rule place_back)
  next
    case 3
    show ?thesis unfolding if_not_P [OF 3(1)] if_not_P [OF 3(2)] using 3 by (rule place_char)
  qed
qed

lemma roll_run:
  "kbind (kget (\<lambda>s. vga_y s \<ge> vga_rows s)) (\<lambda>b. kwhen b vga_console_scroll) s = Done () (vga_roll s)"
  by (cases "vga_y s \<ge> vga_rows s") (simp_all add: vga_console_scroll_def vga_roll_def)

lemma putc_run:
  "vga_console_putc c s = Done () (if c = 13 then s else vga_cursor (vga_roll (vga_wrap (vga_place c s))))"
proof (cases "c = 13")
  case False
  let ?p = "vga_place c s"
  have "vga_console_putc c s = kseq [kmod (\<lambda>s. if vga_x s \<ge> vga_cols s then s\<lparr>vga_x := 0, vga_y := vga_y s + 1\<rparr> else s),
        kmod (\<lambda>s. if vga_x s < 0 then s\<lparr>vga_y := vga_y s - 1, vga_x := vga_cols s - 1\<rparr> else s),
        kbind (kget (\<lambda>s. vga_y s \<ge> vga_rows s)) (\<lambda>b. kwhen b vga_console_scroll),
        kbind (kget (\<lambda>s. (vga_x s, vga_y s))) (\<lambda>(x, y). vga_console_set_cursor x y)] ?p"
    unfolding vga_console_putc_def if_not_P [OF False] kseq.simps(2) [of "if _ then _ else _"] by (rule kthen_Done, rule place_run)
  also have "\<dots> = kthen (kbind (kget (\<lambda>s. vga_y s \<ge> vga_rows s)) (\<lambda>b. kwhen b vga_console_scroll))
        (kthen (kbind (kget (\<lambda>s. (vga_x s, vga_y s))) (\<lambda>(x, y). vga_console_set_cursor x y)) (kret ())) (vga_wrap ?p)"
    by (simp only: kseq.simps kthen_Done [where m = "kmod f" for f, OF kmod_run] vga_wrap_def Let_def)
  also have "\<dots> = kthen (kbind (kget (\<lambda>s. (vga_x s, vga_y s))) (\<lambda>(x, y). vga_console_set_cursor x y)) (kret ()) (vga_roll (vga_wrap ?p))"
    by (rule kthen_Done, rule roll_run)
  also have "\<dots> = Done () (vga_cursor (vga_roll (vga_wrap ?p)))"
    using set_cursor_run [of "vga_roll (vga_wrap ?p)"] by simp
  finally show ?thesis using False by simp
qed (simp add: vga_console_putc_def)


lemma vga_place_fields [simp]:
  "vga_rows (vga_place c s) = vga_rows s" "vga_cols (vga_place c s) = vga_cols s"
  "vga_x (vga_place c s) = (if c = 10 then 0 else if c = 8 then vga_x s - 1 else vga_x s + 1)"
  "vga_y (vga_place c s) = (if c = 10 then vga_y s + 1 else vga_y s)"
  by (simp_all add: vga_place_def)

lemma vga_place_cell:
  "vga_cell (vga_place c s) i = (if c = 10 then vga_cell s i
     else if c = 8 then if i = vga_y s * vga_cols s + (vga_x s - 1) then vga_blank (vga_attrib s) else vga_cell s i
     else if i = vga_y s * vga_cols s + vga_x s then push_bit 8 (ucast (vga_attrib s)) OR scast c else vga_cell s i)"
  by (simp add: vga_place_def vga_blank_def)

lemma vga_wrap_fields [simp]:
  "vga_rows (vga_wrap s) = vga_rows s" "vga_cols (vga_wrap s) = vga_cols s" "vga_cell (vga_wrap s) = vga_cell s"
  by (simp_all add: vga_wrap_def Let_def)

lemma vga_roll_fields [simp]:
  "vga_rows (vga_roll s) = vga_rows s" "vga_cols (vga_roll s) = vga_cols s" "vga_x (vga_roll s) = vga_x s"
  "vga_y (vga_roll s) = (if vga_y s \<ge> vga_rows s then vga_y s - 1 else vga_y s)"
  by (simp_all add: vga_roll_def)

lemma vga_roll_cell:
  "vga_cell (vga_roll s) i = (if vga_y s \<ge> vga_rows s \<and> 0 \<le> i \<and> i < vga_rows s * vga_cols s
     then vga_cell s (i + vga_cols s) else vga_cell s i)"
  by (simp add: vga_roll_def)

lemma vga_cursor_fields [simp]:
  "vga_rows (vga_cursor s) = vga_rows s" "vga_cols (vga_cursor s) = vga_cols s" "vga_x (vga_cursor s) = vga_x s"
  "vga_y (vga_cursor s) = vga_y s" "vga_cell (vga_cursor s) = vga_cell s"
  by (simp_all add: vga_cursor_def Let_def)

lemma vga_wrap_ok:
  assumes "vga_rows s = 25" "vga_cols s = 80" "- 1 \<le> vga_x s" "vga_x s \<le> 80" "0 \<le> vga_y s" "vga_y s \<le> 25"
    and "vga_x s < 0 \<longrightarrow> 0 < vga_y s" "vga_y s = 25 \<longrightarrow> vga_x s = 0"
  shows "0 \<le> vga_x (vga_wrap s) \<and> vga_x (vga_wrap s) < 80 \<and> 0 \<le> vga_y (vga_wrap s) \<and> vga_y (vga_wrap s) \<le> 25"
  using assms by (auto simp: vga_wrap_def Let_def)



text \<open>The exception: a backspace in the corner writes the cell before the buffer and leaves the cursor in row -1.\<close>

lemma backspace_at_origin:
  assumes "vga_ok s" "vga_x s = 0" "vga_y s = 0"
  shows "runs (vga_console_putc 8) s (\<lambda>_ t. vga_y t = - 1 \<and> vga_cell t (- 1) = vga_blank (vga_attrib s))"
proof -
  have "vga_rows s = 25" "vga_cols s = 80" using assms(1) by (simp_all add: vga_ok_def)
  with assms(2,3) show ?thesis
    by (simp add: runs_def putc_run vga_roll_cell vga_place_cell) (simp add: vga_wrap_def Let_def)
qed

subsection \<open>Writing text\<close>

lemma putc_plain:
  assumes "vga_ok s" "c \<notin> {8, 10, 13}" "vga_x s < 79"
  shows "runs (vga_console_putc c) s (\<lambda>_ t. vga_ok t \<and> vga_x t = vga_x s + 1 \<and> vga_y t = vga_y s
     \<and> vga_attrib t = vga_attrib s \<and> vmem t = vmem s
     \<and> vga_cell t = (vga_cell s)(vga_y s * 80 + vga_x s := push_bit 8 (ucast (vga_attrib s)) OR scast c))"
proof -
  have s: "vga_rows s = 25" "vga_cols s = 80" "0 \<le> vga_x s" "0 \<le> vga_y s" "vga_y s < 25"
    using assms(1) by (simp_all add: vga_ok_def)
  let ?p = "vga_place c s"
  have "vga_wrap ?p = ?p" "vga_roll ?p = ?p" using assms(2,3) s by (simp_all add: vga_wrap_def vga_roll_def Let_def)
  then have "vga_console_putc c s = Done () (vga_cursor ?p)" using putc_run [of c s] assms(2) by simp
  moreover have "vga_attrib (vga_cursor ?p) = vga_attrib s" "vmem (vga_cursor ?p) = vmem s"
    using assms(2) by (simp_all add: vga_cursor_def vga_place_def Let_def)
  moreover have "vga_cell ?p = (vga_cell s)(vga_y s * 80 + vga_x s := push_bit 8 (ucast (vga_attrib s)) OR scast c)"
    using assms(2) s(2) by (auto simp: vga_place_cell)
  ultimately show ?thesis using assms(2,3) s by (simp add: runs_def vga_ok_def)
qed

text \<open>Text that fits in the rest of the row appears on the screen as written: \<^verbatim>\<open>console_write\<close> of \<open>n\<close> plain
  characters returns \<open>n\<close>, stores them with the current attribute in the \<open>n\<close> cells from the cursor on, in order, leaves
  every other cell alone and moves the cursor behind them.\<close>

theorem console_write_shows_text:
  fixes s :: "'a cons_scheme"
  assumes "vga_ok s" "vga_x s + int (unat n) < 80" "\<forall>k < unat n. vmem s (buf + of_nat k) \<notin> {8, 10, 13}"
  shows "runs (console_write buf n) s (\<lambda>r t. r = n \<and> vga_ok t \<and> vga_x t = vga_x s + int (unat n) \<and> vga_y t = vga_y s
     \<and> (\<forall>i. vga_cell t i =
          (let k = i - (vga_y s * 80 + vga_x s) in
           if 0 \<le> k \<and> k < int (unat n) then push_bit 8 (ucast (vga_attrib s)) OR scast (vmem s (buf + of_nat (nat k)))
           else vga_cell s i)))"
proof -
  define I where "I k t \<longleftrightarrow> vga_ok t \<and> vga_x t = vga_x s + int k \<and> vga_y t = vga_y s \<and> vga_attrib t = vga_attrib s
     \<and> vmem t = vmem s \<and> (\<forall>i. vga_cell t i =
          (let j = i - (vga_y s * 80 + vga_x s) in
           if 0 \<le> j \<and> j < int k then push_bit 8 (ucast (vga_attrib s)) OR scast (vmem s (buf + of_nat (nat j)))
           else vga_cell s i))" for k and t :: "'a cons_scheme"
  have "runs (kfor [0..<unat n] (\<lambda>i. kbind (kget (\<lambda>s. vmem s (buf + of_nat i))) vga_console_putc)) s (\<lambda>_. I (unat n))"
  proof (rule runs_kfor_upt)
    show "I 0 s" using assms(1) by (auto simp: I_def Let_def)
  next
    fix k t
    assume k: "k < unat n" and t: "I k t"
    have x: "vga_x s + int k < 79" using assms(2) k by linarith
    have "runs (vga_console_putc (vmem t (buf + of_nat k))) t (\<lambda>_. I (Suc k))"
    proof (rule runs_weaken [OF putc_plain])
      show "vga_ok t" "vmem t (buf + of_nat k) \<notin> {8, 10, 13}" "vga_x t < 79"
        using t k x assms(3) by (simp_all add: I_def)
    next
      fix u :: "'a cons_scheme"
      assume "vga_ok u \<and> vga_x u = vga_x t + 1 \<and> vga_y u = vga_y t \<and> vga_attrib u = vga_attrib t \<and> vmem u = vmem t
        \<and> vga_cell u = (vga_cell t)(vga_y t * 80 + vga_x t := push_bit 8 (ucast (vga_attrib t)) OR scast (vmem t (buf + of_nat k)))"
      then show "I (Suc k) u" using t by (auto simp: I_def Let_def)
    qed
    then show "runs (kbind (kget (\<lambda>s. vmem s (buf + of_nat k))) vga_console_putc) t (\<lambda>_. I (Suc k))"
      by (simp add: runs_def)
  qed
  then show ?thesis unfolding console_write_def
    by (intro runs_kthen, elim runs_weaken) (simp add: runs_def I_def)
qed

subsection \<open>Keys typed and keys read\<close>

text \<open>The contract of a bounded queue of keys, whose \<open>get\<close> delivers a key to a place of the caller's choice.\<close>

locale key_queue =
  fixes ok :: "'s \<Rightarrow> bool"
    and queued :: "'s \<Rightarrow> 'b list"
    and cap :: nat
    and put :: "'b \<Rightarrow> ('s, unit) kern"
    and get :: "'k \<Rightarrow> ('s, int) kern"
    and got :: "'s \<Rightarrow> 'k \<Rightarrow> 'b"
  assumes put_law: "ok s \<Longrightarrow> length (queued s) < cap \<Longrightarrow>
      runs (put c) s (\<lambda>_ t. ok t \<and> queued t = queued s @ [c] \<and> got t = got s)"
    and get_law: "ok s \<Longrightarrow> queued s = c # cs \<Longrightarrow>
      runs (get k) s (\<lambda>r t. r = 1 \<and> ok t \<and> queued t = cs \<and> got t = (got s)(k := c))"
    and get_empty: "ok s \<Longrightarrow> queued s = [] \<Longrightarrow> get k s = Done 0 s"
begin

lemma puts_law:
  "ok s \<Longrightarrow> length (queued s) + length cs \<le> cap \<Longrightarrow>
     runs (kfor cs put) s (\<lambda>_ t. ok t \<and> queued t = queued s @ cs \<and> got t = got s)"
proof (induction cs arbitrary: s)
  case (Cons c cs)
  from put_law [of s c] Cons.prems
  obtain u t where "put c s = Done u t" "ok t" "queued t = queued s @ [c]" "got t = got s" by (auto elim!: runsE)
  with Cons.IH [of t] Cons.prems(2) show ?case by (simp add: runs_def)
qed (simp add: runs_def)

lemma drain_law:
  "ok s \<Longrightarrow> queued s = cs \<Longrightarrow> length ks = length cs \<Longrightarrow> distinct ks \<Longrightarrow>
     runs (kfor ks (\<lambda>k. kthen (get k) (kret ()))) s (\<lambda>_ t. ok t \<and> queued t = [] \<and> map (got t) ks = cs
       \<and> (\<forall>j. j \<notin> set ks \<longrightarrow> got t j = got s j))"
proof (induction ks arbitrary: s cs)
  case (Cons k ks)
  then obtain c ds where cs: "cs = c # ds" by (cases cs) auto
  from get_law [of s c ds k] Cons.prems cs
  obtain t where t: "get k s = Done 1 t" "ok t" "queued t = ds" "got t = (got s)(k := c)" by (auto elim!: runsE)
  have "runs (kfor ks (\<lambda>k. kthen (get k) (kret ()))) t (\<lambda>_ u. ok u \<and> queued u = [] \<and> map (got u) ks = ds
       \<and> (\<forall>j. j \<notin> set ks \<longrightarrow> got u j = got t j))"
    by (rule Cons.IH [OF t(2,3)]) (use Cons.prems cs in simp_all)
  with t Cons.prems(4) cs show ?case by (auto simp: runs_def kthen_assoc kthen_kret simp del: kret_run)
qed (simp add: runs_def)

end

definition rbuf_ok :: "'a cons_scheme \<Rightarrow> bool" where
  "rbuf_ok s \<longleftrightarrow> length (ConsoleReadBuf s) = CONS_RBUF_LEN \<and> 0 \<le> RBufRead s \<and> RBufRead s \<le> RBufWrite s
     \<and> RBufWrite s - RBufRead s \<le> int CONS_RBUF_LEN"

definition pending :: "'a cons_scheme \<Rightarrow> u8 list" where
  "pending s = map (\<lambda>i. ConsoleReadBuf s ! nat (i mod int CONS_RBUF_LEN)) [RBufRead s..RBufWrite s - 1]"

lemma ring_slot_distinct:
  fixes i j n :: int
  assumes "i < j" "j - i < n" "0 \<le> i"
  shows "nat (i mod n) \<noteq> nat (j mod n)"
proof
  assume "nat (i mod n) = nat (j mod n)"
  then have "i mod n = j mod n" using assms pos_mod_sign [of n] by (simp add: eq_nat_nat_iff)
  then have "n dvd (j - i)" by (metis mod_eq_dvd_iff)
  then show False using assms zdvd_not_zless [of "j - i" n] by simp
qed

lemma rbuf_putc_law:
  assumes "rbuf_ok s" "length (pending s) < CONS_RBUF_LEN"
  shows "runs (console_rbuf_putc c) s (\<lambda>_ t. rbuf_ok t \<and> pending t = pending s @ [c] \<and> vmem t = vmem s)"
proof -
  let ?R = "RBufRead s" and ?W = "RBufWrite s" and ?n = "int CONS_RBUF_LEN"
  define t where "t = s\<lparr>ConsoleReadBuf := (ConsoleReadBuf s)[nat (?W mod ?n) := c], RBufWrite := ?W + 1\<rparr>"
  have s: "length (ConsoleReadBuf s) = CONS_RBUF_LEN" "0 \<le> ?R" "?R \<le> ?W" using assms(1) by (simp_all add: rbuf_ok_def)
  have room: "?W - ?R < ?n" using assms(2) s by (simp add: pending_def)
  have new: "ConsoleReadBuf t ! nat (?W mod ?n) = c" using s(1) by (simp add: t_def CONS_RBUF_LEN_def)
  have old: "ConsoleReadBuf t ! nat (i mod ?n) = ConsoleReadBuf s ! nat (i mod ?n)" if "i \<in> set [?R..?W - 1]" for i
    using that ring_slot_distinct [of i ?W ?n] s room by (simp add: t_def)
  have "[?R..?W] = [?R..?W - 1] @ [?W]" using s(3) upto_rec2 by simp
  then have "pending t = pending s @ [c]" using old new by (simp add: pending_def t_def)
  moreover have "rbuf_ok t" using s room by (simp add: rbuf_ok_def t_def)
  moreover have "console_rbuf_putc c s = Done () t" "vmem t = vmem s" by (simp_all add: console_rbuf_putc_def t_def)
  ultimately show ?thesis by (simp add: runs_def)
qed

lemma rbuf_getc_law:
  assumes "rbuf_ok s" "pending s = c # cs"
  shows "runs (console_rbuf_getc a) s (\<lambda>r t. r = 1 \<and> rbuf_ok t \<and> pending t = cs \<and> vmem t = (vmem s)(a := c))"
proof -
  let ?R = "RBufRead s" and ?W = "RBufWrite s" and ?n = "int CONS_RBUF_LEN"
  have lt: "?R < ?W" using assms(2) by (cases "?R < ?W") (simp_all add: pending_def)
  then have "[?R..?W - 1] = ?R # [?R + 1..?W - 1]" using upto_rec1 [of ?R "?W - 1"] by simp
  then have "ConsoleReadBuf s ! nat (?R mod ?n) = c"
    "map (\<lambda>i. ConsoleReadBuf s ! nat (i mod ?n)) [?R + 1..?W - 1] = cs"
    using assms(2) by (simp_all add: pending_def)
  with lt assms(1) show ?thesis by (simp add: runs_def console_rbuf_getc_def rbuf_ok_def pending_def)
qed

lemma rbuf_getc_empty: "rbuf_ok s \<Longrightarrow> pending s = [] \<Longrightarrow> console_rbuf_getc a s = Done 0 s"
  by (simp add: rbuf_ok_def pending_def console_rbuf_getc_def)

interpretation cq: key_queue rbuf_ok pending CONS_RBUF_LEN console_rbuf_putc console_rbuf_getc vmem
  by unfold_locales (use rbuf_putc_law rbuf_getc_law rbuf_getc_empty in auto)

subsection \<open>Reading a line\<close>

text \<open>The line discipline: a backspace takes back the last character, a newline or a zero ends the line.\<close>

fun edit :: "u8 list \<Rightarrow> u8 list \<Rightarrow> u8 list option" where
  "edit acc [] = None"
| "edit acc (c # cs) =
     (if c = 8 then edit (butlast acc) cs
      else if c = 10 \<or> c = 0 then Some (acc @ [c])
      else edit (acc @ [c]) cs)"

lemma putc_keeps:
  "runs (vga_console_putc c) s (\<lambda>_ t. vmem t = vmem s \<and> pending t = pending s \<and> rbuf_ok t = rbuf_ok s)"
proof -
  have place: "vmem (vga_place c s) = vmem s \<and> pending (vga_place c s) = pending s \<and> rbuf_ok (vga_place c s) = rbuf_ok s"
    for s :: "'a cons_scheme" by (simp add: vga_place_def pending_def rbuf_ok_def)
  have wrap: "vmem (vga_wrap s) = vmem s \<and> pending (vga_wrap s) = pending s \<and> rbuf_ok (vga_wrap s) = rbuf_ok s"
    for s :: "'a cons_scheme" by (simp add: vga_wrap_def pending_def rbuf_ok_def Let_def)
  have roll: "vmem (vga_roll s) = vmem s \<and> pending (vga_roll s) = pending s \<and> rbuf_ok (vga_roll s) = rbuf_ok s"
    for s :: "'a cons_scheme" by (simp add: vga_roll_def pending_def rbuf_ok_def)
  have cursor: "vmem (vga_cursor s) = vmem s \<and> pending (vga_cursor s) = pending s \<and> rbuf_ok (vga_cursor s) = rbuf_ok s"
    for s :: "'a cons_scheme" by (simp add: vga_cursor_def pending_def rbuf_ok_def Let_def)
  show ?thesis by (simp add: runs_def putc_run place wrap roll cursor)
qed

lemma buf_bytes_upd_end:
  assumes "n < 2 ^ 32"
  shows "buf_bytes (m(a + of_nat n := c)) a n = buf_bytes m a n" "buf_bytes (m(a + of_nat n := c)) a (Suc n) = buf_bytes m a n @ [c]"
proof -
  have "a + of_nat k \<noteq> a + (of_nat n :: u32)" if "k < n" for k
  proof -
    have "unat (of_nat k :: u32) = k" "unat (of_nat n :: u32) = n" using that assms by (simp_all add: unat_of_nat)
    then show ?thesis using that by auto
  qed
  then show "buf_bytes (m(a + of_nat n := c)) a n = buf_bytes m a n" by (simp add: buf_bytes_def)
  then show "buf_bytes (m(a + of_nat n := c)) a (Suc n) = buf_bytes m a n @ [c]" by (simp add: buf_bytes_def)
qed

lemma read_loop_run:
  assumes "rbuf_ok s" "edit acc (pending s) = Some line" "buf_bytes (vmem s) buf (length acc) = acc"
    and "length acc + length (pending s) < 2 ^ 32"
  shows "runs (console_read_loop irq buf (length acc)) s
     (\<lambda>r t. r = of_nat (length line) \<and> buf_bytes (vmem t) buf (length line) = line)"
  using assms
proof (induction "pending s" arbitrary: s acc)
  case Nil
  then show ?case by (metis edit.simps(1) option.distinct(1))
next
  case (Cons c cs)
  have acc: "length acc < 2 ^ 32" using Cons.prems(4) Cons.hyps(2) [symmetric] by simp
  obtain s1 where s1: "console_rbuf_getc (buf + of_nat (length acc)) s = Done 1 s1" "rbuf_ok s1" "pending s1 = cs"
    "vmem s1 = (vmem s)(buf + of_nat (length acc) := c)"
    using rbuf_getc_law [OF Cons.prems(1) Cons.hyps(2) [symmetric]] by (auto elim!: runsE)
  obtain s2 where s2: "vga_console_putc c s1 = Done () s2" "vmem s2 = vmem s1" "pending s2 = cs" "rbuf_ok s2"
    using putc_keeps [of c s1] s1 by (auto elim!: runsE)
  note bytes = buf_bytes_upd_end [OF acc, of "vmem s" buf]
  note loop = console_read_loop.simps [of irq buf "length acc" s]
  consider "c = 8" "acc = []" | "c = 8" "acc \<noteq> []" | "c = 10 \<or> c = 0" | "c \<noteq> 8" "c \<noteq> 10" "c \<noteq> 0" by auto
  then show ?case
  proof cases
    case 1
    have "runs (console_read_loop irq buf (length ([] :: u8 list))) s1
        (\<lambda>r t. r = of_nat (length line) \<and> buf_bytes (vmem t) buf (length line) = line)"
      by (rule Cons.hyps(1)) (use 1 Cons.prems Cons.hyps(2) [symmetric] s1 in \<open>simp_all add: buf_bytes_def\<close>)
    moreover have "console_read_loop irq buf 0 s = console_read_loop irq buf 0 s1"
      using loop 1 s1 by simp
    ultimately show ?thesis using 1 by (simp add: runs_def)
  next
    case 2
    define s3 where "s3 = s2\<lparr>vmem := (vmem s2)(buf + of_nat (length acc) := 0)\<rparr>"
    have run: "console_read_loop irq buf (length acc) s = console_read_loop irq buf (length (butlast acc)) s3"
      using loop 2 s1 s2 by (simp add: s3_def)
    have "buf_bytes (vmem s3) buf (length acc) = acc"
      using bytes(1) Cons.prems(3) s1 s2 by (simp add: s3_def)
    then have "buf_bytes (vmem s3) buf (length (butlast acc)) = butlast acc"
      using buf_bytes_take [of "length acc - 1" "length acc" "vmem s3" buf] by (simp add: butlast_conv_take)
    moreover have "rbuf_ok s3" "pending s3 = cs" using s2 by (simp_all add: s3_def rbuf_ok_def pending_def)
    ultimately have "runs (console_read_loop irq buf (length (butlast acc))) s3
        (\<lambda>r t. r = of_nat (length line) \<and> buf_bytes (vmem t) buf (length line) = line)"
      by (intro Cons.hyps(1)) (use 2 Cons.prems Cons.hyps(2) [symmetric] in auto)
    then show ?thesis by (simp only: runs_def run)
  next
    case 3
    then have "console_read_loop irq buf (length acc) s = Done (of_nat (length acc + 1)) s2"
      using loop s1 s2 by auto
    moreover have "line = acc @ [c]" using 3 Cons.prems(2) Cons.hyps(2) [symmetric] by auto
    ultimately show ?thesis using bytes(2) Cons.prems(3) s1 s2 by (simp add: runs_def)
  next
    case 4
    have run: "console_read_loop irq buf (length acc) s = console_read_loop irq buf (length (acc @ [c])) s2"
      using loop 4 s1 s2 by simp
    have "runs (console_read_loop irq buf (length (acc @ [c]))) s2
        (\<lambda>r t. r = of_nat (length line) \<and> buf_bytes (vmem t) buf (length line) = line)"
      by (rule Cons.hyps(1)) (use 4 Cons.prems Cons.hyps(2) [symmetric] s1 s2 bytes in simp_all)
    then show ?thesis by (simp only: runs_def run)
  qed
qed


text \<open>The length the caller asked for is not looked at: a longer line is stored beyond the caller's buffer.\<close>

lemma console_read_ignores_count: "console_read irq buf n = console_read irq buf m"
  by (simp add: console_read_def)

subsection \<open>A concrete console\<close>

definition demo_cons :: cons where
  "demo_cons = cpios.extend demo_cpios \<lparr>vga_cell = (\<lambda>_. 0x720), vga_x = 3, vga_y = 24, vga_rows = 25, vga_cols = 80,
     vga_attrib = 7, ConsoleReadBuf = replicate 256 0, RBufRead = 255, RBufWrite = 255, kbd_putc_set = True\<rparr>"

lemma demo_cons_simps [simp]:
  "vga_ok demo_cons" "rbuf_ok demo_cons" "pending demo_cons = []" "vga_x demo_cons = 3" "vga_y demo_cons = 24"
  "vmem demo_cons = buf_put (\<lambda>_. 0) 0x2000 demo_archive" "vga_attrib demo_cons = 7"
  by (simp_all add: demo_cons_def cpios.defs vga_ok_def rbuf_ok_def pending_def CONS_RBUF_LEN_def
      demo_cpios_def fss.defs)


theorem console_write_shows_text_witness:
  "runs (console_write 0x201A 1) demo_cons (\<lambda>r t. r = 1 \<and> vga_cell t 1923 = 0x761)"
proof -
  have "buf_put (\<lambda>_. 0) 0x2000 demo_archive (0x2000 + of_nat 26) = demo_archive ! 26"
    by (rule buf_put_at) (simp_all add: demo_archive_def)
  then have b: "buf_put (\<lambda>_. 0) 0x2000 demo_archive 0x201A = 97" by (simp add: demo_archive_def nth_append)
  then show ?thesis
    by (intro runs_weaken [OF console_write_shows_text]) (simp_all add: Let_def)
qed


text \<open>A key code beyond the key map, such as F1 (0x3B), makes the interrupt read past the map.\<close>

definition f1_key :: "ioev list \<Rightarrow> u16 \<Rightarrow> u16" where
  "f1_key tr p = (if p = KBD_STATUS then 1 else 0x3B)"

lemma kbd_unmapped_key_overruns:
  assumes "devices s = f1_key" "kbd_putc_set s"
  shows "kbd_intr s = Halt BadAccess"
proof -
  have "length Keymap = 58" by (simp add: Keymap_def)
  with assms show ?thesis by (simp add: kbd_intr.simps [of s] f1_key_def KBD_STATUS_def KBD_DATA_def)
qed

end
