(* ===== verification/Sched.thy ===== *)
theory Sched
  imports Console
begin

text \<open>
  The scheduler (\<^verbatim>\<open>kernel/proc/sched.c\<close>) and the context switch (\<^verbatim>\<open>arch/x86/proc/task.c\<close>,
  \<^verbatim>\<open>context.S\<close>). A context switch leaves one flow of control and continues another where it stopped,
  in \<^verbatim>\<open>task_enter\<close> or in \<^verbatim>\<open>task_fork\<close>; the state records for each task which of the two
  its saved stack belongs to (\<open>resume\<close>). In the model \<^verbatim>\<open>kern_sched_yield\<close> ends in the state in which the
  task it chose goes on.
\<close>

subsection \<open>Contexts\<close>

datatype resume_point = InTaskEnter | InTaskFork

record scheds = cons +
  resume :: "u32 \<Rightarrow> resume_point"

text \<open>\<^verbatim>\<open>context.S\<close>: the stack pointers are saved, the page directory is not; loading sets all three.\<close>

definition task_store_context :: "u32 \<Rightarrow> ('a procs_scheme, unit) kern" where
  "task_store_context task = kmod (\<lambda>s. upd_task task (\<lambda>t. t\<lparr>t_esp := esp s, t_ebp := ebp s\<rparr>) s)"

definition task_load_context :: "u32 \<Rightarrow> ('a procs_scheme, unit) kern" where
  "task_load_context task = kmod (\<lambda>s. s\<lparr>esp := t_esp (tasks s task), ebp := t_ebp (tasks s task), cr3 := t_pgd (tasks s task)\<rparr>)"

definition task_fork_context :: "u32 \<Rightarrow> ('a mmu_scheme, unit) kern" where
  "task_fork_context task =
     kthen (task_store_context task)
    (kbind mmu_read_cr3 (\<lambda>dir.
     kbind (pg_clone_dir dir) (\<lambda>pgd.
     kmod (upd_task task (\<lambda>t. t\<lparr>t_pgd := pgd\<rparr>)))))"

definition task_enter :: "u32 \<Rightarrow> ('a scheds_scheme, unit) kern" where
  "task_enter task =
     kbind (kget CurrentTask) (\<lambda>me.
     kthen (task_store_context me)
    (kthen (kmod (\<lambda>s. s\<lparr>resume := (resume s)(me := InTaskEnter), CurrentTask := task\<rparr>))
    (kthen (task_load_context task)
    (kbind (kget (\<lambda>s. resume s task)) (\<lambda>r.
     case r of InTaskEnter \<Rightarrow> task_signal_exec task | InTaskFork \<Rightarrow> kret ())))))"

text \<open>The flow of control of the parent; \<open>clone\<close> is the address \<^verbatim>\<open>calloc\<close> returned. The child goes on with
  the result 0 when it is entered for the first time.\<close>

definition task_fork :: "u32 \<Rightarrow> ('a scheds_scheme, u32) kern" where
  "task_fork clone =
     kbind (task_clone clone) (\<lambda>clone.
     kthen (task_insert clone)
    (kthen (task_fork_context clone)
    (kthen (kmod (\<lambda>s. s\<lparr>resume := (resume s)(clone := InTaskFork)\<rparr>))
    (kbind (kget CurrentTask) (\<lambda>me. kret (if me = clone then NULL else clone))))))"

definition task_mask_preempt :: "('a scheds_scheme, unit) kern" where
  "task_mask_preempt = pic_mask (of_nat (INT_PIT - INT_PIC1_BASE))"

definition task_unmask_preempt :: "('a scheds_scheme, unit) kern" where
  "task_unmask_preempt = pic_unmask (of_nat (INT_PIT - INT_PIC1_BASE))"

definition task_enable_preempt :: "('a scheds_scheme, unit) kern" where
  "task_enable_preempt = kthen task_mask_preempt (idt_set_handler INT_PIT IsrPreempt)"

subsection \<open>Choosing a task\<close>

text \<open>One iteration unlinks a task that has quit (keeping its \<^verbatim>\<open>next\<close> pointer for the walk), and ends the loop at a
  task that is ready or waits for a signal that is pending.\<close>

definition sched_unlink :: "u32 \<Rightarrow> links \<Rightarrow> stop + links" where
  "sched_unlink task h =
     (case list_remove task h of Inl e \<Rightarrow> Inl e | Inr h' \<Rightarrow> Inr (set_next task (lnext h task) h'))"

definition sig_ready :: "task \<Rightarrow> bool" where
  "sig_ready t \<longleftrightarrow> t_state t = TaskSigWait \<and> t_sigpend t \<noteq> 0 \<and> (t_sigpend t = t_sigwait t \<or> t_sigwait t = 0)"

partial_function (option) sched_loop ::
  "u32 \<Rightarrow> 'a procs_scheme \<Rightarrow> (stop + u32 \<times> 'a procs_scheme) option" where
  "sched_loop task s =
     (let n = lnext (task_links s) task in
      if n = NULL then Halt NullCall
      else case (if t_state (tasks s n) = TaskQuit then sched_unlink n (task_links s) else Inr (task_links s)) of
        Inl e \<Rightarrow> Halt e
      | Inr h \<Rightarrow>
          if sig_ready (tasks s n) then Done n (upd_task n (\<lambda>t. t\<lparr>t_state := TaskReady\<rparr>) (s\<lparr>task_links := h\<rparr>))
          else if t_state (tasks s n) \<noteq> TaskReady then sched_loop n (s\<lparr>task_links := h\<rparr>)
          else Done n (s\<lparr>task_links := h\<rparr>))"

definition kern_sched_yield :: "('a scheds_scheme, unit) kern" where
  "kern_sched_yield =
     kthen intr_disable
    (kbind (kget CurrentTask) (\<lambda>me.
     kbind (sched_loop me) (\<lambda>next_task.
     kthen (task_enter next_task) intr_enable)))"

definition sched_preempt :: "isrargs \<Rightarrow> ('a scheds_scheme, isrargs) kern" where
  "sched_preempt args = kthen kern_sched_yield (kret args)"

definition sched_init :: "('a scheds_scheme, unit) kern" where
  "sched_init =
     kthen (kmod (\<lambda>s. let k = sym_KernelTask (syms s) in s\<lparr>task_links := set_prev k k (set_next k k (task_links s))\<rparr>))
           task_enable_preempt"

text \<open>\<^verbatim>\<open>task_sigwait\<close> of the current task. The call of \<^verbatim>\<open>sched_yield\<close> returns when the task is chosen again;
  \<open>others\<close> is what the other tasks do until then.\<close>

definition task_sigwait :: "('a scheds_scheme, unit) kern \<Rightarrow> u32 \<Rightarrow> ('a scheds_scheme, unit) kern" where
  "task_sigwait others task =
     kthen (kmod (upd_task task (\<lambda>t. t\<lparr>t_state := TaskSigWait\<rparr>))) (kthen kern_sched_yield others)"

subsection \<open>Round robin\<close>

definition runnable :: "'a procs_scheme \<Rightarrow> u32 \<Rightarrow> bool" where
  "runnable s x \<longleftrightarrow> t_state (tasks s x) = TaskReady \<or> sig_ready (tasks s x)"

abbreviation quit :: "'a procs_scheme \<Rightarrow> u32 \<Rightarrow> bool" where
  "quit s x \<equiv> t_state (tasks s x) = TaskQuit"

definition woken :: "u32 \<Rightarrow> 'a procs_scheme \<Rightarrow> 'a procs_scheme" where
  "woken n s = (if sig_ready (tasks s n) then upd_task n (\<lambda>t. t\<lparr>t_state := TaskReady\<rparr>) s else s)"

lemma ring_set_next_outside: "e \<notin> set xs \<Longrightarrow> ring (set_next e v h) xs = ring h xs"
proof -
  assume e: "e \<notin> set xs"
  have "chain (set_next e v h) (xs @ [hd xs]) = chain h (xs @ [hd xs])" if "xs \<noteq> []"
  proof (rule chain_cong)
    fix x assume "x \<in> set (butlast (xs @ [hd xs]))"
    then have "x \<noteq> e" using e by auto
    then show "lnext (set_next e v h) x = lnext h x" by (simp add: set_next_def)
  qed (simp add: set_next_def)
  then show ?thesis by (auto simp: ring_def)
qed

lemma ring_next_hd: "ring h (a # xs @ q # ys) \<Longrightarrow> lnext h q = hd (ys @ [a])"
  using ring_next(1) [of h "a # xs" q] ring_next_last(1) [of h a "xs @ [q]"] by (cases ys) auto

lemma ring_first: "ring h (c # ts) \<Longrightarrow> lnext h c = hd (ts @ [c])"
  using ring_next(1) [of h "[]" c] ring_next_last(1) [of h c "[]"] by (cases ts) auto

lemma sched_unlink_ring:
  assumes "ring h (xs @ q # ys)" "xs @ ys \<noteq> []"
  obtains h' where "sched_unlink q h = Inr h'" "ring h' (xs @ ys)" "lnext h' q = lnext h q"
proof -
  obtain h1 where "list_remove q h = Inr h1" "ring h1 (xs @ ys)" using kl.rem_anywhere [OF assms] by blast
  moreover have "q \<notin> set (xs @ ys)" using assms(1) by (auto simp: ring_def)
  ultimately have "sched_unlink q h = Inr (set_next q (lnext h q) h1)" "ring (set_next q (lnext h q) h1) (xs @ ys)"
    using ring_set_next_outside by (simp_all add: sched_unlink_def)
  then show thesis by (rule that) (simp add: set_next_def)
qed

lemma sched_loop_run:
  assumes "ring (task_links s) (c # kept @ rem)" "lnext (task_links s) p = hd (rem @ [c])"
    and "rem @ [c] = qs @ n # rest" "\<forall>q \<in> set qs. \<not> runnable s q" "runnable s n"
  shows "\<exists>h. sched_loop p s = Done n (woken n (s\<lparr>task_links := h\<rparr>))
     \<and> ring h (c # kept @ filter (\<lambda>q. \<not> quit s q) qs @ drop (length qs) rem)"
  using assms
proof (induction qs arbitrary: p s kept rem)
  case Nil
  then have n: "lnext (task_links s) p = n" by simp
  have "n \<in> set (rem @ [c])" using Nil.prems(3) by simp
  then have "n \<noteq> NULL" using Nil.prems(1) by (auto simp: ring_def)
  moreover have "\<not> quit s n" using Nil.prems(5) by (auto simp: runnable_def sig_ready_def)
  ultimately have "sched_loop p s = Done n (woken n s)"
    using n Nil.prems(5) by (auto simp: sched_loop.simps [of p s] Let_def runnable_def woken_def)
  then have "sched_loop p s = Done n (woken n (s\<lparr>task_links := task_links s\<rparr>))" by simp
  then show ?case using Nil.prems(1) by (intro exI [of _ "task_links s"]) simp
next
  case (Cons q qs)
  then obtain rem' where rem: "rem = q # rem'" "rem' @ [c] = qs @ n # rest" by (cases rem) auto
  have q: "lnext (task_links s) p = q" "q \<noteq> NULL" "\<not> sig_ready (tasks s q)" "t_state (tasks s q) \<noteq> TaskReady"
    using Cons.prems rem by (auto simp: ring_def runnable_def)
  have nxt: "lnext (task_links s) q = hd (rem' @ [c])" using ring_next_hd Cons.prems(1) rem by simp
  show ?case
  proof (cases "quit s q")
    case True
    obtain h where h: "sched_unlink q (task_links s) = Inr h" "ring h (c # kept @ rem')" "lnext h q = hd (rem' @ [c])"
      using sched_unlink_ring [of "task_links s" "c # kept" q rem'] Cons.prems(1) rem nxt by auto
    have "sched_loop p s = sched_loop q (s\<lparr>task_links := h\<rparr>)"
      using q h True by (simp add: sched_loop.simps [of p s])
    moreover have "\<exists>h'. sched_loop q (s\<lparr>task_links := h\<rparr>) = Done n (woken n (s\<lparr>task_links := h, task_links := h'\<rparr>))
        \<and> ring h' (c # kept @ filter (\<lambda>q. \<not> quit (s\<lparr>task_links := h\<rparr>) q) qs @ drop (length qs) rem')"
      by (rule Cons.IH) (use h rem Cons.prems(4,5) in \<open>simp_all add: runnable_def\<close>)
    ultimately show ?thesis using True rem by simp
  next
    case False
    have "sched_loop p s = sched_loop q s"
      using q False by (simp add: sched_loop.simps [of p s])
    moreover have "\<exists>h'. sched_loop q s = Done n (woken n (s\<lparr>task_links := h'\<rparr>))
        \<and> ring h' (c # (kept @ [q]) @ filter (\<lambda>q. \<not> quit s q) qs @ drop (length qs) rem')"
      by (rule Cons.IH) (use rem nxt Cons.prems in simp_all)
    ultimately show ?thesis using False rem by simp
  qed
qed


lemma woken_simps [simp]:
  "CurrentTask (woken n s) = CurrentTask s" "task_links (woken n s) = task_links s" "esp (woken n s) = esp s" "next_pid (woken n s) = next_pid s"
  "t_pgd (tasks (woken n s) x) = t_pgd (tasks s x)" "t_esp (tasks (woken n s) x) = t_esp (tasks s x)"
  "x \<noteq> n \<Longrightarrow> tasks (woken n s) x = tasks s x"
  "t_sigpend (tasks (woken n s) x) = t_sigpend (tasks s x)" "t_sigact (tasks (woken n s) x) = t_sigact (tasks s x)"
  "runnable s n \<Longrightarrow> t_state (tasks (woken n s) n) = TaskReady" "t_pid (tasks (woken n s) x) = t_pid (tasks s x)"
  by (auto simp: woken_def runnable_def upd_task_def)

lemma signal_exec_frame:
  assumes "t_sigpend (tasks s a) \<noteq> 0 \<longrightarrow> unat (t_sigpend (tasks s a)) < length (t_sigact (tasks s a))"
  shows "runs (task_signal_exec a) s (\<lambda>_ t. CurrentTask t = CurrentTask s \<and> task_links t = task_links s \<and> esp t = esp s
     \<and> cr3 t = cr3 s \<and> next_pid t = next_pid s \<and> (\<forall>x. x \<noteq> a \<longrightarrow> tasks t x = tasks s x) \<and> t_state (tasks t a) = t_state (tasks s a)
     \<and> t_pid (tasks t a) = t_pid (tasks s a) \<and> t_esp (tasks t a) = t_esp (tasks s a) \<and> t_sigpend (tasks t a) = 0)"
  using assms by (auto simp: runs_def task_signal_exec_def Let_def upd_task_def)

lemma task_enter_run:
  fixes s :: "'a scheds_scheme"
  assumes "t_sigpend (tasks s n) \<noteq> 0 \<longrightarrow> unat (t_sigpend (tasks s n)) < length (t_sigact (tasks s n))"
  shows "runs (task_enter n) s (\<lambda>_ t. CurrentTask t = n \<and> task_links t = task_links s \<and> next_pid t = next_pid s
     \<and> esp t = (if n = CurrentTask s then esp s else t_esp (tasks s n)) \<and> cr3 t = t_pgd (tasks s n)
     \<and> (\<forall>x. x \<noteq> n \<and> x \<noteq> CurrentTask s \<longrightarrow> tasks t x = tasks s x) \<and> t_esp (tasks t (CurrentTask s)) = esp s
     \<and> (\<forall>x. t_state (tasks t x) = t_state (tasks s x) \<and> t_pid (tasks t x) = t_pid (tasks s x))
     \<and> (t_sigpend (tasks s n) = 0 \<longrightarrow> (\<forall>x. t_sigpend (tasks t x) = t_sigpend (tasks s x))))"
proof -
  let ?c = "CurrentTask s"
  define s1 where "s1 = upd_task ?c (\<lambda>t. t\<lparr>t_esp := esp s, t_ebp := ebp s\<rparr>) s"
  define s2 where "s2 = s1\<lparr>resume := (resume s1)(?c := InTaskEnter), CurrentTask := n\<rparr>"
  define s3 where "s3 = s2\<lparr>esp := t_esp (tasks s2 n), ebp := t_ebp (tasks s2 n), cr3 := t_pgd (tasks s2 n)\<rparr>"
  have run: "task_enter n s = (case resume s3 n of InTaskEnter \<Rightarrow> task_signal_exec n s3 | InTaskFork \<Rightarrow> Done () s3)"
    by (simp add: task_enter_def task_store_context_def task_load_context_def s1_def s2_def s3_def split: resume_point.splits)
  have t3: "tasks s3 = tasks s1" "tasks s1 = (tasks s)(?c := (tasks s ?c)\<lparr>t_esp := esp s, t_ebp := ebp s\<rparr>)"
    by (simp_all add: s3_def s2_def s1_def upd_task_def)
  have f3: "CurrentTask s3 = n" "task_links s3 = task_links s" "next_pid s3 = next_pid s" "esp s3 = t_esp (tasks s1 n)" "cr3 s3 = t_pgd (tasks s1 n)"
    by (simp_all add: s3_def s2_def s1_def upd_task_def)
  show ?thesis
  proof (cases "resume s3 n")
    case InTaskEnter
    have "t_sigpend (tasks s3 n) \<noteq> 0 \<longrightarrow> unat (t_sigpend (tasks s3 n)) < length (t_sigact (tasks s3 n))"
      using assms t3 by auto
    from signal_exec_frame [OF this] obtain t where "task_signal_exec n s3 = Done () t"
      "CurrentTask t = CurrentTask s3" "task_links t = task_links s3" "esp t = esp s3"
      "cr3 t = cr3 s3" "next_pid t = next_pid s3" "\<And>x. x \<noteq> n \<Longrightarrow> tasks t x = tasks s3 x" "t_state (tasks t n) = t_state (tasks s3 n)"
      "t_pid (tasks t n) = t_pid (tasks s3 n)" "t_esp (tasks t n) = t_esp (tasks s3 n)" "t_sigpend (tasks t n) = 0"
      by (auto elim!: runsE)
    moreover have "t_state (tasks t x) = t_state (tasks s x) \<and> t_pid (tasks t x) = t_pid (tasks s x)" for x
      using calculation t3 by (cases "x = n") auto
    moreover have "t_sigpend (tasks s n) = 0 \<Longrightarrow> t_sigpend (tasks t x) = t_sigpend (tasks s x)" for x
      using calculation t3 by (cases "x = n") auto
    ultimately show ?thesis using run InTaskEnter t3 f3 by (auto simp: runs_def)
  next
    case InTaskFork
    then show ?thesis using run t3 f3 by (auto simp: runs_def)
  qed
qed

lemma yield_run:
  fixes s :: "'a scheds_scheme"
  assumes "ring (task_links s) (CurrentTask s # ts)" "ts @ [CurrentTask s] = qs @ n # rest"
    and "\<forall>q \<in> set qs. \<not> runnable s q" "runnable s n"
    and "t_sigpend (tasks s n) \<noteq> 0 \<longrightarrow> unat (t_sigpend (tasks s n)) < length (t_sigact (tasks s n))"
  shows "runs kern_sched_yield s (\<lambda>_ t. CurrentTask t = n \<and> t_state (tasks t n) = TaskReady \<and> next_pid t = next_pid s
     \<and> cr3 t = t_pgd (tasks s n) \<and> esp t = (if n = CurrentTask s then esp s else t_esp (tasks s n))
     \<and> t_esp (tasks t (CurrentTask s)) = esp s \<and> iflag t
     \<and> ring (task_links t) (n # rest @ filter (\<lambda>q. \<not> quit s q) qs)
     \<and> (\<forall>x. x \<noteq> n \<and> x \<noteq> CurrentTask s \<longrightarrow> tasks t x = tasks s x)
     \<and> (\<forall>x. x \<noteq> n \<longrightarrow> t_state (tasks t x) = t_state (tasks s x)) \<and> (\<forall>x. t_pid (tasks t x) = t_pid (tasks s x))
     \<and> (t_sigpend (tasks s n) = 0 \<longrightarrow> (\<forall>x. t_sigpend (tasks t x) = t_sigpend (tasks s x))))"
proof -
  let ?c = "CurrentTask s"
  define s0 where "s0 = s\<lparr>iflag := False\<rparr>"
  have s0: "task_links s0 = task_links s" "tasks s0 = tasks s" "CurrentTask s0 = ?c" "esp s0 = esp s" "next_pid s0 = next_pid s"
    by (simp_all add: s0_def)
  have run0: "runnable s0 x = runnable s x" for x by (simp add: runnable_def s0)
  have first: "lnext (task_links s0) ?c = hd (ts @ [?c])"
    using ring_first [OF assms(1)] by (simp add: s0)
  have "\<exists>h. sched_loop ?c s0 = Done n (woken n (s0\<lparr>task_links := h\<rparr>))
     \<and> ring h (?c # [] @ filter (\<lambda>q. \<not> quit s0 q) qs @ drop (length qs) ts)"
    by (rule sched_loop_run [where rest = rest]) (use assms first s0 run0 in simp_all)
  then obtain h where loop: "sched_loop ?c s0 = Done n (woken n (s0\<lparr>task_links := h\<rparr>))"
    and h: "ring h ((?c # filter (\<lambda>q. \<not> quit s q) qs) @ drop (length qs) ts)" using s0 by auto
  have rest: "ring h (n # rest @ filter (\<lambda>q. \<not> quit s q) qs)"
  proof (cases rest rule: rev_cases)
    case Nil
    then have "n = ?c" "ts = qs" using assms(2) by simp_all
    then show ?thesis using h Nil by simp
  next
    case (snoc zs z)
    then have "ts @ [?c] = (qs @ n # zs) @ [z]" using assms(2) by simp
    then have "z = ?c" "ts = qs @ n # zs" by (simp_all only: append1_eq_conv)
    then show ?thesis using ring_rotate [OF h] snoc by simp
  qed
  define s1 where "s1 = woken n (s0\<lparr>task_links := h\<rparr>)"
  have rn: "runnable (s0\<lparr>task_links := h\<rparr>) n" using assms(4) by (simp add: runnable_def s0)
  have s1: "CurrentTask s1 = ?c" "task_links s1 = h" "esp s1 = esp s" "next_pid s1 = next_pid s" "t_state (tasks s1 n) = TaskReady"
    "\<And>x. x \<noteq> n \<Longrightarrow> tasks s1 x = tasks s x" "\<And>x. t_pgd (tasks s1 x) = t_pgd (tasks s x)" "\<And>x. t_esp (tasks s1 x) = t_esp (tasks s x)"
    "\<And>x. t_sigpend (tasks s1 x) = t_sigpend (tasks s x)" "\<And>x. t_sigact (tasks s1 x) = t_sigact (tasks s x)"
    "\<And>x. t_pid (tasks s1 x) = t_pid (tasks s x)"
    using rn by (simp_all add: s1_def s0)
  have "runs (task_enter n) s1 (\<lambda>_ t. CurrentTask t = n \<and> task_links t = task_links s1 \<and> next_pid t = next_pid s1
     \<and> esp t = (if n = CurrentTask s1 then esp s1 else t_esp (tasks s1 n)) \<and> cr3 t = t_pgd (tasks s1 n)
     \<and> (\<forall>x. x \<noteq> n \<and> x \<noteq> CurrentTask s1 \<longrightarrow> tasks t x = tasks s1 x) \<and> t_esp (tasks t (CurrentTask s1)) = esp s1
     \<and> (\<forall>x. t_state (tasks t x) = t_state (tasks s1 x) \<and> t_pid (tasks t x) = t_pid (tasks s1 x))
     \<and> (t_sigpend (tasks s1 n) = 0 \<longrightarrow> (\<forall>x. t_sigpend (tasks t x) = t_sigpend (tasks s1 x))))"
    by (rule task_enter_run) (use assms(5) s1 in simp)
  then obtain u t where ent: "task_enter n s1 = Done u t"
    and r: "CurrentTask t = n" "task_links t = task_links s1" "next_pid t = next_pid s1"
      "esp t = (if n = CurrentTask s1 then esp s1 else t_esp (tasks s1 n))" "cr3 t = t_pgd (tasks s1 n)"
      "\<And>x. x \<noteq> n \<Longrightarrow> x \<noteq> CurrentTask s1 \<Longrightarrow> tasks t x = tasks s1 x" "t_esp (tasks t (CurrentTask s1)) = esp s1"
      "\<And>x. t_state (tasks t x) = t_state (tasks s1 x)" "\<And>x. t_pid (tasks t x) = t_pid (tasks s1 x)"
      "t_sigpend (tasks s1 n) = 0 \<Longrightarrow> \<forall>x. t_sigpend (tasks t x) = t_sigpend (tasks s1 x)"
    unfolding runs_def by blast
  have t: "CurrentTask t = n" "task_links t = h" "next_pid t = next_pid s" "esp t = (if n = ?c then esp s else t_esp (tasks s n))"
      "cr3 t = t_pgd (tasks s n)" "\<And>x. x \<noteq> n \<Longrightarrow> x \<noteq> ?c \<Longrightarrow> tasks t x = tasks s x" "t_esp (tasks t ?c) = esp s"
      "\<And>x. t_state (tasks t x) = t_state (tasks s1 x)" "\<And>x. t_pid (tasks t x) = t_pid (tasks s x)"
      "t_sigpend (tasks s n) = 0 \<Longrightarrow> \<forall>x. t_sigpend (tasks t x) = t_sigpend (tasks s x)"
    using r(1) r(2) [unfolded s1] r(3) [unfolded s1] r(4) [unfolded s1] r(5) [unfolded s1] r(6) [unfolded s1(1)] s1(6)
      r(7) [unfolded s1] r(8) r(9) [unfolded s1(11)] r(10) [unfolded s1(9)] by simp_all
  have "kern_sched_yield s = Done () (t\<lparr>iflag := True\<rparr>)"
    using loop ent by (simp add: kern_sched_yield_def intr_disable_def intr_enable_def s0_def [symmetric] s0 s1_def)
  then show ?thesis using t rest s1(5,6) by (simp add: runs_def)
qed


text \<open>The scheduler is round robin. When a task yields (or is preempted), the tasks after it in the ring are
  tried in order, itself last, and the first one that is ready, or waits for a signal that is pending, is entered: with its
  own stack and page directory, ready, interrupts on. The stack of the task that yielded is saved, the tasks passed
  over that have quit are gone from the ring, the ring's order is otherwise kept, and no third task changes.\<close>

theorem yield_enters_next_runnable:
  fixes s :: "'a scheds_scheme"
  assumes "ring (task_links s) (CurrentTask s # ts)" "ts @ [CurrentTask s] = qs @ n # rest"
    and "\<forall>q \<in> set qs. \<not> runnable s q" "runnable s n"
    and "t_sigpend (tasks s n) \<noteq> 0 \<longrightarrow> unat (t_sigpend (tasks s n)) < length (t_sigact (tasks s n))"
  shows "runs kern_sched_yield s (\<lambda>_ t. CurrentTask t = n \<and> t_state (tasks t n) = TaskReady
     \<and> cr3 t = t_pgd (tasks s n) \<and> esp t = (if n = CurrentTask s then esp s else t_esp (tasks s n))
     \<and> t_esp (tasks t (CurrentTask s)) = esp s \<and> iflag t
     \<and> ring (task_links t) (n # rest @ filter (\<lambda>q. t_state (tasks s q) \<noteq> TaskQuit) qs)
     \<and> (\<forall>x. x \<noteq> n \<and> x \<noteq> CurrentTask s \<longrightarrow> tasks t x = tasks s x))"
  by (rule runs_weaken [OF yield_run [OF assms]]) blast

definition demo_scheds :: scheds where
  "demo_scheds = cons.extend demo_cons \<lparr>resume = (\<lambda>_. InTaskEnter)\<rparr>"

lemma demo_scheds_simps [simp]:
  "CurrentTask demo_scheds = 0x9000" "task_links demo_scheds = task_links demo_procs" "tasks demo_scheds = tasks demo_procs"
  "syms demo_scheds = demo_syms"
  by (simp_all add: demo_scheds_def cons.defs demo_cons_def cpios.defs demo_cpios_def fss.defs demo_fss_def ios.defs demo_ios_def
      brks.defs demo_brks_def mmu.defs demo_mmu_def procs.defs demo_procs_def frames.defs demo_frames_def intr.defs demo_intr_def
      machine.defs demo_machine_def)

lemma demo_kernel_task:
  "tasks demo_procs 0xC0180000 = (KernelTask_init demo_syms)\<lparr>t_pgd := 0x200000\<rparr>"
  by (simp add: demo_procs_def frames.defs)

theorem yield_enters_next_runnable_witness:
  "runs kern_sched_yield demo_scheds (\<lambda>_ t. CurrentTask t = 0xC0180000 \<and> cr3 t = 0x200000
     \<and> ring (task_links t) [0xC0180000, 0x9000])"
proof (rule runs_weaken [OF yield_enters_next_runnable])
  show "ring (task_links demo_scheds) (CurrentTask demo_scheds # [0xC0180000])"
    using demo_procs_ring(1) by (simp add: task_ring_def)
  show "[0xC0180000] @ [CurrentTask demo_scheds] = [] @ 0xC0180000 # [0x9000]" by simp
  show "runnable demo_scheds 0xC0180000"
    by (simp add: runnable_def demo_kernel_task KernelTask_init_def)
qed (simp_all add: demo_kernel_task KernelTask_init_def)

subsection \<open>Every ready task gets its turn\<close>

text \<open>C16: no ready task starves. When all tasks of the ring are ready and no signal is pending, the \<open>i\<close>-th yield
  from now enters the \<open>i\<close>-th task after the current one, counting round the ring, so that every task runs once in as many
  yields as there are tasks.\<close>

theorem ready_tasks_take_turns:
  fixes s :: "'a scheds_scheme"
  assumes "ring (task_links s) (CurrentTask s # ts)"
    and "\<forall>x \<in> set (CurrentTask s # ts). t_state (tasks s x) = TaskReady \<and> t_sigpend (tasks s x) = 0"
  shows "runs (kfor [0..<i] (\<lambda>_. kern_sched_yield)) s
     (\<lambda>_ t. CurrentTask t = (CurrentTask s # ts) ! (i mod length (CurrentTask s # ts)))"
proof -
  let ?xs = "CurrentTask s # ts"
  define I where "I k t \<longleftrightarrow> ring (task_links t) (rotate k ?xs) \<and> CurrentTask t = hd (rotate k ?xs)
     \<and> (\<forall>x \<in> set ?xs. t_state (tasks t x) = TaskReady \<and> t_sigpend (tasks t x) = 0)" for k and t :: "'a scheds_scheme"
  have "runs (kfor [0..<i] (\<lambda>_. kern_sched_yield)) s (\<lambda>_. I i)"
  proof (rule runs_kfor_upt)
    show "I 0 s" using assms by (simp add: I_def)
  next
    fix k and t :: "'a scheds_scheme"
    assume t: "I k t"
    obtain ys where ys: "rotate k ?xs = CurrentTask t # ys"
      using t by (cases "rotate k ?xs") (auto simp: I_def)
    have all: "\<forall>x \<in> set (CurrentTask t # ys). t_state (tasks t x) = TaskReady \<and> t_sigpend (tasks t x) = 0"
      using t set_rotate [of k ?xs] unfolding ys I_def by simp
    obtain n rest where n: "ys @ [CurrentTask t] = [] @ n # rest" by (cases "ys @ [CurrentTask t]") auto
    then have nin: "n \<in> set (CurrentTask t # ys)" by (cases ys) auto
    have "runs kern_sched_yield t (\<lambda>_ u. CurrentTask u = n \<and> ring (task_links u) (n # rest)
     \<and> (\<forall>x. t_state (tasks u x) = (if x = n then TaskReady else t_state (tasks t x)) \<and> t_sigpend (tasks u x) = t_sigpend (tasks t x)))"
      by (rule runs_weaken [OF yield_run [OF _ n]]) (use t ys all nin in \<open>auto simp: I_def runnable_def\<close>)
    moreover have "rotate (Suc k) ?xs = n # rest" using n by (simp add: ys)
    moreover have "set ?xs = set (CurrentTask t # ys)" using set_rotate [of k ?xs] unfolding ys by simp
    ultimately show "runs kern_sched_yield t (\<lambda>_. I (Suc k))"
      using all nin by (elim runs_weaken) (auto simp: I_def)
  qed
  then show ?thesis
    by (rule runs_weaken) (simp only: I_def hd_rotate_conv_nth list.distinct not_False_eq_True)
qed

theorem ready_tasks_take_turns_witness:
  "runs (kfor [0..<3] (\<lambda>_. kern_sched_yield)) demo_scheds (\<lambda>_ t. CurrentTask t = 0xC0180000)"
proof -
  have r: "ring (task_links demo_scheds) (CurrentTask demo_scheds # [0xC0180000])"
    using demo_procs_ring(1) by (simp add: task_ring_def)
  have a: "\<forall>x \<in> set (CurrentTask demo_scheds # [0xC0180000]). t_state (tasks demo_scheds x) = TaskReady
      \<and> t_sigpend (tasks demo_scheds x) = 0"
    by (simp add: demo_kernel_task KernelTask_init_def demo_child_def zero_task_def)
  have "3 mod Suc (Suc 0) = (1 :: nat)" unfolding numeral_2_eq_2 [symmetric] by simp
  with ready_tasks_take_turns [OF r a, of 3] show ?thesis by simp
qed

subsection \<open>The life of tasks as a transition system\<close>

text \<open>Whatever the states of the tasks, a walk that ends has kept a ring, a part of the one it started with, and ended in it.\<close>

definition kept_ring :: "u32 \<Rightarrow> 'a procs_scheme \<Rightarrow> stop + u32 \<times> 'a procs_scheme \<Rightarrow> bool" where
  "kept_ring p s r \<longleftrightarrow> (\<forall>xs n t. ring (task_links s) xs \<and> lnext (task_links s) p \<in> set xs \<and> r = Inr (n, t) \<longrightarrow>
    (\<exists>ys h. ring h ys \<and> set ys \<subseteq> set xs \<and> n \<in> set ys \<and> t = woken n (s\<lparr>task_links := h\<rparr>)))"

lemma kept_ring_links: "kept_ring q (s\<lparr>task_links := h\<rparr>) r \<Longrightarrow> ring h zs \<Longrightarrow> lnext h q \<in> set zs \<Longrightarrow> r = Inr (n, t) \<Longrightarrow>
    \<exists>ys h'. ring h' ys \<and> set ys \<subseteq> set zs \<and> n \<in> set ys \<and> t = woken n (s\<lparr>task_links := h'\<rparr>)"
  by (simp add: kept_ring_def)

lemma sched_unlink_any:
  assumes "ring h xs" "q \<in> set xs" "sched_unlink q h = Inr h'"
  shows "\<exists>ys. ring h' ys \<and> set ys \<subseteq> set xs \<and> lnext h' q \<in> set ys"
proof -
  obtain as bs where xs: "xs = as @ q # bs" using assms(2) by (meson split_list)
  show ?thesis
  proof (cases "as @ bs = []")
    case True
    then have "ring h [q]" using xs assms(1) by simp
    then have "lnext h q = q" "lprev h q = q" "q \<noteq> NULL" by (simp_all add: ring_def)
    then have "ring h' [q]" "lnext h' q = q"
      using assms(3) by (auto simp: sched_unlink_def list_remove_def set_next_def set_prev_def Let_def ring_def)
    then show ?thesis using xs by (intro exI [of _ "[q]"]) simp
  next
    case False
    obtain h1 where h1: "sched_unlink q h = Inr h1" "ring h1 (as @ bs)" "lnext h1 q = lnext h q"
      using sched_unlink_ring assms(1) xs False by metis
    have "ring h (q # bs @ as)" using ring_rotate [of h as "q # bs"] assms(1) xs by simp
    moreover obtain y ys where y: "bs @ as = y # ys" using False by (cases "bs @ as") auto
    ultimately have "lnext h q = y" using ring_first [of h q "y # ys"] by simp
    moreover have "y \<in> set (as @ bs)" using y by (metis Un_commute list.set_intros(1) set_append)
    ultimately show ?thesis using h1 assms(3) xs by (intro exI [of _ "as @ bs"]) auto
  qed
qed

lemma sched_loop_ring:
  assumes "sched_loop p s = Some r"
  shows "kept_ring p s r"
proof (rule sched_loop.raw_induct [OF _ assms])
  fix loop :: "u32 \<Rightarrow> 'a procs_scheme \<Rightarrow> (stop + u32 \<times> 'a procs_scheme) option" and p s r
  assume IH: "\<And>q s r. loop q s = Some r \<Longrightarrow> kept_ring q s r"
    and body: "(let n = lnext (task_links s) p in
      if n = NULL then Halt NullCall
      else case (if t_state (tasks s n) = TaskQuit then sched_unlink n (task_links s) else Inr (task_links s)) of
        Inl e \<Rightarrow> Halt e
      | Inr h \<Rightarrow>
          if sig_ready (tasks s n) then Done n (upd_task n (\<lambda>t. t\<lparr>t_state := TaskReady\<rparr>) (s\<lparr>task_links := h\<rparr>))
          else if t_state (tasks s n) \<noteq> TaskReady then loop n (s\<lparr>task_links := h\<rparr>)
          else Done n (s\<lparr>task_links := h\<rparr>)) = Some r"
  show "kept_ring p s r" unfolding kept_ring_def
  proof (intro allI impI, elim conjE)
    fix xs n t
    assume xs: "ring (task_links s) xs" "lnext (task_links s) p \<in> set xs" and r: "r = Inr (n, t)"
    define q where "q = lnext (task_links s) p"
    have q: "q \<in> set xs" "q \<noteq> NULL" using xs by (auto simp: q_def ring_def)
    obtain h where h: "(if quit s q then sched_unlink q (task_links s) else Inr (task_links s)) = Inr h"
      and rest: "(if sig_ready (tasks s q) then Done q (upd_task q (\<lambda>t. t\<lparr>t_state := TaskReady\<rparr>) (s\<lparr>task_links := h\<rparr>))
          else if t_state (tasks s q) \<noteq> TaskReady then loop q (s\<lparr>task_links := h\<rparr>)
          else Done q (s\<lparr>task_links := h\<rparr>)) = Some r"
      using body q(2) r by (auto simp: q_def [symmetric] Let_def split: sum.splits if_splits)
    obtain zs where zs: "ring h zs" "set zs \<subseteq> set xs" "lnext h q \<in> set zs" "\<not> quit s q \<longrightarrow> zs = xs"
      using h sched_unlink_any [OF xs(1) q(1)] ring_next_in(1) [OF xs(1) q(1)] xs(1) by (cases "quit s q") auto
    show "\<exists>ys h. ring h ys \<and> set ys \<subseteq> set xs \<and> n \<in> set ys \<and> t = woken n (s\<lparr>task_links := h\<rparr>)"
    proof (cases "runnable s q")
      case True
      then have "n = q" "t = woken n (s\<lparr>task_links := h\<rparr>)" "\<not> quit s q"
        using rest r by (auto simp: runnable_def woken_def sig_ready_def split: if_splits)
      then show ?thesis using zs q(1) by auto
    next
      case False
      then have "loop q (s\<lparr>task_links := h\<rparr>) = Some r" using rest by (auto simp: runnable_def)
      from kept_ring_links [OF IH [OF this] zs(1,3) r] zs(2) show ?thesis by blast
    qed
  qed
qed

text \<open>The steps that change which tasks there are and which one runs: a yield, the exit of the running task, a fork (with
  the address of the new task structure, fresh, and before process ids wrap around), a signal raised for a task, a task that starts to wait.\<close>

inductive kstep :: "'a scheds_scheme \<Rightarrow> 'a scheds_scheme \<Rightarrow> bool" where
  kstep_yield: "kern_sched_yield s = Done () t \<Longrightarrow> kstep s t"
| kstep_exit: "task_exit (CurrentTask s) status s = Done () t \<Longrightarrow> kstep s t"
| kstep_fork: "clone \<noteq> NULL \<Longrightarrow> \<forall>xs. ring (task_links s) xs \<and> CurrentTask s \<in> set xs \<longrightarrow> clone \<notin> set xs \<Longrightarrow>
     next_pid s \<noteq> 0xFFFFFFFF \<Longrightarrow> kbind (task_clone clone) task_insert s = Done () t \<Longrightarrow> kstep s t"
| kstep_raise: "task_signal_raise a signum s = Done () t \<Longrightarrow> kstep s t"
| kstep_wait: "t = upd_task (CurrentTask s) (\<lambda>x. x\<lparr>t_state := TaskSigWait\<rparr>) s \<Longrightarrow> kstep s t"

inductive kreach :: "'a scheds_scheme \<Rightarrow> 'a scheds_scheme \<Rightarrow> bool" where
  kreach_refl: "kreach s s"
| kreach_step: "kreach s t \<Longrightarrow> kstep t u \<Longrightarrow> kreach s u"

definition task_inv :: "'a procs_scheme \<Rightarrow> bool" where
  "task_inv s \<longleftrightarrow> (\<exists>xs. ring (task_links s) xs \<and> CurrentTask s \<in> set xs \<and> inj_on (\<lambda>x. t_pid (tasks s x)) (set xs)
     \<and> (\<forall>x \<in> set xs. t_pid (tasks s x) < next_pid s))"

lemma task_inv_ring:
  "task_inv s \<longleftrightarrow> (\<exists>ts. task_ring s ts \<and> pids_below s ts)"
proof
  assume "task_inv s"
  then obtain xs where xs: "ring (task_links s) xs" "CurrentTask s \<in> set xs" "inj_on (\<lambda>x. t_pid (tasks s x)) (set xs)"
    "\<forall>x \<in> set xs. t_pid (tasks s x) < next_pid s" by (auto simp: task_inv_def)
  obtain as bs where split: "xs = as @ CurrentTask s # bs" using xs(2) by (meson split_list)
  then have r: "ring (task_links s) (CurrentTask s # bs @ as)" using ring_rotate [of _ as "CurrentTask s # bs"] xs(1) by simp
  moreover have "distinct (map (t_pid \<circ> tasks s) (CurrentTask s # bs @ as))"
    unfolding distinct_map using r xs(3) split by (auto simp: ring_def inj_on_def)
  ultimately show "\<exists>ts. task_ring s ts \<and> pids_below s ts"
    using xs(4) split by (intro exI [of _ "bs @ as"]) (auto simp: task_ring_def pids_below_def)
next
  assume "\<exists>ts. task_ring s ts \<and> pids_below s ts"
  then obtain ts where ts: "task_ring s ts" "pids_below s ts" by blast
  have "inj_on (t_pid \<circ> tasks s) (set (CurrentTask s # ts))" using ts(1) unfolding task_ring_def distinct_map by blast
  then show "task_inv s" unfolding task_inv_def
    using ts by (intro exI [of _ "CurrentTask s # ts"]) (auto simp: task_ring_def pids_below_def inj_on_def)
qed

lemma task_inv_keep:
  assumes "task_inv s" "task_links t = task_links s" "CurrentTask t = CurrentTask s" "next_pid t = next_pid s"
    and "\<And>x. t_pid (tasks t x) = t_pid (tasks s x)"
  shows "task_inv t"
  using assms unfolding task_inv_def by simp

lemma task_enter_Done:
  assumes "task_enter n s = Done u t"
  shows "CurrentTask t = n \<and> task_links t = task_links s \<and> next_pid t = next_pid s \<and> (\<forall>x. t_pid (tasks t x) = t_pid (tasks s x))"
  using assms
  by (auto simp: task_enter_def task_store_context_def task_load_context_def task_signal_exec_def kbind_eq_Done kthen_eq_Done
      Let_def upd_task_def split: resume_point.splits if_splits)

lemma yield_keeps_inv:
  assumes "kern_sched_yield s = Done () t" "task_inv s"
  shows "task_inv t"
proof -
  obtain xs where xs: "ring (task_links s) xs" "CurrentTask s \<in> set xs" "inj_on (\<lambda>x. t_pid (tasks s x)) (set xs)"
    "\<forall>x \<in> set xs. t_pid (tasks s x) < next_pid s" using assms(2) by (auto simp: task_inv_def)
  define s0 where "s0 = s\<lparr>iflag := False\<rparr>"
  obtain n s1 u t1 where loop: "sched_loop (CurrentTask s) s0 = Done n s1" and ent: "task_enter n s1 = Done u t1" and t: "t = t1\<lparr>iflag := True\<rparr>"
    using assms(1) by (auto simp: kern_sched_yield_def intr_disable_def intr_enable_def kbind_eq_Done kthen_eq_Done s0_def)
  have "ring (task_links s0) xs" "lnext (task_links s0) (CurrentTask s) \<in> set xs"
    using xs(1) ring_next_in(1) [OF xs(1,2)] by (simp_all add: s0_def)
  then obtain ys h where ys: "ring h ys" "set ys \<subseteq> set xs" "n \<in> set ys" "s1 = woken n (s0\<lparr>task_links := h\<rparr>)"
    using sched_loop_ring [OF loop] unfolding kept_ring_def by blast
  have "task_links s1 = h" "next_pid s1 = next_pid s" "\<And>x. t_pid (tasks s1 x) = t_pid (tasks s x)"
    by (simp_all add: ys(4) s0_def)
  then have "task_links t = h" "CurrentTask t = n" "next_pid t = next_pid s" "\<And>x. t_pid (tasks t x) = t_pid (tasks s x)"
    using task_enter_Done [OF ent] by (simp_all add: t)
  then show ?thesis unfolding task_inv_def
    using ys xs(3,4) by (intro exI [of _ ys]) (auto intro: inj_on_subset)
qed

lemma exit_keeps_inv:
  assumes "task_exit a status s = Done () t" "task_inv s"
  shows "task_inv t"
proof -
  let ?s = "upd_task a (\<lambda>t. t\<lparr>t_sigpend := SIGTERM\<rparr>) (upd_task a (\<lambda>t. t\<lparr>t_state := TaskQuit, t_exitcode := status\<rparr>) s)"
  have inv: "task_inv ?s" by (rule task_inv_keep [OF assms(2)]) simp_all
  then obtain ts where "task_ring ?s ts" by (auto simp: task_inv_ring)
  then obtain p where "task_get (t_ppid (tasks ?s a)) ?s = Done p ?s" by (simp only: task_get_ring)
  then have "t = ?s \<or> t = upd_task p (\<lambda>p. p\<lparr>t_childcount := t_childcount p - 1\<rparr>) (upd_task p (\<lambda>t. t\<lparr>t_sigpend := SIGCHLD\<rparr>)
      (upd_task p (\<lambda>p. p\<lparr>t_sigchldpid := t_pid (tasks ?s a), t_sigchldexit := t_exitcode (tasks ?s a)\<rparr>) ?s))"
    using assms(1) by (auto simp: task_exit_def task_signal_raise_def split: if_splits)
  then show ?thesis
  proof
    assume "t = ?s"
    then show ?thesis using inv by simp
  next
    assume "t = upd_task p (\<lambda>p. p\<lparr>t_childcount := t_childcount p - 1\<rparr>) (upd_task p (\<lambda>t. t\<lparr>t_sigpend := SIGCHLD\<rparr>)
      (upd_task p (\<lambda>p. p\<lparr>t_sigchldpid := t_pid (tasks ?s a), t_sigchldexit := t_exitcode (tasks ?s a)\<rparr>) ?s))"
    then show ?thesis by (intro task_inv_keep [OF inv]) simp_all
  qed
qed

lemma kfor_Done_frame:
  assumes "kfor is f s = Done u t" "\<And>i s u t. f i s = Done u t \<Longrightarrow> R s t" "\<And>s. R s s" "\<And>s t u. R s t \<Longrightarrow> R t u \<Longrightarrow> R s u"
  shows "R s t"
  using assms(1)
proof (induction "is" arbitrary: s)
  case (Cons i "is")
  then obtain v w where "f i s = Done v w" "kfor is f w = Done u t" by (auto simp: kthen_eq_Done)
  then show ?case using Cons.IH assms(2,4) by blast
qed (use assms(3) in simp)

lemma fork_keeps_inv:
  assumes "kbind (task_clone clone) task_insert s = Done () t" "task_inv s" "clone \<noteq> NULL" "next_pid s \<noteq> 0xFFFFFFFF"
    and fresh: "\<forall>xs. ring (task_links s) xs \<and> CurrentTask s \<in> set xs \<longrightarrow> clone \<notin> set xs"
  shows "task_inv t"
proof -
  obtain ts where ts: "task_ring s ts" "pids_below s ts" using assms(2) by (auto simp: task_inv_ring)
  then have ring: "ring (task_links s) (CurrentTask s # ts)" by (simp add: task_ring_def)
  then have new: "clone \<notin> set (CurrentTask s # ts)" using fresh by (metis list.set_intros(1))
  let ?s1 = "upd_task (CurrentTask s) (\<lambda>t. t\<lparr>t_childcount := t_childcount t + 1\<rparr>)
        (upd_task clone (\<lambda>_. clone_fields (next_pid s) (cur s)) (s\<lparr>next_pid := next_pid s + 1\<rparr>))"
  obtain u s2 where refs: "clone_refs (take (unat (t_fdcap (cur s))) (t_fdtbl (cur s))) (unat (t_fdnext (cur s))) ?s1 = Done u s2"
    and ins: "task_insert clone s2 = Done () t"
    using assms(1) by (auto simp: task_clone_def task_next_pid_def kbind_eq_Done kthen_eq_Done kguard_def split: if_splits)
  have "tasks s2 = tasks ?s1 \<and> task_links s2 = task_links ?s1 \<and> CurrentTask s2 = CurrentTask ?s1 \<and> next_pid s2 = next_pid ?s1"
    by (rule kfor_Done_frame [OF refs [unfolded clone_refs_def],
          where R = "\<lambda>s t. tasks t = tasks s \<and> task_links t = task_links s \<and> CurrentTask t = CurrentTask s \<and> next_pid t = next_pid s"])
      (auto simp: kwhen_def refs_incr_def split: if_splits)
  then have s2: "tasks s2 = tasks ?s1" "task_links s2 = task_links s" "CurrentTask s2 = CurrentTask s" "next_pid s2 = next_pid s + 1"
    by simp_all
  obtain h where h: "list_insert_after (CurrentTask s) clone (task_links s) = Inr h" "ring h (CurrentTask s # clone # ts)"
    using kl.ins_ring [OF ring new assms(3)] by blast
  then have t: "t = s2\<lparr>task_links := h\<rparr>" using ins s2 by (simp add: task_insert_def)
  have "task_ring t (clone # ts) \<and> pids_below t (clone # ts)"
    by (rule task_ring_extend [OF ts h(2)]) (use t s2 new assms(4) in \<open>auto simp: clone_fields_def\<close>)
  then show ?thesis by (auto simp: task_inv_ring)
qed

text \<open>C15: however tasks fork, exit, yield, signal each other and wait, the scheduler's structure stays sound: in every
  state that can be reached from a sound one, the tasks form a ring that contains the current task, no two tasks of the ring have
  the same process id, and every process id is below the next one to be given out.\<close>

theorem task_ring_sound_in_every_reachable_state:
  assumes "kreach s t" "task_inv s"
  shows "task_inv t"
  using assms
proof (induction rule: kreach.induct)
  case (kreach_step s t u)
  then have inv: "task_inv t" by blast
  from \<open>kstep t u\<close> show ?case
  proof (cases rule: kstep.cases)
    case kstep_raise
    then show ?thesis by (intro task_inv_keep [OF inv]) (auto simp: task_signal_raise_def)
  next
    case kstep_wait
    then show ?thesis by (intro task_inv_keep [OF inv]) auto
  qed (use inv in \<open>blast intro: yield_keeps_inv exit_keeps_inv fork_keeps_inv\<close>)+
qed

lemma demo_scheds_next: "next_pid demo_scheds = 2"
  by (simp add: demo_scheds_def cons.defs demo_cons_def cpios.defs demo_cpios_def fss.defs demo_fss_def ios.defs demo_ios_def
      brks.defs demo_brks_def mmu.defs demo_mmu_def procs.defs demo_procs_def frames.defs)

lemma demo_yield: "runs kern_sched_yield demo_scheds (\<lambda>_ t. CurrentTask t = 0xC0180000)"
proof (rule runs_weaken [OF yield_run])
  show "ring (task_links demo_scheds) (CurrentTask demo_scheds # [0xC0180000])"
    using demo_procs_ring(1) by (simp add: task_ring_def)
  show "[0xC0180000] @ [CurrentTask demo_scheds] = [] @ 0xC0180000 # [0x9000]" by simp
qed (auto simp: runnable_def demo_kernel_task KernelTask_init_def)

theorem task_ring_sound_in_every_reachable_state_witness:
  "\<exists>t. kreach demo_scheds t \<and> CurrentTask t = 0xC0180000 \<and> task_inv t"
proof -
  have "task_ring demo_scheds [0xC0180000]" "pids_below demo_scheds [0xC0180000]"
    using demo_procs_ring by (simp_all add: task_ring_def pids_below_def demo_scheds_next)
  then have inv: "task_inv demo_scheds" by (auto simp: task_inv_ring)
  obtain t where t: "kern_sched_yield demo_scheds = Done () t" "CurrentTask t = 0xC0180000"
    using demo_yield by (auto elim!: runsE)
  then have "kreach demo_scheds t" using kreach_step [OF kreach_refl kstep_yield] by blast
  from task_ring_sound_in_every_reachable_state [OF this inv] this t(2) show ?thesis by blast
qed

end
