(* ===== verification/Usermem.thy ===== *)
theory Usermem
  imports Clonedir
begin

text \<open>
  Memory as a program sees it. The kernel reads and writes the memory of the running task through the processor's translation
  (\<open>virt_get\<close>, \<open>virt_put\<close>); what it sees is \<open>uview\<close>. The interface \<open>user_memory\<close> says what a part of an address space
  that the task owns promises: a byte stored there is read back and changes no other byte of the part, and a new page
  adds to the part without changing it. The paging code provides it.
\<close>

subsection \<open>Reads and writes through the translation\<close>

definition uview :: "'a machine_scheme \<Rightarrow> bytes" where
  "uview s a = (case translate (mem s) (cr3 s) a of None \<Rightarrow> 0 | Some p \<Rightarrow> mem s p)"

definition virt_get :: "vaddr_t \<Rightarrow> ('a machine_scheme, u8) kern" where
  "virt_get va s = (case translate (mem s) (cr3 s) va of None \<Rightarrow> Halt BadAccess | Some p \<Rightarrow> Done (mem s p) s)"

text \<open>\<^verbatim>\<open>memcpy\<close> and \<^verbatim>\<open>memset\<close> on virtual addresses, and a 32-bit store.\<close>

definition virt_copy :: "vaddr_t \<Rightarrow> vaddr_t \<Rightarrow> u32 \<Rightarrow> ('a machine_scheme, unit) kern" where
  "virt_copy dest src n = kfor [0..<unat n] (\<lambda>k. kbind (virt_get (src + of_nat k)) (virt_put (dest + of_nat k)))"

definition virt_fill :: "vaddr_t \<Rightarrow> u8 \<Rightarrow> u32 \<Rightarrow> ('a machine_scheme, unit) kern" where
  "virt_fill dest b n = kfor [0..<unat n] (\<lambda>k. virt_put (dest + of_nat k) b)"

definition virt_put32 :: "vaddr_t \<Rightarrow> u32 \<Rightarrow> ('a machine_scheme, unit) kern" where
  "virt_put32 a v = kseq [virt_put a (ucast v), virt_put (a + 1) (ucast (drop_bit 8 v)),
     virt_put (a + 2) (ucast (drop_bit 16 v)), virt_put (a + 3) (ucast (drop_bit 24 v))]"

text \<open>A structure of \<open>n\<close> bytes read field by field.\<close>

definition virt_struct :: "(bytes \<Rightarrow> vaddr_t \<Rightarrow> 'b) \<Rightarrow> nat \<Rightarrow> vaddr_t \<Rightarrow> ('a machine_scheme, 'b) kern" where
  "virt_struct f n a = kbind (kget (\<lambda>s. list_all (\<lambda>k. translate (mem s) (cr3 s) (a + of_nat k) \<noteq> None) [0..<n])) (\<lambda>ok.
     kthen (kguard ok BadAccess) (kget (\<lambda>s. f (uview s) a)))"

abbreviation virt_get32 :: "vaddr_t \<Rightarrow> ('a machine_scheme, u32) kern" where
  "virt_get32 \<equiv> virt_struct get32 4"

definition addrs :: "vaddr_t \<Rightarrow> nat \<Rightarrow> vaddr_t set" where
  "addrs a n = (\<lambda>k. a + of_nat k) ` {..<n}"

lemma addrs_mem [simp]: "k < n \<Longrightarrow> a + of_nat k \<in> addrs a n"
  by (simp add: addrs_def)

lemma addrs_unat: "n \<le> 2 ^ 32 \<Longrightarrow> u \<in> addrs a n \<longleftrightarrow> unat (u - a) < n"
proof
  assume n: "n \<le> 2 ^ 32"
  show "u \<in> addrs a n \<Longrightarrow> unat (u - a) < n" using n by (auto simp: addrs_def unat_of_nat)
  show "unat (u - a) < n \<Longrightarrow> u \<in> addrs a n" unfolding addrs_def by (rule image_eqI [of _ _ "unat (u - a)"]) auto
qed

lemma offset_eq: "k < 2 ^ 32 \<Longrightarrow> unat (u - a) = k \<longleftrightarrow> u = a + of_nat k" for u a :: u32
proof
  assume "unat (u - a) = k"
  then have "of_nat (unat (u - a)) = (of_nat k :: u32)" by simp
  then show "u = a + of_nat k" by (simp add: algebra_simps)
qed (simp add: unat_of_nat)

lemma addrs_subset: "m \<le> n \<Longrightarrow> addrs a m \<subseteq> addrs a n"
  by (auto simp: addrs_def)

lemma addrs_shift: "j + m \<le> n \<Longrightarrow> addrs (a + of_nat j) m \<subseteq> addrs a n"
proof
  fix u assume "j + m \<le> n" "u \<in> addrs (a + of_nat j) m"
  then obtain k where "k < m" "u = a + of_nat (j + k)" by (auto simp: addrs_def add.assoc)
  with \<open>j + m \<le> n\<close> show "u \<in> addrs a n" unfolding addrs_def by (intro image_eqI [of _ _ "j + k"]) auto
qed

subsection \<open>Owned parts of an address space\<close>

text \<open>
  \<open>owns s U\<close>: every address of \<open>U\<close> has a byte of its own. \<open>view\<close> is the memory as seen, \<open>room n\<close> says that \<open>n\<close>
  more pages can be had, \<open>free_at\<close> that a new page can be placed at an address, \<open>like\<close> that nothing but memory differs.
\<close>

locale user_memory =
  fixes owns :: "'s \<Rightarrow> vaddr_t set \<Rightarrow> bool" and view :: "'s \<Rightarrow> bytes" and room :: "nat \<Rightarrow> 's \<Rightarrow> bool"
    and free_at :: "'s \<Rightarrow> vaddr_t \<Rightarrow> bool" and like :: "'s \<Rightarrow> 's \<Rightarrow> bool" and pages :: "vaddr_t \<Rightarrow> vaddr_t set"
    and getb :: "vaddr_t \<Rightarrow> ('s, u8) kern" and putb :: "vaddr_t \<Rightarrow> u8 \<Rightarrow> ('s, unit) kern" and alloc :: "vaddr_t \<Rightarrow> ('s, unit) kern"
  assumes like_refl: "like s s" and like_trans: "like s t \<Longrightarrow> like t w \<Longrightarrow> like s w"
    and owns_mono: "owns s U \<Longrightarrow> V \<subseteq> U \<Longrightarrow> owns s V"
    and get_law: "owns s U \<Longrightarrow> a \<in> U \<Longrightarrow> getb a s = Done (view s a) s"
    and put_law: "owns s U \<Longrightarrow> a \<in> U \<Longrightarrow> runs (putb a b) s (\<lambda>_ t. owns t U \<and> like s t \<and> (\<forall>u \<in> U. view t u = ((view s)(a := b)) u)
          \<and> (\<forall>n. room n s \<longrightarrow> room n t) \<and> (\<forall>u. free_at s u \<longrightarrow> free_at t u))"
    and alloc_law: "owns s U \<Longrightarrow> pages a \<inter> U = {} \<Longrightarrow> room (Suc n) s \<Longrightarrow> free_at s a \<Longrightarrow>
        runs (alloc a) s (\<lambda>_ t. owns t (U \<union> pages a) \<and> like s t \<and> (\<forall>u \<in> U. view t u = view s u) \<and> room n t
          \<and> (\<forall>u. free_at s u \<longrightarrow> free_at t u))"
begin

definition still :: "'s \<Rightarrow> 's \<Rightarrow> vaddr_t set \<Rightarrow> bool" where
  "still s t U \<longleftrightarrow> owns t U \<and> like s t \<and> (\<forall>n. room n s \<longrightarrow> room n t) \<and> (\<forall>u. free_at s u \<longrightarrow> free_at t u)"

lemma still_trans: "still s t U \<Longrightarrow> still t w U \<Longrightarrow> still s w U"
  by (auto simp: still_def intro: like_trans)

lemma still_refl: "owns s U \<Longrightarrow> still s s U"
  by (simp add: still_def like_refl)

lemma put_still:
  "owns s U \<Longrightarrow> a \<in> U \<Longrightarrow> runs (putb a b) s (\<lambda>_ t. still s t U \<and> (\<forall>u \<in> U. view t u = ((view s)(a := b)) u))"
  by (rule runs_weaken [OF put_law]) (auto simp: still_def)

lemma copy_runs:
  assumes "owns s U" "addrs dest (unat n) \<subseteq> U" "addrs src (unat n) \<subseteq> U" "addrs dest (unat n) \<inter> addrs src (unat n) = {}"
  shows "runs (kfor [0..<unat n] (\<lambda>k. kbind (getb (src + of_nat k)) (putb (dest + of_nat k)))) s (\<lambda>_ t. still s t U
     \<and> (\<forall>u \<in> U. view t u = mem_copy (view s) dest src n u))"
proof -
  define I where "I k t \<longleftrightarrow> still s t U \<and> (\<forall>u \<in> U. view t u = (if unat (u - dest) < k then view s (src + (u - dest)) else view s u))"
    for k t
  have "I 0 s" using assms(1) by (simp add: I_def still_refl)
  then have "runs (kfor [0..<unat n] (\<lambda>k. kbind (getb (src + of_nat k)) (putb (dest + of_nat k)))) s (\<lambda>_. I (unat n))"
  proof (rule runs_kfor_upt)
    fix k t assume k: "k < unat n" and I: "I k t"
    let ?a = "src + of_nat k" and ?d = "dest + of_nat k"
    have own: "owns t U" using I by (simp add: I_def still_def)
    have mem: "?a \<in> U" "?d \<in> U" using assms(2,3) k addrs_mem by blast+
    have un: "unat (of_nat k :: u32) = k" using k unat_lt32 [of n] by (simp add: unat_of_nat)
    have "?a \<notin> addrs dest (unat n)" using assms(4) k addrs_mem by blast
    then have "\<not> unat (?a - dest) < k" using k addrs_unat [of "unat n" ?a dest] unat_lt32 [of n] by simp
    then have a: "view t ?a = view s ?a" using I mem(1) by (simp add: I_def)
    note here = offset_eq [OF less_trans [OF k unat_lt32]]
    have "runs (putb ?d (view s ?a)) t (\<lambda>_. I (Suc k))"
    proof (rule runs_weaken [OF put_still [OF own mem(2)]])
      fix w assume w: "still t w U \<and> (\<forall>u \<in> U. view w u = ((view t)(?d := view s ?a)) u)"
      have "view w u = (if unat (u - dest) < Suc k then view s (src + (u - dest)) else view s u)" if "u \<in> U" for u
        using w I that here [of u] by (auto simp: I_def less_Suc_eq un)
      with w I still_trans show "I (Suc k) w" unfolding I_def by blast
    qed
    then show "runs (kbind (getb ?a) (putb ?d)) t (\<lambda>_. I (Suc k))"
      using get_law [OF own mem(1)] a by (simp add: runs_def)
  qed
  then show ?thesis
    by (rule runs_weaken) (simp add: I_def mem_copy_def word_less_nat_alt)
qed

lemma fill_runs:
  assumes "owns s U" "addrs dest (unat n) \<subseteq> U"
  shows "runs (kfor [0..<unat n] (\<lambda>k. putb (dest + of_nat k) b)) s (\<lambda>_ t. still s t U
     \<and> (\<forall>u \<in> U. view t u = mem_fill (view s) dest b n u))"
proof -
  define I where "I k t \<longleftrightarrow> still s t U \<and> (\<forall>u \<in> U. view t u = (if unat (u - dest) < k then b else view s u))" for k t
  have "I 0 s" using assms(1) by (simp add: I_def still_refl)
  then have "runs (kfor [0..<unat n] (\<lambda>k. putb (dest + of_nat k) b)) s (\<lambda>_. I (unat n))"
  proof (rule runs_kfor_upt)
    fix k t assume k: "k < unat n" and I: "I k t"
    let ?d = "dest + of_nat k"
    have own: "owns t U" using I by (simp add: I_def still_def)
    have mem: "?d \<in> U" using assms(2) k addrs_mem by blast
    have un: "unat (of_nat k :: u32) = k" using k unat_lt32 [of n] by (simp add: unat_of_nat)
    note here = offset_eq [OF less_trans [OF k unat_lt32]]
    show "runs (putb ?d b) t (\<lambda>_. I (Suc k))"
    proof (rule runs_weaken [OF put_still [OF own mem]])
      fix w assume w: "still t w U \<and> (\<forall>u \<in> U. view w u = ((view t)(?d := b)) u)"
      have "view w u = (if unat (u - dest) < Suc k then b else view s u)" if "u \<in> U" for u
        using w I that here [of u] by (auto simp: I_def less_Suc_eq un)
      with w I still_trans show "I (Suc k) w" unfolding I_def by blast
    qed
  qed
  then show ?thesis
    by (rule runs_weaken) (simp add: I_def mem_fill_def word_less_nat_alt)
qed

lemma puts_runs:
  assumes "owns s U" "fst ` set ws \<subseteq> U"
  shows "runs (kseq (map (\<lambda>(a, b). putb a b) ws)) s (\<lambda>_ t. still s t U \<and> (\<forall>u \<in> U. view t u = fold (\<lambda>(a, b) m. m(a := b)) ws (view s) u))"
  using assms
proof (induction ws arbitrary: s)
  case Nil
  then show ?case by (simp add: runs_def still_refl)
next
  case (Cons w ws)
  obtain a b where w: "w = (a, b)" by (cases w)
  have upd: "u \<in> U \<Longrightarrow> fold (\<lambda>(a, b) m. m(a := b)) ws m u = fold (\<lambda>(a, b) m. m(a := b)) ws m' u"
    if "\<forall>u \<in> U. m u = m' u" for m m' :: bytes and u
    using that by (induction ws arbitrary: m m') auto
  have "runs (putb a b) s (\<lambda>_ t. still s t U \<and> (\<forall>u \<in> U. view t u = ((view s)(a := b)) u))"
    using Cons.prems w by (intro put_still) auto
  then have "runs (putb a b) s (\<lambda>_ t. runs (kseq (map (\<lambda>(a, b). putb a b) ws)) t (\<lambda>_ t. still s t U
     \<and> (\<forall>u \<in> U. view t u = fold (\<lambda>(a, b) m. m(a := b)) (w # ws) (view s) u)))"
  proof (rule runs_weaken)
    fix t assume t: "still s t U \<and> (\<forall>u \<in> U. view t u = ((view s)(a := b)) u)"
    then have "owns t U" by (simp add: still_def)
    then have "runs (kseq (map (\<lambda>(a, b). putb a b) ws)) t (\<lambda>_ w. still t w U \<and> (\<forall>u \<in> U. view w u = fold (\<lambda>(a, b) m. m(a := b)) ws (view t) u))"
      using Cons.prems(2) by (intro Cons.IH) auto
    then show "runs (kseq (map (\<lambda>(a, b). putb a b) ws)) t (\<lambda>_ t. still s t U
     \<and> (\<forall>u \<in> U. view t u = fold (\<lambda>(a, b) m. m(a := b)) (w # ws) (view s) u))"
      by (rule runs_weaken) (use t upd [of "view t" "(view s)(a := b)"] still_trans in \<open>auto simp: w\<close>)
  qed
  then show ?case unfolding w list.map kseq.simps prod.case by (intro runs_kthen)
qed

lemma alloc_runs:
  assumes "owns s U" "room (length ps + n) s" "\<forall>p \<in> set ps. free_at s p"
    and "distinct (map pages ps)" "\<forall>p \<in> set ps. \<forall>q \<in> set ps. pages p \<noteq> pages q \<longrightarrow> pages p \<inter> pages q = {}"
    and "\<forall>p \<in> set ps. pages p \<inter> U = {}"
  shows "runs (kfor ps alloc) s (\<lambda>_ t. owns t (U \<union> \<Union> (pages ` set ps)) \<and> like s t \<and> (\<forall>u \<in> U. view t u = view s u)
     \<and> room n t \<and> (\<forall>u. free_at s u \<longrightarrow> free_at t u))"
  using assms
proof (induction ps arbitrary: s U)
  case Nil
  then show ?case by (simp add: runs_def like_refl)
next
  case (Cons p ps)
  have "runs (alloc p) s (\<lambda>_ t. owns t (U \<union> pages p) \<and> like s t \<and> (\<forall>u \<in> U. view t u = view s u) \<and> room (length ps + n) t
          \<and> (\<forall>u. free_at s u \<longrightarrow> free_at t u))"
    by (rule alloc_law) (use Cons.prems(1-3,6) in simp_all)
  then show ?case unfolding kfor.simps
  proof (intro runs_kthen, elim runs_weaken)
    fix t assume t: "owns t (U \<union> pages p) \<and> like s t \<and> (\<forall>u \<in> U. view t u = view s u) \<and> room (length ps + n) t
          \<and> (\<forall>u. free_at s u \<longrightarrow> free_at t u)"
    have "pages q \<inter> (U \<union> pages p) = {}" if "q \<in> set ps" for q
    proof -
      have "pages q \<noteq> pages p" using Cons.prems(4) that by auto
      then have "pages q \<inter> pages p = {}" using Cons.prems(5) that by simp
      moreover have "pages q \<inter> U = {}" using Cons.prems(6) that by simp
      ultimately show ?thesis by blast
    qed
    then have "runs (kfor ps alloc) t (\<lambda>_ w. owns w ((U \<union> pages p) \<union> \<Union> (pages ` set ps)) \<and> like t w
       \<and> (\<forall>u \<in> U \<union> pages p. view w u = view t u) \<and> room n w \<and> (\<forall>u. free_at t u \<longrightarrow> free_at w u))"
      using t Cons.prems(3-5) by (intro Cons.IH) simp_all
    then show "runs (kfor ps alloc) t (\<lambda>_ w. owns w (U \<union> \<Union> (pages ` set (p # ps))) \<and> like s w \<and> (\<forall>u \<in> U. view w u = view s u)
       \<and> room n w \<and> (\<forall>u. free_at s u \<longrightarrow> free_at w u))"
      by (rule runs_weaken) (use t in \<open>auto simp: Un_assoc intro: like_trans\<close>)
  qed
qed

end

subsection \<open>The paging code provides it\<close>

lemma PGADDR_in_page: "page_aligned q \<Longrightarrow> n < 4096 \<Longrightarrow> PGADDR (q + of_nat n) = q"
proof -
  assume q: "page_aligned q" "n < 4096"
  then obtain k where "unat q = 4096 * k" using page_aligned_ex by blast
  with q show ?thesis by (simp add: word_unat_eq_iff unat_PGADDR unat_in_page)
qed

lemma low_bits: "\<exists>n < 4096. u AND 0xFFF = of_nat n \<and> unat u mod 4096 = n" for u :: u32
proof -
  have "unat (u AND 0xFFF) = unat u mod 4096"
    by (simp add: addr_masks(3) flip: take_bit_eq_mask) (simp add: take_bit_eq_mod unat_mod)
  then have "u AND 0xFFF = of_nat (unat u mod 4096)" by (simp add: word_unat_eq_iff unat_of_nat)
  then show ?thesis by (intro exI [of _ "unat u mod 4096"]) simp
qed

lemma ent_get_upd:
  assumes "page_aligned q" "PGADDR p \<noteq> q" "j < 1024"
  shows "ent_get (m(p := b)) q j = ent_get m q j"
proof -
  have "q + of_nat n \<noteq> p" if "n < 4096" for n using assms(2) PGADDR_in_page [OF assms(1) that] by blast
  then have "(m(p := b)) (q + of_nat (4 * j + c)) = m (q + of_nat (4 * j + c))" if "c < 4" for c
    using assms(3) that by (simp del: of_nat_add of_nat_mult)
  from this [of 0] this [of 1] this [of 2] this [of 3] show ?thesis
    by (simp add: ent_get_def get32_bytes del: of_nat_add of_nat_mult fun_upd_apply)
qed

text \<open>A byte of a frame that is neither the directory nor a table can change without changing any translation.\<close>

lemma data_dir:
  assumes "page_aligned pgd" "PGADDR p \<notin> table_frames m pgd" "i < 1024"
  shows "ent_get (m(p := b)) pgd i = ent_get m pgd i"
  using assms by (auto simp: table_frames_def intro!: ent_get_upd)

lemma table_frames_iff:
  "f \<in> table_frames m pgd \<longleftrightarrow> f = pgd \<or> (\<exists>i < 1024. is_table (ent_get m pgd i) \<and> f = PTE_ADDR (ent_get m pgd i))"
  by (auto simp: table_frames_def)

lemma data_tables:
  assumes "page_aligned pgd" "PGADDR p \<notin> table_frames m pgd"
  shows "table_frames (m(p := b)) pgd = table_frames m pgd"
  by (rule set_eqI) (simp add: table_frames_iff data_dir [OF assms] del: fun_upd_apply cong: conj_cong)

lemma data_translate:
  assumes "page_aligned pgd" "PGADDR p \<notin> table_frames m pgd"
  shows "translate (m(p := b)) pgd u = translate m pgd u"
proof (cases "is_table (dir_entry m pgd u)")
  case True
  then have "PTE_ADDR (dir_entry m pgd u) \<in> table_frames m pgd"
    by (auto simp: table_frames_def dir_entry_def)
  then have "ent_get (m(p := b)) (PTE_ADDR (dir_entry m pgd u)) (ADDR_PTE u) = ent_get m (PTE_ADDR (dir_entry m pgd u)) (ADDR_PTE u)"
    using assms(2) by (intro ent_get_upd) auto
  then show ?thesis using data_dir [OF assms ADDR_PDE_less [of u], of b] by (simp add: translate_def dir_entry_def Let_def)
next
  case False
  then show ?thesis by (rule translate_no_table) (use data_dir [OF assms ADDR_PDE_less [of u], of b] in \<open>simp add: dir_entry_def\<close>)
qed

definition owned :: "'a mmu_scheme \<Rightarrow> vaddr_t set \<Rightarrow> bool" where
  "owned s U \<longleftrightarrow> vm_wf s (cr3 s) \<and> t_pgd (cur s) = cr3 s \<and> inj_on (translate (mem s) (cr3 s)) U
     \<and> (\<forall>u \<in> U. \<exists>p. translate (mem s) (cr3 s) u = Some p \<and> \<not> spare s p \<and> PGADDR p \<notin> table_frames (mem s) (cr3 s))"

definition page_addrs :: "vaddr_t \<Rightarrow> vaddr_t set" where
  "page_addrs a = {u. page_of u = page_of a}"

definition small_pages :: "'a mmu_scheme \<Rightarrow> vaddr_t \<Rightarrow> bool" where
  "small_pages s u \<longleftrightarrow> dir_entry (mem s) (cr3 s) u AND PAGE_EXTENDED = 0"

lemma owned_put:
  assumes "owned s U" "a \<in> U"
  shows "runs (virt_put a b) s (\<lambda>_ t. owned t U \<and> same_rest s t \<and> (\<forall>u \<in> U. uview t u = ((uview s)(a := b)) u)
     \<and> (\<forall>n. frames_left (2 * n) s \<longrightarrow> frames_left (2 * n) t) \<and> (\<forall>u. small_pages s u \<longrightarrow> small_pages t u))"
proof -
  obtain p where p: "translate (mem s) (cr3 s) a = Some p" "\<not> spare s p" "PGADDR p \<notin> table_frames (mem s) (cr3 s)"
    using assms by (auto simp: owned_def)
  let ?m = "(mem s)(p := b)" and ?t = "s\<lparr>mem := (mem s)(p := b)\<rparr>"
  have wf: "vm_wf s (cr3 s)" and al: "page_aligned (cr3 s)" using assms(1) by (auto simp: owned_def vm_wf_def)
  note d = data_dir [OF al p(3), of _ b] data_tables [OF al p(3), of b] data_translate [OF al p(3), of b]
  have spare: "spare ?t x = spare s x" for x by (simp add: spare_def frame_capacity_def)
  have "vm_wf ?t (cr3 s)"
    using wf by (simp add: vm_wf_def d(1) spare del: fun_upd_apply) (simp add: frames_wf_def)
  moreover have "translate ?m (cr3 s) = translate (mem s) (cr3 s)" using d(3) by (rule ext)
  ultimately have "owned ?t U" using assms(1) by (simp add: owned_def d(2) spare del: fun_upd_apply)
  moreover have "uview ?t u = ((uview s)(a := b)) u" if u: "u \<in> U" for u
  proof -
    obtain q where q: "translate (mem s) (cr3 s) u = Some q" using assms(1) u by (auto simp: owned_def)
    have inj: "inj_on (translate (mem s) (cr3 s)) U" using assms(1) by (simp add: owned_def)
    have "q = p \<longleftrightarrow> u = a" using inj_on_eq_iff [OF inj u assms(2)] p(1) q by auto
    then show ?thesis using q p(1) by (auto simp: uview_def d(3))
  qed
  moreover have "small_pages ?t u = small_pages s u" for u by (simp add: small_pages_def dir_entry_def d(1) del: fun_upd_apply)
  moreover have "frames_left n ?t = frames_left n s" for n by (simp add: frames_left_def frame_capacity_def)
  moreover have "virt_put a b s = Done () ?t" using p(1) by (simp add: virt_put_def)
  ultimately show ?thesis unfolding runs_def by auto
qed

lemma offset_in_frame:
  assumes "page_aligned f"
  shows "PGADDR (f + (u AND 0xFFF)) = f" "page_of (f + (u AND 0xFFF)) = page_of f"
    "f + (u AND 0xFFF) = f + (v AND 0xFFF) \<Longrightarrow> page_of u = page_of v \<Longrightarrow> u = v"
proof -
  obtain n where n: "n < 4096" "u AND 0xFFF = of_nat n" "unat u mod 4096 = n" using low_bits by blast
  then show "PGADDR (f + (u AND 0xFFF)) = f" using PGADDR_in_page [OF assms] by simp
  then show "page_of (f + (u AND 0xFFF)) = page_of f" by (metis page_of_PGADDR)
  obtain k where k: "k < 4096" "v AND 0xFFF = of_nat k" "unat v mod 4096 = k" using low_bits by blast
  assume eq: "f + (u AND 0xFFF) = f + (v AND 0xFFF)" "page_of u = page_of v"
  then have "unat u mod 4096 = unat v mod 4096" using n k in_page_eq_iff [OF assms assms n(1) k(1)] by simp
  moreover have "unat u div 4096 = unat v div 4096" using eq(2) by (simp add: page_of_def)
  ultimately have "unat u = unat v" by (metis div_mult_mod_eq)
  then show "u = v" by (simp add: word_unat_eq_iff)
qed

lemma owned_alloc:
  assumes "owned s U" "page_addrs a \<inter> U = {}" "frames_left (2 * Suc n) s" "small_pages s a"
  shows "runs (pg_alloc a) s (\<lambda>_ t. owned t (U \<union> page_addrs a) \<and> same_rest s t \<and> (\<forall>u \<in> U. uview t u = uview s u)
     \<and> frames_left (2 * n) t \<and> (\<forall>u. small_pages s u \<longrightarrow> small_pages t u))"
proof -
  have pgd: "vm_wf s (t_pgd (cur s))" "t_pgd (cur s) = cr3 s" using assms(1) by (simp_all add: owned_def)
  have "frames_left 2 s" using assms(3) by (simp add: frames_left_def)
  moreover have "dir_entry (mem s) (t_pgd (cur s)) a AND PAGE_EXTENDED = 0" using assms(4) pgd(2) by (simp add: small_pages_def)
  ultimately show ?thesis
  proof (rule runs_weaken [OF pg_alloc_remaps [OF pgd(1)]])
    fix t assume "\<exists>f. backed s t (t_pgd (cur s)) a f"
    then obtain f where f: "backed s t (cr3 s) a f" using pgd(2) by auto
    have rest: "same_rest s t" "vm_wf t (cr3 s)" "page_aligned f" "spare s f" "\<not> spare t f" "f \<notin> table_frames (mem t) (cr3 s)"
      "frames_kept s t (cr3 s)" using f by (simp_all add: backed_def spare_def)
    note same = same_rest_fields [OF rest(1)]
    have tr: "translate (mem t) (cr3 s) u = (if u \<in> page_addrs a then Some (f + (u AND 0xFFF)) else translate (mem s) (cr3 s) u)" for u
      using f by (simp add: backed_def PGADDR_page_of page_addrs_def)
    have old: "\<exists>p. translate (mem s) (cr3 s) u = Some p \<and> translate (mem t) (cr3 s) u = Some p \<and> mem t p = mem s p \<and> \<not> spare s p
       \<and> \<not> spare t p \<and> PGADDR p \<notin> table_frames (mem t) (cr3 s)" if "u \<in> U" for u
    proof -
      have "u \<notin> page_addrs a" using that assms(2) by blast
      then show ?thesis using assms(1) rest(7) that tr [of u] by (fastforce simp: owned_def frames_kept_def)
    qed
    have new: "\<not> spare t (f + (u AND 0xFFF))" "spare s (f + (u AND 0xFFF))" for u
      using rest(4,5) offset_in_frame(2) [OF rest(3)] by (simp_all add: spare_def)
    have "inj_on (translate (mem t) (cr3 s)) (U \<union> page_addrs a)"
    proof (rule inj_onI)
      fix u v assume uv: "u \<in> U \<union> page_addrs a" "v \<in> U \<union> page_addrs a" "translate (mem t) (cr3 s) u = translate (mem t) (cr3 s) v"
      have "u \<in> page_addrs a \<longleftrightarrow> v \<in> page_addrs a"
        using uv old [of u] old [of v] tr [of u] tr [of v] new(2) by (metis UnE option.inject)
      then show "u = v" using uv tr [of u] tr [of v] offset_in_frame(3) [OF rest(3), of u v] assms(1)
        by (auto simp: page_addrs_def owned_def inj_on_def split: if_splits)
    qed
    moreover have "\<exists>p. translate (mem t) (cr3 s) u = Some p \<and> \<not> spare t p \<and> PGADDR p \<notin> table_frames (mem t) (cr3 s)"
      if "u \<in> U \<union> page_addrs a" for u
      using that old [of u] tr [of u] new(1) rest(6) offset_in_frame(1) [OF rest(3)] by (cases "u \<in> page_addrs a") auto
    ultimately have "owned t (U \<union> page_addrs a)" using rest(2) same pgd(2) by (auto simp: owned_def)
    moreover have "\<forall>u \<in> U. uview t u = uview s u" using old same(7) by (fastforce simp: uview_def)
    moreover have "frames_left (2 * n) t"
    proof -
      obtain T where T: "frame_used t \<subseteq> {T, page_of f} \<union> frame_used s" "frame_capacity t = frame_capacity s"
        using f by (auto simp: backed_def)
      have "card {T, page_of f} \<le> 2" by (simp add: card_insert_if)
      then show ?thesis using assms(3) by (intro frames_left_take [OF assms(3) T(2,1)]) simp_all
    qed
    moreover have "\<forall>u. small_pages s u \<longrightarrow> small_pages t u" using f same(7) by (simp add: small_pages_def backed_def)
    ultimately show "owned t (U \<union> page_addrs a) \<and> same_rest s t \<and> (\<forall>u \<in> U. uview t u = uview s u)
     \<and> frames_left (2 * n) t \<and> (\<forall>u. small_pages s u \<longrightarrow> small_pages t u)" using rest(1) by blast
  qed
qed

interpretation um: user_memory owned uview "\<lambda>n. frames_left (2 * n)" small_pages same_rest page_addrs virt_get virt_put pg_alloc
proof
  show "same_rest s s" for s :: "'a mmu_scheme" by (simp add: same_rest_def)
  show "same_rest s t \<Longrightarrow> same_rest t w \<Longrightarrow> same_rest s w" for s t w :: "'a mmu_scheme" by (rule same_rest_trans)
  show "owned s U \<Longrightarrow> V \<subseteq> U \<Longrightarrow> owned s V" for s :: "'a mmu_scheme" and U V
    by (auto simp: owned_def intro: inj_on_subset)
  show "owned s U \<Longrightarrow> a \<in> U \<Longrightarrow> virt_get a s = Done (uview s a) s" for s :: "'a mmu_scheme" and U a
    by (force simp: owned_def virt_get_def uview_def)
qed (use owned_put owned_alloc in blast)+

lemma addrs4: "addrs a 4 = {a, a + 1, a + 2, a + 3}"
  by (auto simp: addrs_def eval_nat_numeral lessThan_Suc)

lemma virt_put32_runs:
  assumes "owned s U" "addrs a 4 \<subseteq> U"
  shows "runs (virt_put32 a v) s (\<lambda>_ t. um.still s t U \<and> (\<forall>u \<in> U. uview t u = set32 (uview s) a v u))"
  using um.puts_runs [OF assms(1), of "[(a, ucast v), (a + 1, ucast (drop_bit 8 v)), (a + 2, ucast (drop_bit 16 v)), (a + 3, ucast (drop_bit 24 v))]"]
    assms(2) by (simp add: virt_put32_def set32_def addrs4)

lemma virt_struct_run:
  assumes "owned s U" "addrs a n \<subseteq> U"
  shows "virt_struct f n a s = Done (f (uview s) a) s"
proof -
  have "translate (mem s) (cr3 s) (a + of_nat k) \<noteq> None" if "k < n" for k
    using assms addrs_mem [OF that, of a] unfolding owned_def by blast
  then show ?thesis by (simp add: virt_struct_def list_all_iff)
qed

lemma uview_cong32: "\<forall>u \<in> U. m u = m' u \<Longrightarrow> addrs a 4 \<subseteq> U \<Longrightarrow> get32 m a = get32 m' a"
  by (rule get32_cong) (auto simp: addrs4)

end
