(* ===== verification/Elf.thy ===== *)
theory Elf
  imports Sched Usermem
begin

text \<open>
  Program files: the reader of ELF images (\<^verbatim>\<open>kernel/proc/elf/read_elf.c\<close>), the loader (\<^verbatim>\<open>elf/exec.c\<close>) and
  the start of the new program (\<^verbatim>\<open>arch/x86/proc/exec.c\<close>). An image is bytes of the running task's memory; the reader's
  pointers are addresses in it, and every field is read through the translation, with no check that it lies in the file. A failed
  \<^verbatim>\<open>kassert\<close> is a panic. The C library's \<^verbatim>\<open>stat\<close>, \<^verbatim>\<open>mmap\<close>, \<^verbatim>\<open>fopen\<close>, \<^verbatim>\<open>fread\<close> and \<^verbatim>\<open>malloc\<close> are arguments.
\<close>

subsection \<open>Layout of the file\<close>

text \<open>Sizes and field offsets of \<^verbatim>\<open>Elf32_Ehdr\<close>, \<^verbatim>\<open>Elf32_Shdr\<close>, \<^verbatim>\<open>Elf32_Phdr\<close> and \<^verbatim>\<open>Elf32_Sym\<close>.\<close>

datatype ehdr_field = e_entry | e_phoff | e_shoff
datatype shdr_field = sh_name | sh_addr | sh_offset | sh_size
datatype phdr_field = p_type | p_offset | p_vaddr | p_filesz | p_memsz | p_flags

primrec ehdr_ofs :: "ehdr_field \<Rightarrow> u32" where
  "ehdr_ofs e_entry = 24" | "ehdr_ofs e_phoff = 28" | "ehdr_ofs e_shoff = 32"

primrec shdr_ofs :: "shdr_field \<Rightarrow> u32" where
  "shdr_ofs sh_name = 0" | "shdr_ofs sh_addr = 12" | "shdr_ofs sh_offset = 16" | "shdr_ofs sh_size = 20"

primrec phdr_ofs :: "phdr_field \<Rightarrow> u32" where
  "phdr_ofs p_type = 0" | "phdr_ofs p_offset = 4" | "phdr_ofs p_vaddr = 8" | "phdr_ofs p_filesz = 16"
| "phdr_ofs p_memsz = 20" | "phdr_ofs p_flags = 24"

definition SIZEOF_SHDR :: u32 where "SIZEOF_SHDR = 40"
definition SIZEOF_PHDR :: u32 where "SIZEOF_PHDR = 32"
definition SIZEOF_SYM :: u32 where "SIZEOF_SYM = 16"
definition ET_EXEC :: u16 where "ET_EXEC = 2"
definition ELFCLASS32 :: u8 where "ELFCLASS32 = 1"
definition PT_LOAD :: u32 where "PT_LOAD = 1"
definition PF_W :: u32 where "PF_W = 2"
definition PF_R :: u32 where "PF_R = 4"

text \<open>The return codes of the reader; 0 is success.\<close>

definition ELF_INVALID_SYMBOL :: int where "ELF_INVALID_SYMBOL = 6"
definition ELF_UNMAPPED :: int where "ELF_UNMAPPED = 7"

record elf =
  elf_data :: vaddr_t
  elf_length :: u32
  header :: vaddr_t
  shdr :: vaddr_t
  phdr :: vaddr_t
  symtab :: vaddr_t
  num_segments :: int
  num_sections :: int
  num_symbols :: int
  sec_strtab :: int
  sec_shstrtab :: int

definition kassert :: "bool \<Rightarrow> string \<Rightarrow> ('s, unit) kern" where
  "kassert b cond = kguard b (Panic (''assert failed: '' @ cond))"

definition shdr_get :: "elf \<Rightarrow> int \<Rightarrow> shdr_field \<Rightarrow> ('a machine_scheme, u32) kern" where
  "shdr_get elf i f = virt_get32 (shdr elf + SIZEOF_SHDR * of_int i + shdr_ofs f)"

definition phdr_get :: "elf \<Rightarrow> nat \<Rightarrow> phdr_field \<Rightarrow> ('a machine_scheme, u32) kern" where
  "phdr_get elf i f = virt_get32 (phdr elf + SIZEOF_PHDR * of_nat i + phdr_ofs f)"

abbreviation sym_ptr :: "elf \<Rightarrow> int \<Rightarrow> vaddr_t" where
  "sym_ptr elf i \<equiv> symtab elf + SIZEOF_SYM * of_int i"

text \<open>\<^verbatim>\<open>strcpy\<close> into a buffer of \<open>n\<close> bytes on the caller's stack; a longer string overruns it.\<close>

primrec strcpy_buf :: "nat \<Rightarrow> vaddr_t \<Rightarrow> ('a machine_scheme, string) kern" where
  "strcpy_buf 0 a = kstop BadAccess"
| "strcpy_buf (Suc n) a = kbind (virt_get a) (\<lambda>c. if c = 0 then kret []
     else kbind (strcpy_buf n (a + 1)) (\<lambda>cs. kret (char_of (unat c) # cs)))"

subsection \<open>Sections, symbols and segments\<close>

definition elf_get_section_data :: "elf \<Rightarrow> int \<Rightarrow> ('a machine_scheme, vaddr_t) kern" where
  "elf_get_section_data elf section =
     kthen (kassert (section < num_sections elf) ''section < elf->num_sections'')
    (kbind (shdr_get elf section sh_offset) (\<lambda>file_ofs. kret (elf_data elf + file_ofs)))"

definition elf_get_section_faddr :: "elf \<Rightarrow> int \<Rightarrow> ('a machine_scheme, u32) kern" where
  "elf_get_section_faddr elf section =
     kthen (kassert (section < num_sections elf) ''section < elf->num_sections'') (shdr_get elf section sh_offset)"

definition elf_get_section_len :: "elf \<Rightarrow> int \<Rightarrow> ('a machine_scheme, u32) kern" where
  "elf_get_section_len elf section =
     kthen (kassert (section < num_sections elf) ''section < elf->num_sections'') (shdr_get elf section sh_size)"

definition elf_get_strtab_entry :: "elf \<Rightarrow> int \<Rightarrow> u32 \<Rightarrow> ('a machine_scheme, string) kern" where
  "elf_get_strtab_entry elf strtab ofs =
     kbind (elf_get_section_data elf strtab) (\<lambda>shstrtab. strcpy_buf 32 (shstrtab + ofs))"

definition elf_get_section_name :: "elf \<Rightarrow> int \<Rightarrow> ('a machine_scheme, string) kern" where
  "elf_get_section_name elf section =
     kthen (kassert (section < num_sections elf) ''section < elf->num_sections'')
    (kbind (shdr_get elf section sh_name) (\<lambda>strtab_ofs.
     elf_get_strtab_entry elf (sec_shstrtab elf) strtab_ofs))"

text \<open>The loop does not stop at a match, and \<open>None\<close> stands for an out parameter that was not written: the routine
  returns 0 in that case too.\<close>

primrec section_search :: "elf \<Rightarrow> string \<Rightarrow> int list \<Rightarrow> int option \<Rightarrow> ('a machine_scheme, int option) kern" where
  "section_search elf name [] out = kret out"
| "section_search elf name (i # is) out = kbind (elf_get_section_name elf i) (\<lambda>sec_name.
     section_search elf name is (if sec_name = name then Some i else out))"

definition elf_get_section_by_name :: "elf \<Rightarrow> string \<Rightarrow> ('a machine_scheme, int option) kern" where
  "elf_get_section_by_name elf name = section_search elf name [1..num_sections elf - 1] None"

definition elf_get_symbol_name :: "elf \<Rightarrow> int \<Rightarrow> ('a machine_scheme, string) kern" where
  "elf_get_symbol_name elf symbol =
     kthen (kassert (symbol < num_symbols elf) ''symbol < elf->num_symbols'')
    (kbind (virt_get32 (sym_ptr elf symbol)) (\<lambda>strtab_ofs.
     elf_get_strtab_entry elf (sec_strtab elf) strtab_ofs))"

primrec symbol_search :: "elf \<Rightarrow> string \<Rightarrow> int list \<Rightarrow> ('a machine_scheme, int + int) kern" where
  "symbol_search elf name [] = kret (Inl ELF_INVALID_SYMBOL)"
| "symbol_search elf name (i # is) = kbind (elf_get_symbol_name elf i) (\<lambda>sym_name.
     if sym_name = name then kret (Inr i) else symbol_search elf name is)"

definition elf_get_symbol_by_name :: "elf \<Rightarrow> string \<Rightarrow> ('a machine_scheme, int + int) kern" where
  "elf_get_symbol_by_name elf name = symbol_search elf name [0..num_symbols elf - 1]"

text \<open>Addresses: the first segment, or section, that strictly contains one. Index 0 is skipped.\<close>

primrec segment_search :: "elf \<Rightarrow> vaddr_t \<Rightarrow> nat list \<Rightarrow> ('a machine_scheme, int + u32) kern" where
  "segment_search elf vaddr [] = kret (Inl ELF_UNMAPPED)"
| "segment_search elf vaddr (i # is) =
     kbind (phdr_get elf i p_vaddr) (\<lambda>base_addr.
     kbind (phdr_get elf i p_memsz) (\<lambda>memsz.
     if vaddr > base_addr \<and> vaddr < base_addr + memsz
     then kbind (phdr_get elf i p_offset) (\<lambda>ofs. kret (Inr (ofs + (vaddr - base_addr))))
     else segment_search elf vaddr is))"

definition elf_map_vaddr :: "elf \<Rightarrow> vaddr_t \<Rightarrow> ('a machine_scheme, int + u32) kern" where
  "elf_map_vaddr elf vaddr = segment_search elf vaddr [1..<nat (num_segments elf)]"

primrec vsection_search :: "elf \<Rightarrow> vaddr_t \<Rightarrow> int list \<Rightarrow> ('a machine_scheme, int + int) kern" where
  "vsection_search elf vaddr [] = kret (Inl ELF_UNMAPPED)"
| "vsection_search elf vaddr (i # is) =
     kbind (shdr_get elf i sh_addr) (\<lambda>base_addr.
     kbind (shdr_get elf i sh_size) (\<lambda>size.
     if vaddr > base_addr \<and> vaddr < base_addr + size then kret (Inr i) else vsection_search elf vaddr is))"

definition elf_map_vaddr_section :: "elf \<Rightarrow> vaddr_t \<Rightarrow> ('a machine_scheme, int + int) kern" where
  "elf_map_vaddr_section elf vaddr = vsection_search elf vaddr [1..num_sections elf - 1]"

definition elf_get_symbol_vaddr :: "elf \<Rightarrow> int \<Rightarrow> ('a machine_scheme, u32) kern" where
  "elf_get_symbol_vaddr elf symidx = virt_get32 (sym_ptr elf symidx + 4)"

text \<open>\<^verbatim>\<open>kassert(ret == 0, ELF_UNMAPPED)\<close> on the result of a search.\<close>

definition kassert_found :: "('a machine_scheme, int + 'b) kern \<Rightarrow> ('a machine_scheme, 'b) kern" where
  "kassert_found m = kbind m (\<lambda>r. case r of Inl _ \<Rightarrow> kstop (Panic ''assert failed: ret == 0'') | Inr x \<Rightarrow> kret x)"

definition elf_get_symbol_faddr :: "elf \<Rightarrow> int \<Rightarrow> ('a machine_scheme, u32) kern" where
  "elf_get_symbol_faddr elf symidx = kbind (elf_get_symbol_vaddr elf symidx) (\<lambda>vaddr. kassert_found (elf_map_vaddr elf vaddr))"

definition elf_get_symbol_section :: "elf \<Rightarrow> int \<Rightarrow> ('a machine_scheme, int) kern" where
  "elf_get_symbol_section elf symidx =
     kbind (elf_get_symbol_vaddr elf symidx) (\<lambda>vaddr. kassert_found (elf_map_vaddr_section elf vaddr))"

subsection \<open>Reading an image\<close>

definition elf_read_header :: "elf \<Rightarrow> ('a machine_scheme, elf) kern" where
  "elf_read_header elf =
     (let h = elf_data elf in
      kbind (virt_get h) (\<lambda>m0. kthen (kassert (m0 = 0x7F) ''elf->header->e_ident[EI_MAG0] == ELFMAG0'')
     (kbind (virt_get (h + 1)) (\<lambda>m1. kthen (kassert (m1 = 0x45) ''elf->header->e_ident[EI_MAG1] == ELFMAG1'')
     (kbind (virt_get (h + 2)) (\<lambda>m2. kthen (kassert (m2 = 0x4C) ''elf->header->e_ident[EI_MAG2] == ELFMAG2'')
     (kbind (virt_get (h + 3)) (\<lambda>m3. kthen (kassert (m3 = 0x46) ''elf->header->e_ident[EI_MAG3] == ELFMAG3'')
     (kbind (virt_get (h + 4)) (\<lambda>cl. kthen (kassert (cl = ELFCLASS32) ''elf->header->e_ident[EI_CLASS] == ELFCLASS32'')
     (kbind (virt_struct get16 2 (h + 16)) (\<lambda>ty. kthen (kassert (ty = ET_EXEC) ''elf->header->e_type == ET_EXEC'')
     (kret (elf\<lparr>header := h\<rparr>))))))))))))))"

text \<open>\<^verbatim>\<open>sec_strtab\<close> keeps what the caller's structure held when no section is named \<^verbatim>\<open>.strtab\<close>; the local
  \<^verbatim>\<open>symtab_sec\<close> of \<^verbatim>\<open>elf_read_symtab\<close> holds nothing then.\<close>

definition elf_read_shdr :: "elf \<Rightarrow> ('a machine_scheme, elf) kern" where
  "elf_read_shdr elf =
     kbind (virt_get32 (header elf + ehdr_ofs e_shoff)) (\<lambda>shoff.
     kbind (virt_struct get16 2 (header elf + 48)) (\<lambda>shnum.
     kbind (virt_struct get16 2 (header elf + 50)) (\<lambda>shstrndx.
     let elf = elf\<lparr>shdr := elf_data elf + shoff, num_sections := uint shnum, sec_shstrtab := uint shstrndx\<rparr> in
     kbind (elf_get_section_by_name elf ''.strtab'') (\<lambda>out.
     kret (case out of None \<Rightarrow> elf | Some i \<Rightarrow> elf\<lparr>sec_strtab := i\<rparr>)))))"

definition elf_read_phdr :: "elf \<Rightarrow> ('a machine_scheme, elf) kern" where
  "elf_read_phdr elf =
     kbind (virt_get32 (header elf + ehdr_ofs e_phoff)) (\<lambda>phoff.
     kbind (virt_struct get16 2 (header elf + 44)) (\<lambda>phnum.
     kret (elf\<lparr>phdr := elf_data elf + phoff, num_segments := uint phnum\<rparr>)))"

definition elf_read_symtab :: "elf \<Rightarrow> ('a machine_scheme, elf) kern" where
  "elf_read_symtab elf =
     kbind (elf_get_section_by_name elf ''.symtab'') (\<lambda>out. case out of None \<Rightarrow> kstop BadAccess | Some symtab_sec \<Rightarrow>
     kbind (shdr_get elf symtab_sec sh_offset) (\<lambda>ofs.
     kbind (shdr_get elf symtab_sec sh_size) (\<lambda>size.
     kret (elf\<lparr>symtab := elf_data elf + ofs, num_symbols := uint (size div SIZEOF_SYM)\<rparr>))))"

text \<open>The files of the C library, as \<^verbatim>\<open>elf_read\<close> uses them: the size of a file, anonymous memory, and a read of
  the whole file; \<^verbatim>\<open>fopen\<close> returns 0 on failure.\<close>

record 's stdio =
  c_stat :: "string \<Rightarrow> ('s, u32 option) kern"
  c_mmap :: "u32 \<Rightarrow> ('s, vaddr_t) kern"
  c_fopen :: "string \<Rightarrow> ('s, u32) kern"
  c_fseek :: "u32 \<Rightarrow> u32 \<Rightarrow> ('s, unit) kern"
  c_fread :: "vaddr_t \<Rightarrow> u32 \<Rightarrow> u32 \<Rightarrow> ('s, u32) kern"
  c_fclose :: "u32 \<Rightarrow> ('s, unit) kern"

definition elf_read :: "'a machine_scheme stdio \<Rightarrow> string \<Rightarrow> elf \<Rightarrow> ('a machine_scheme, elf) kern" where
  "elf_read io elf_file elf =
     kbind (c_stat io elf_file) (\<lambda>st. case st of None \<Rightarrow> kstop (Panic ''assert failed: ret == 0'') | Some st_size \<Rightarrow>
     kbind (c_mmap io st_size) (\<lambda>data.
     let elf = elf\<lparr>elf_data := data, elf_length := st_size\<rparr> in
     kbind (c_fopen io elf_file) (\<lambda>fd. kthen (kassert (fd \<noteq> 0) ''elf_fd != 0'')
    (kthen (c_fseek io fd 0)
    (kbind (c_fread io data st_size fd) (\<lambda>ret. kthen (kassert (ret = st_size) ''ret == (int)elf->elf_length'')
    (kthen (c_fclose io fd)
    (kbind (elf_read_header elf) (\<lambda>elf.
     kbind (elf_read_shdr elf) (\<lambda>elf.
     kbind (elf_read_symtab elf) (\<lambda>elf. elf_read_phdr elf)))))))))))"

text \<open>\<^verbatim>\<open>elf_free\<close> gives the memory that \<^verbatim>\<open>elf_read\<close> got from \<^verbatim>\<open>mmap\<close> to the heap's \<^verbatim>\<open>free\<close>.\<close>

definition elf_free :: "(vaddr_t \<Rightarrow> ('s, unit) kern) \<Rightarrow> elf \<Rightarrow> ('s, unit) kern" where
  "elf_free free elf = free (elf_data elf)"

subsection \<open>Loading\<close>

definition elf_load_segment :: "elf \<Rightarrow> nat \<Rightarrow> vaddr_t \<Rightarrow> ('a mmu_scheme, vaddr_t) kern" where
  "elf_load_segment elf i brk =
     kbind (phdr_get elf i p_type) (\<lambda>type. if type \<noteq> PT_LOAD then kret brk else
     kbind (phdr_get elf i p_vaddr) (\<lambda>base_addr.
     kbind (phdr_get elf i p_memsz) (\<lambda>memsz.
     kbind (phdr_get elf i p_flags) (\<lambda>flags.
     let lim_addr = base_addr + memsz; rw = (flags AND (PF_R OR PF_W) \<noteq> 0) in
     kthen (pg_alloc_range base_addr lim_addr rw)
    (kbind (phdr_get elf i p_offset) (\<lambda>ofs.
     kbind (phdr_get elf i p_filesz) (\<lambda>filesz.
     kthen (virt_copy base_addr (elf_data elf + ofs) filesz)
    (kbind (phdr_get elf i p_filesz) (\<lambda>filesz.
     kbind (phdr_get elf i p_memsz) (\<lambda>memsz.
     kthen (virt_fill (base_addr + filesz) 0 (memsz - filesz))
           (kret (if lim_addr > brk then lim_addr else brk))))))))))))"

primrec elf_load_loop :: "elf \<Rightarrow> nat list \<Rightarrow> vaddr_t \<Rightarrow> ('a mmu_scheme, vaddr_t) kern" where
  "elf_load_loop elf [] brk = kret brk"
| "elf_load_loop elf (i # is) brk = kbind (elf_load_segment elf i brk) (elf_load_loop elf is)"

definition elf_load :: "elf \<Rightarrow> ('a mmu_scheme, unit) kern" where
  "elf_load elf = kbind (elf_load_loop elf [0..<nat (num_segments elf)] 0) (\<lambda>brk.
     kmod (\<lambda>s. upd_task (CurrentTask s) (\<lambda>t. t\<lparr>t_brk := brk\<rparr>) s))"

subsection \<open>Starting the program\<close>

partial_function (option) arg_count :: "vaddr_t \<Rightarrow> nat \<Rightarrow> 'a machine_scheme \<Rightarrow> (stop + nat \<times> 'a machine_scheme) option" where
  "arg_count arr n s = kbind (virt_get32 (arr + 4 * of_nat n)) (\<lambda>p. if p = NULL then kret n else arg_count arr (n + 1)) s"

text \<open>\<^verbatim>\<open>for (i = n - 1; i >= 0; i--) stack[sp++] = arr[i];\<close>\<close>

definition args_to_stack :: "vaddr_t \<Rightarrow> nat \<Rightarrow> vaddr_t \<Rightarrow> nat \<Rightarrow> ('a machine_scheme, unit) kern" where
  "args_to_stack stack sp arr n = kfor [0..<n] (\<lambda>j.
     kbind (virt_get32 (arr + 4 * of_nat (n - 1 - j))) (virt_put32 (stack + 4 * of_nat (sp + j))))"

definition push32 :: "u32 \<Rightarrow> ('a machine_scheme, unit) kern" where
  "push32 v = kbind (kget (\<lambda>s. esp s - 4)) (\<lambda>a. kthen (virt_put32 a v) (kmod (\<lambda>s. s\<lparr>esp := a\<rparr>)))"

text \<open>The result is the address that the processor jumps to.\<close>

definition arch_exec :: "'a mmu_scheme malloc_t \<Rightarrow> vaddr_t \<Rightarrow> vaddr_t \<Rightarrow> vaddr_t \<Rightarrow> ('a mmu_scheme, vaddr_t) kern" where
  "arch_exec malloc start argv envp =
     kthen (pg_alloc 0)
    (kbind (arg_count envp 0) (\<lambda>envc.
     kbind (arg_count argv 0) (\<lambda>argc.
     kbind (malloc (of_nat (envc + argc + 4))) (\<lambda>stack.
     kthen (kseq
       [virt_put32 stack NULL,
        args_to_stack stack 1 envp envc,
        virt_put32 (stack + 4 * of_nat (1 + envc)) NULL,
        args_to_stack stack (2 + envc) argv argc,
        virt_put32 (stack + 4 * of_nat (2 + envc + argc)) (of_nat argc),
        kfor [0..<envc + argc + 3] (\<lambda>j. kbind (virt_get32 (stack + 4 * of_nat j)) push32),
        intr_enable])
      (kret start)))))"

definition elf_start :: "'a mmu_scheme malloc_t \<Rightarrow> elf \<Rightarrow> vaddr_t \<Rightarrow> vaddr_t \<Rightarrow> ('a mmu_scheme, vaddr_t) kern" where
  "elf_start malloc elf argv envp = kbind (virt_get32 (header elf + ehdr_ofs e_entry)) (\<lambda>fn. arch_exec malloc fn argv envp)"

subsection \<open>What the loader does\<close>

text \<open>A field of program header \<open>i\<close>, the pages the loader takes for it, and when it can be loaded: it lies below
  the top of the address space, and its file part is no longer than its memory part and lies in \<open>U\<close>.\<close>

definition ph :: "bytes \<Rightarrow> elf \<Rightarrow> nat \<Rightarrow> phdr_field \<Rightarrow> u32" where
  "ph m elf i f = get32 m (phdr elf + SIZEOF_PHDR * of_nat i + phdr_ofs f)"

definition seg_list :: "bytes \<Rightarrow> elf \<Rightarrow> nat \<Rightarrow> vaddr_t list" where
  "seg_list m elf i = page_list (ph m elf i p_vaddr) (ph m elf i p_vaddr + ph m elf i p_memsz + PAGE_SIZE)"

definition seg_area :: "bytes \<Rightarrow> elf \<Rightarrow> nat \<Rightarrow> vaddr_t set" where
  "seg_area m elf i = \<Union> (page_addrs ` set (seg_list m elf i))"

definition seg_ok :: "bytes \<Rightarrow> elf \<Rightarrow> vaddr_t set \<Rightarrow> nat \<Rightarrow> bool" where
  "seg_ok m elf U i \<longleftrightarrow> ph m elf i p_filesz \<le> ph m elf i p_memsz \<and> unat (ph m elf i p_vaddr) + unat (ph m elf i p_memsz) \<le> 0xFFFFE000
     \<and> addrs (elf_data elf + ph m elf i p_offset) (unat (ph m elf i p_filesz)) \<subseteq> U"

definition seg_loaded :: "bytes \<Rightarrow> elf \<Rightarrow> bytes \<Rightarrow> nat \<Rightarrow> bool" where
  "seg_loaded m elf m' i \<longleftrightarrow> (\<forall>k < unat (ph m elf i p_memsz). m' (ph m elf i p_vaddr + of_nat k) =
     (if k < unat (ph m elf i p_filesz) then m (elf_data elf + ph m elf i p_offset + of_nat k) else 0))"

definition load_segs :: "bytes \<Rightarrow> elf \<Rightarrow> nat list" where
  "load_segs m elf = filter (\<lambda>i. ph m elf i p_type = PT_LOAD) [0..<nat (num_segments elf)]"

definition seg_lim :: "bytes \<Rightarrow> elf \<Rightarrow> nat \<Rightarrow> u32" where
  "seg_lim m elf i = ph m elf i p_vaddr + ph m elf i p_memsz"

lemma phdr_addrs:
  assumes "i < n"
  shows "addrs (phdr elf + SIZEOF_PHDR * of_nat i + phdr_ofs f) 4 \<subseteq> addrs (phdr elf) (32 * n)"
proof -
  obtain j where j: "phdr_ofs f = of_nat j" "j + 4 \<le> 32"
    by (cases f) (auto intro: that [of 0] that [of 4] that [of 8] that [of 16] that [of 20] that [of 24])
  have "phdr elf + SIZEOF_PHDR * of_nat i + phdr_ofs f = phdr elf + of_nat (32 * i + j)"
    by (simp add: SIZEOF_PHDR_def j(1) add.assoc)
  moreover have "addrs (phdr elf + of_nat (32 * i + j)) 4 \<subseteq> addrs (phdr elf) (32 * n)"
    using j(2) assms by (intro addrs_shift) linarith
  ultimately show ?thesis by (simp only:)
qed

lemma phdr_get_run:
  assumes "owned s U" "\<forall>u \<in> J. uview s u = m u" "J \<subseteq> U" "addrs (phdr elf) (32 * n) \<subseteq> J" "i < n"
  shows "phdr_get elf i f s = Done (ph m elf i f) s"
proof -
  have sub: "addrs (phdr elf + SIZEOF_PHDR * of_nat i + phdr_ofs f) 4 \<subseteq> J" using phdr_addrs [OF assms(5)] assms(4) by blast
  with assms(1,3) have "phdr_get elf i f s = Done (ph (uview s) elf i f) s"
    unfolding phdr_get_def ph_def by (intro virt_struct_run [OF assms(1)]) auto
  also have "ph (uview s) elf i f = ph m elf i f" unfolding ph_def by (rule uview_cong32 [OF assms(2) sub])
  finally show ?thesis .
qed

lemma page_addrs_eq: "page_addrs p = page_addrs q \<longleftrightarrow> page_of p = page_of q"
  by (auto simp: page_addrs_def)

lemma page_addrs_disjoint: "page_addrs p \<noteq> page_addrs q \<Longrightarrow> page_addrs p \<inter> page_addrs q = {}"
  by (auto simp: page_addrs_def)

lemma page_list_distinct:
  assumes "lim \<le> 0xFFFFF000"
  shows "distinct (map page_addrs (page_list i lim))"
proof -
  have "page_of (i + of_nat k * PAGE_SIZE) = page_of i + k" if "k < page_count i lim" for k
    using page_list_unat [OF assms that] by (simp add: page_of_def)
  then show ?thesis
    by (auto simp: page_list_def distinct_map inj_on_def page_addrs_eq comp_def)
qed

lemma seg_limit:
  assumes "unat b + unat n \<le> 0xFFFFE000"
  shows "unat (b + n) = unat b + unat n" "b + n + PAGE_SIZE \<le> 0xFFFFF000" "unat (b + n + PAGE_SIZE) = unat b + unat n + 4096"
proof -
  show bn: "unat (b + n) = unat b + unat n" using assms by (intro unat_add_lem [THEN iffD1]) simp
  show "unat (b + n + PAGE_SIZE) = unat b + unat n + 4096"
    using assms bn unat_add_lem [of "b + n" PAGE_SIZE] by (simp add: PAGE_SIZE_def)
  then show "b + n + PAGE_SIZE \<le> 0xFFFFF000" using assms by (simp add: word_le_nat_alt)
qed

text \<open>The pages cover the segment.\<close>

lemma seg_covers:
  assumes "unat b + unat n \<le> 0xFFFFE000"
  shows "addrs b (unat n) \<subseteq> \<Union> (page_addrs ` set (page_list b (b + n + PAGE_SIZE)))"
proof
  fix u assume "u \<in> addrs b (unat n)"
  then obtain k where k: "k < unat n" "u = b + of_nat k" by (auto simp: addrs_def)
  have kk: "unat (of_nat k :: u32) = k" using k(1) unat_lt32 [of n] by (simp add: unat_of_nat)
  then have u: "unat u = unat b + k" using k assms unat_add_lem [of b "of_nat k"] by simp
  define c where "c = page_count b (b + n + PAGE_SIZE)"
  have "c = (unat n + 4096 + 4095) div 4096" using seg_limit(3) [OF assms] by (simp add: c_def page_count_def)
  then have "page_of b \<le> page_of u" "page_of u < page_of b + c" using k(1) u by (simp_all add: page_of_def div_le_mono)
  then have "page_of u \<in> page_of ` set (page_list b (b + n + PAGE_SIZE))"
    using page_list_pages [OF seg_limit(2) [OF assms]] by (simp add: c_def)
  then show "u \<in> \<Union> (page_addrs ` set (page_list b (b + n + PAGE_SIZE)))" by (auto simp: page_addrs_def)
qed

lemma load_segment_runs:
  assumes own: "owned s U" and img: "\<forall>u \<in> J. uview s u = m u" "J \<subseteq> U" and hdrs: "addrs (phdr elf) (32 * n) \<subseteq> J" "i < n"
    and seg: "seg_ok m elf J i" "seg_area m elf i \<inter> U = {}"
    and load: "ph m elf i p_type = PT_LOAD" and small: "\<forall>p \<in> set (seg_list m elf i). small_pages s p"
    and left: "frames_left (2 * (length (seg_list m elf i) + r)) s"
  shows "runs (elf_load_segment elf i brk) s (\<lambda>b t. b = max brk (seg_lim m elf i)
     \<and> owned t (U \<union> seg_area m elf i) \<and> same_rest s t \<and> (\<forall>u \<in> U. uview t u = uview s u) \<and> seg_loaded m elf (uview t) i
     \<and> frames_left (2 * r) t \<and> (\<forall>u. small_pages s u \<longrightarrow> small_pages t u))"
proof -
  let ?p = "ph m elf i"
  let ?b = "?p p_vaddr" and ?n = "?p p_memsz" and ?f = "?p p_filesz" and ?src = "elf_data elf + ?p p_offset"
  let ?A = "seg_area m elf i" and ?V = "U \<union> seg_area m elf i"
  have ok: "?f \<le> ?n" "unat ?b + unat ?n \<le> 0xFFFFE000" "addrs ?src (unat ?f) \<subseteq> U" "?A \<inter> U = {}" "addrs ?src (unat ?f) \<subseteq> J"
    using seg img(2) by (auto simp: seg_ok_def)
  note lim = seg_limit(2) [OF ok(2)]
  have cover: "addrs ?b (unat ?n) \<subseteq> ?A" unfolding seg_area_def seg_list_def by (rule seg_covers [OF ok(2)])
  have "runs (kfor (seg_list m elf i) pg_alloc) s (\<lambda>_ t. owned t ?V \<and> same_rest s t \<and> (\<forall>u \<in> U. uview t u = uview s u)
     \<and> frames_left (2 * r) t \<and> (\<forall>u. small_pages s u \<longrightarrow> small_pages t u))"
    unfolding seg_area_def
    by (rule um.alloc_runs [OF own left small])
      (use page_list_distinct [OF lim] page_addrs_disjoint ok(4) in \<open>auto simp: seg_list_def seg_area_def\<close>)
  then obtain t1 where a: "pg_alloc_range ?b (?b + ?n) rw s = Done () t1" and t1: "owned t1 ?V" "same_rest s t1" "\<forall>u \<in> U. uview t1 u = uview s u"
     "frames_left (2 * r) t1" "\<forall>u. small_pages s u \<longrightarrow> small_pages t1 u" for rw
    by (auto simp: runs_def pg_alloc_range_def base_flags_def page_loop_kfor [OF lim] seg_list_def)
  have fn: "unat ?f \<le> unat ?n" using ok(1) by (simp add: word_le_nat_alt)
  have dest: "addrs ?b (unat ?f) \<subseteq> ?A" using addrs_subset [OF fn] cover by blast
  have "runs (virt_copy ?b ?src ?f) t1 (\<lambda>_ t. um.still t1 t ?V \<and> (\<forall>u \<in> ?V. uview t u = mem_copy (uview t1) ?b ?src ?f u))"
    unfolding virt_copy_def by (rule um.copy_runs [OF t1(1)]) (use dest ok(3,4) in auto)
  then obtain t2 where c: "virt_copy ?b ?src ?f t1 = Done () t2" and t2: "um.still t1 t2 ?V"
    "\<forall>u \<in> ?V. uview t2 u = mem_copy (uview t1) ?b ?src ?f u" by (auto simp: runs_def)
  have own2: "owned t2 ?V" using t2(1) by (simp add: um.still_def)
  have nf: "unat (?n - ?f) = unat ?n - unat ?f" using ok(1) by (simp add: unat_sub word_le_nat_alt)
  have "addrs (?b + of_nat (unat ?f)) (unat ?n - unat ?f) \<subseteq> addrs ?b (unat ?n)" using fn by (intro addrs_shift) simp
  then have rest: "addrs (?b + ?f) (unat (?n - ?f)) \<subseteq> ?V" using cover by (auto simp: nf)
  have "runs (virt_fill (?b + ?f) 0 (?n - ?f)) t2 (\<lambda>_ t. um.still t2 t ?V \<and> (\<forall>u \<in> ?V. uview t u = mem_fill (uview t2) (?b + ?f) 0 (?n - ?f) u))"
    unfolding virt_fill_def by (rule um.fill_runs [OF own2 rest])
  then obtain t3 where f: "virt_fill (?b + ?f) 0 (?n - ?f) t2 = Done () t3" and t3: "um.still t2 t3 ?V"
    "\<forall>u \<in> ?V. uview t3 u = mem_fill (uview t2) (?b + ?f) 0 (?n - ?f) u" by (auto simp: runs_def)
  have out: "\<not> u - ?b < ?f" "\<not> u - (?b + ?f) < ?n - ?f" if "u \<in> U" for u
  proof -
    have "u \<notin> addrs ?b (unat ?f)" "u \<notin> addrs (?b + ?f) (unat (?n - ?f))"
      using that ok(4) dest cover rest \<open>addrs (?b + of_nat (unat ?f)) (unat ?n - unat ?f) \<subseteq> addrs ?b (unat ?n)\<close> by (auto simp: nf)
    then show "\<not> u - ?b < ?f" "\<not> u - (?b + ?f) < ?n - ?f"
      using addrs_unat [of "unat ?f" u ?b] addrs_unat [of "unat (?n - ?f)" u "?b + ?f"] unat_lt32
      by (auto simp: word_less_nat_alt less_imp_le)
  qed
  have v2: "\<forall>u \<in> U. uview t2 u = uview s u" using t2(2) t1(3) out(1) by (simp add: mem_copy_def)
  have v3: "\<forall>u \<in> U. uview t3 u = uview s u" using t3(2) v2 out(2) by (simp add: mem_fill_def)
  have loaded: "seg_loaded m elf (uview t3) i" unfolding seg_loaded_def
  proof (intro allI impI)
    fix k assume k: "k < unat ?n"
    let ?u = "?b + of_nat k"
    have kk: "unat (of_nat k :: u32) = k" using k unat_lt32 [of ?n] by (simp add: unat_of_nat)
    have u: "?u \<in> ?V" using cover addrs_mem [OF k] by blast
    show "uview t3 ?u = (if k < unat ?f then m (?src + of_nat k) else 0)"
    proof (cases "k < unat ?f")
      case True
      then have "of_nat k < ?f" by (simp add: word_less_nat_alt kk)
      moreover have "\<not> of_nat k - ?f < ?n - ?f"
      proof -
        have "unat ?f + unat (of_nat k - ?f) = 2 ^ 32 + k" using True kk unat_lt32 [of ?f]
          by (simp add: unat_sub_if_size word_size)
        then show ?thesis using unat_lt32 [of ?n] by (simp add: word_less_nat_alt nf)
      qed
      moreover have "?src + of_nat k \<in> U" "?src + of_nat k \<in> J" using ok(3,5) addrs_mem [OF True] by blast+
      ultimately show ?thesis using t3(2) t2(2) u True t1(3) img(1) by (simp add: mem_fill_def mem_copy_def)
    next
      case False
      then have "unat (of_nat k - ?f) = k - unat ?f" by (simp add: unat_sub word_le_nat_alt kk)
      then have "of_nat k - ?f < ?n - ?f" using False k by (simp add: word_less_nat_alt nf)
      then show ?thesis using t3(2) u False by (simp add: mem_fill_def)
    qed
  qed
  have run: "phdr_get elf i x t = Done (?p x) t" if "owned t W" "\<forall>u \<in> U. uview t u = uview s u" "U \<subseteq> W" for x t W
    using that img by (intro phdr_get_run [OF that(1) _ _ hdrs]) auto
  note runs = run [OF t1(1,3) Un_upper1] run [OF own2 v2 Un_upper1] run [OF own _ order_refl]
  have "elf_load_segment elf i brk s = Done (max brk (seg_lim m elf i)) t3"
    unfolding elf_load_segment_def using load a c f runs by (auto simp: max_def Let_def seg_lim_def)
  moreover have "owned t3 ?V" "same_rest s t3" "frames_left (2 * r) t3" "\<forall>u. small_pages s u \<longrightarrow> small_pages t3 u"
    using t1 t2(1) t3(1) same_rest_trans unfolding um.still_def by blast+
  ultimately show ?thesis using v3 loaded by (simp add: runs_def)
qed

lemma seg_loaded_cong:
  assumes "\<forall>u \<in> V. m2 u = m1 u" "seg_area m elf i \<subseteq> V" "unat (ph m elf i p_vaddr) + unat (ph m elf i p_memsz) \<le> 0xFFFFE000"
  shows "seg_loaded m elf m1 i \<Longrightarrow> seg_loaded m elf m2 i"
proof -
  have "m2 (ph m elf i p_vaddr + of_nat k) = m1 (ph m elf i p_vaddr + of_nat k)" if "k < unat (ph m elf i p_memsz)" for k
    using seg_covers [OF assms(3)] addrs_mem [OF that] assms(1,2) unfolding seg_area_def seg_list_def by blast
  then show "seg_loaded m elf m1 i \<Longrightarrow> seg_loaded m elf m2 i" by (simp add: seg_loaded_def)
qed

lemma load_loop_runs:
  assumes "owned s U" "\<forall>u \<in> J. uview s u = m u" "J \<subseteq> U" "addrs (phdr elf) (32 * n) \<subseteq> J" "set js \<subseteq> {..<n}" "distinct js"
    and "\<forall>i \<in> set js. ph m elf i p_type = PT_LOAD \<longrightarrow> seg_ok m elf J i \<and> seg_area m elf i \<inter> U = {} \<and> (\<forall>p \<in> set (seg_list m elf i). small_pages s p)"
    and "\<forall>i \<in> set js. \<forall>j \<in> set js. ph m elf i p_type = PT_LOAD \<and> ph m elf j p_type = PT_LOAD \<and> i \<noteq> j \<longrightarrow>
           seg_area m elf i \<inter> seg_area m elf j = {}"
    and "frames_left (2 * (\<Sum>i \<leftarrow> filter (\<lambda>i. ph m elf i p_type = PT_LOAD) js. length (seg_list m elf i))) s"
  shows "runs (elf_load_loop elf js brk) s (\<lambda>b t.
     b = fold (\<lambda>i b. max b (seg_lim m elf i)) (filter (\<lambda>i. ph m elf i p_type = PT_LOAD) js) brk
     \<and> same_rest s t \<and> (\<forall>u \<in> U. uview t u = uview s u) \<and> (\<forall>i \<in> set js. ph m elf i p_type = PT_LOAD \<longrightarrow> seg_loaded m elf (uview t) i))"
  using assms
proof (induction js arbitrary: s U brk)
  case Nil
  then show ?case by (simp add: runs_def same_rest_def)
next
  case (Cons i js)
  have i: "i < n" using Cons.prems(5) by simp
  have js: "set js \<subseteq> {..<n}" "distinct js" "i \<notin> set js" using Cons.prems(5,6) by auto
  show ?case
  proof (cases "ph m elf i p_type = PT_LOAD")
    case False
    then have "elf_load_segment elf i brk s = Done brk s"
      using phdr_get_run [OF Cons.prems(1-4) i] by (simp add: elf_load_segment_def)
    moreover note Cons.IH [OF Cons.prems(1-4) js(1,2), of brk]
    ultimately show ?thesis using False Cons.prems(7-9) by (simp add: runs_def)
  next
    case True
    let ?A = "seg_area m elf i" and ?r = "\<Sum>i \<leftarrow> filter (\<lambda>i. ph m elf i p_type = PT_LOAD) js. length (seg_list m elf i)"
    have ok: "seg_ok m elf J i" "?A \<inter> U = {}" "\<forall>p \<in> set (seg_list m elf i). small_pages s p"
      and "frames_left (2 * (length (seg_list m elf i) + ?r)) s" using Cons.prems(7,9) True by simp_all
    then obtain t where t: "elf_load_segment elf i brk s = Done (max brk (seg_lim m elf i)) t" "owned t (U \<union> ?A)" "same_rest s t"
      "\<forall>u \<in> U. uview t u = uview s u" "seg_loaded m elf (uview t) i" "frames_left (2 * ?r) t" "\<forall>u. small_pages s u \<longrightarrow> small_pages t u"
      using load_segment_runs [OF Cons.prems(1-4) i ok(1,2) True ok(3), of ?r brk] by (auto simp: runs_def)
    have "runs (elf_load_loop elf js (max brk (seg_lim m elf i))) t (\<lambda>b w.
       b = fold (\<lambda>i b. max b (seg_lim m elf i)) (filter (\<lambda>i. ph m elf i p_type = PT_LOAD) js) (max brk (seg_lim m elf i))
       \<and> same_rest t w \<and> (\<forall>u \<in> U \<union> ?A. uview w u = uview t u) \<and> (\<forall>i \<in> set js. ph m elf i p_type = PT_LOAD \<longrightarrow> seg_loaded m elf (uview w) i))"
    proof (rule Cons.IH [OF t(2) _ _ Cons.prems(4) js(1,2) _ _ t(6)])
      show "\<forall>u \<in> J. uview t u = m u" "J \<subseteq> U \<union> ?A" using t(4) Cons.prems(2,3) by auto
      show "\<forall>i \<in> set js. \<forall>j \<in> set js. ph m elf i p_type = PT_LOAD \<and> ph m elf j p_type = PT_LOAD \<and> i \<noteq> j \<longrightarrow>
           seg_area m elf i \<inter> seg_area m elf j = {}" using Cons.prems(8) by simp
      have "seg_area m elf j \<inter> ?A = {}" if "j \<in> set js" "ph m elf j p_type = PT_LOAD" for j
        using Cons.prems(8) True that js(3) by (auto simp: Int_commute)
      then show "\<forall>j \<in> set js. ph m elf j p_type = PT_LOAD \<longrightarrow> seg_ok m elf J j \<and> seg_area m elf j \<inter> (U \<union> ?A) = {}
          \<and> (\<forall>p \<in> set (seg_list m elf j). small_pages t p)"
        using Cons.prems(7) t(7) by (simp add: Int_Un_distrib)
    qed
    then obtain w where w: "elf_load_loop elf js (max brk (seg_lim m elf i)) t = Done (fold (\<lambda>i b. max b (seg_lim m elf i))
         (filter (\<lambda>i. ph m elf i p_type = PT_LOAD) js) (max brk (seg_lim m elf i))) w" "same_rest t w" "\<forall>u \<in> U \<union> ?A. uview w u = uview t u"
       "\<forall>i \<in> set js. ph m elf i p_type = PT_LOAD \<longrightarrow> seg_loaded m elf (uview w) i" unfolding runs_def by blast
    moreover have "seg_loaded m elf (uview w) i"
      by (rule seg_loaded_cong [OF w(3) Un_upper2 _ t(5)]) (use ok(1) in \<open>simp add: seg_ok_def\<close>)
    moreover have "same_rest s w" using same_rest_trans [OF t(3) w(2)] .
    ultimately show ?thesis using t(1,4) True by (auto simp: runs_def)
  qed
qed

text \<open>C5: loading a program puts it where its headers say. For an image in memory that the task owns, whose loadable
  segments lie below the top of the address space, on pages of their own and away from the image, and with enough free frames,
  \<^verbatim>\<open>elf_load\<close> returns; every loadable segment's memory then holds its bytes of the file followed by
  zeros, the image and everything else the task owned is unchanged, and the task's break is the highest end of a segment.\<close>

theorem elf_load_places_segments:
  fixes s :: "'a mmu_scheme"
  assumes "owned s U" "addrs (phdr elf) (32 * nat (num_segments elf)) \<subseteq> U"
    and "\<forall>i \<in> set (load_segs (uview s) elf). seg_ok (uview s) elf U i \<and> seg_area (uview s) elf i \<inter> U = {}
          \<and> (\<forall>p \<in> set (seg_list (uview s) elf i). small_pages s p)"
    and "\<forall>i \<in> set (load_segs (uview s) elf). \<forall>j \<in> set (load_segs (uview s) elf). i \<noteq> j \<longrightarrow>
          seg_area (uview s) elf i \<inter> seg_area (uview s) elf j = {}"
    and "frames_left (2 * (\<Sum>i \<leftarrow> load_segs (uview s) elf. length (seg_list (uview s) elf i))) s"
  shows "runs (elf_load elf) s (\<lambda>_ t. (\<forall>i \<in> set (load_segs (uview s) elf). seg_loaded (uview s) elf (uview t) i)
     \<and> (\<forall>u \<in> U. uview t u = uview s u)
     \<and> t_brk (cur t) = fold (\<lambda>i b. max b (seg_lim (uview s) elf i)) (load_segs (uview s) elf) 0)"
proof -
  let ?n = "nat (num_segments elf)"
  have "runs (elf_load_loop elf [0..<?n] 0) s (\<lambda>b t. b = fold (\<lambda>i b. max b (seg_lim (uview s) elf i)) (load_segs (uview s) elf) 0
     \<and> same_rest s t \<and> (\<forall>u \<in> U. uview t u = uview s u)
     \<and> (\<forall>i \<in> set [0..<?n]. ph (uview s) elf i p_type = PT_LOAD \<longrightarrow> seg_loaded (uview s) elf (uview t) i))"
    unfolding load_segs_def
    by (rule load_loop_runs [OF assms(1) _ order_refl assms(2)]) (use assms(3-5) in \<open>auto simp: load_segs_def\<close>)
  moreover have "uview (upd_task a f t) = uview t" for a f and t :: "'a mmu_scheme"
    by (rule ext) (simp add: uview_def upd_task_def split: option.split)
  ultimately show ?thesis
    by (auto simp: runs_def elf_load_def load_segs_def upd_task_def)
qed

subsection \<open>A small program\<close>

definition demo_elf :: elf where
  "demo_elf = \<lparr>elf_data = 0x400000, elf_length = 34, header = 0x400000, shdr = 0, phdr = 0x400000, symtab = 0,
     num_segments = 1, num_sections = 0, num_symbols = 0, sec_strtab = 0, sec_shstrtab = 0\<rparr>"

lemma demo_elf_simps [simp]: "phdr demo_elf = 0x400000" "num_segments demo_elf = 1" "elf_data demo_elf = 0x400000"
  by (simp_all add: demo_elf_def)

text \<open>One program header, a segment of four bytes at 0x8000, and the two bytes of it that are in the file.\<close>

definition demo_image :: "(u32 \<times> u8) list" where
  "demo_image = zip (map (\<lambda>k. 0x400000 + of_nat k) [0..<34])
     [1,0,0,0, 0x20,0,0,0, 0,0x80,0,0, 0,0,0,0, 2,0,0,0, 4,0,0,0, 6,0,0,0, 0,0,0,0, 0xAB,0xCD]"

lemma demo_user_owned: "owned (demo_mmu\<lparr>cr3 := 0x300000\<rparr>) {}"
  using demo_mmu_wf(1) by (simp add: owned_def vm_wf_def frames_wf_def spare_def frame_capacity_def)

lemma demo_page_state:
  assumes "fst ` set ws \<subseteq> page_addrs 0x400000"
  shows "\<exists>(s :: mmu) m. owned s (page_addrs 0x400000) \<and> frames_left 10 s \<and> (\<forall>u. small_pages s u)
     \<and> (\<forall>u \<in> page_addrs 0x400000. uview s u = fold (\<lambda>(a, b) m. m(a := b)) ws m u)"
proof -
  let ?s = "demo_mmu\<lparr>cr3 := 0x300000\<rparr>" and ?U = "page_addrs 0x400000"
  have "frames_left (2 * Suc 5) ?s" "\<forall>u. small_pages ?s u"
    using demo_frames_left [of 12] by (simp_all add: frames_left_def frame_capacity_def small_pages_def)
  then have "runs (pg_alloc 0x400000) ?s (\<lambda>_ t. owned t ({} \<union> ?U) \<and> same_rest ?s t \<and> (\<forall>u \<in> {}. uview t u = uview ?s u)
     \<and> frames_left (2 * 5) t \<and> (\<forall>u. small_pages ?s u \<longrightarrow> small_pages t u))"
    by (intro um.alloc_law [OF demo_user_owned]) simp_all
  then obtain t :: mmu where t: "owned t ?U" "frames_left (2 * 5) t" "\<forall>u. small_pages t u"
    using \<open>\<forall>u. small_pages ?s u\<close> unfolding runs_def by auto
  from um.puts_runs [OF t(1) assms] obtain w where w: "um.still t w ?U"
    "\<forall>u \<in> ?U. uview w u = fold (\<lambda>(a, b) m. m(a := b)) ws (uview t) u" unfolding runs_def by blast
  have "frames_left (2 * 5) w" "\<forall>u. small_pages w u" "owned w ?U" using w(1) t(2,3) unfolding um.still_def by blast+
  with w(2) show ?thesis by auto
qed

lemma demo_headers:
  assumes "\<forall>u \<in> page_addrs 0x400000. m u = fold (\<lambda>(a, b) m. m(a := b)) demo_image m' u"
  shows "ph m demo_elf 0 p_type = 1" "ph m demo_elf 0 p_offset = 0x20" "ph m demo_elf 0 p_vaddr = 0x8000"
    "ph m demo_elf 0 p_filesz = 2" "ph m demo_elf 0 p_memsz = 4" "m 0x400020 = 0xAB" "m 0x400021 = 0xCD"
proof -
  have pg: "u \<in> page_addrs 0x400000 \<longleftrightarrow> unat u div 4096 = 1024" for u by (simp add: page_addrs_def page_of_def)
  have img: "fold (\<lambda>(a, b) m. m(a := b)) demo_image m' = m'(0x400000 := 1, 0x400001 := 0, 0x400002 := 0, 0x400003 := 0,
     0x400004 := 0x20, 0x400005 := 0, 0x400006 := 0, 0x400007 := 0, 0x400008 := 0, 0x400009 := 0x80, 0x40000A := 0, 0x40000B := 0,
     0x40000C := 0, 0x40000D := 0, 0x40000E := 0, 0x40000F := 0, 0x400010 := 2, 0x400011 := 0, 0x400012 := 0, 0x400013 := 0,
     0x400014 := 4, 0x400015 := 0, 0x400016 := 0, 0x400017 := 0, 0x400018 := 6, 0x400019 := 0, 0x40001A := 0, 0x40001B := 0,
     0x40001C := 0, 0x40001D := 0, 0x40001E := 0, 0x40001F := 0, 0x400020 := 0xAB, 0x400021 := 0xCD)"
    by (simp add: demo_image_def upt_rec)
  have at: "m u = fold (\<lambda>(a, b) m. m(a := b)) demo_image m' u" if "unat u div 4096 = 1024" for u
    using assms pg that by blast
  note at = at [unfolded img]
  show "ph m demo_elf 0 p_type = 1" "ph m demo_elf 0 p_offset = 0x20" "ph m demo_elf 0 p_vaddr = 0x8000"
    "ph m demo_elf 0 p_filesz = 2" "ph m demo_elf 0 p_memsz = 4" "m 0x400020 = 0xAB" "m 0x400021 = 0xCD"
    by (simp_all add: ph_def demo_elf_def get32_def at)
qed

lemma demo_page_addrs: "k + n \<le> 4096 \<Longrightarrow> addrs (0x400000 + of_nat k) n \<subseteq> page_addrs 0x400000"
  by (auto simp: addrs_def page_addrs_def page_of_def unat_word_ariths unat_of_nat)

theorem elf_load_places_segments_witness:
  "\<exists>s :: mmu. runs (elf_load demo_elf) s (\<lambda>_ t. uview t 0x8001 = 0xCD \<and> uview t 0x8002 = 0 \<and> t_brk (cur t) = 0x8004)"
proof -
  obtain s :: mmu and m where s: "owned s (page_addrs 0x400000)" "frames_left 10 s" "\<forall>u. small_pages s u"
    "\<forall>u \<in> page_addrs 0x400000. uview s u = fold (\<lambda>(a, b) m. m(a := b)) demo_image m u"
    using demo_page_state [of demo_image] by (auto simp: demo_image_def upt_rec page_addrs_def page_of_def)
  note h = demo_headers [OF s(4)]
  have segs: "load_segs (uview s) demo_elf = [0]" using h(1) by (simp add: load_segs_def demo_elf_def PT_LOAD_def)
  have list: "seg_list (uview s) demo_elf 0 = [0x8000, 0x9000]"
    using h by (simp add: seg_list_def page_list_def page_count_def PAGE_SIZE_def upt_rec)
  have area: "seg_area (uview s) demo_elf 0 \<inter> page_addrs 0x400000 = {}" by (auto simp: seg_area_def list page_addrs_def page_of_def)
  note sub = demo_page_addrs
  have ok: "seg_ok (uview s) demo_elf (page_addrs 0x400000) 0"
    using h sub [of 32 2] by (simp add: seg_ok_def)
  have "runs (elf_load demo_elf) s (\<lambda>_ t. (\<forall>i \<in> set (load_segs (uview s) demo_elf). seg_loaded (uview s) demo_elf (uview t) i)
     \<and> (\<forall>u \<in> page_addrs 0x400000. uview t u = uview s u)
     \<and> t_brk (cur t) = fold (\<lambda>i b. max b (seg_lim (uview s) demo_elf i)) (load_segs (uview s) demo_elf) 0)"
    by (rule elf_load_places_segments [OF s(1)]) (use s(2,3) segs list area ok sub [of 0 32] in \<open>simp_all add: frames_left_def\<close>)
  then have "runs (elf_load demo_elf) s (\<lambda>_ t. uview t 0x8001 = 0xCD \<and> uview t 0x8002 = 0 \<and> t_brk (cur t) = 0x8004)"
  proof (rule runs_weaken)
    fix t
    assume t: "(\<forall>i \<in> set (load_segs (uview s) demo_elf). seg_loaded (uview s) demo_elf (uview t) i)
     \<and> (\<forall>u \<in> page_addrs 0x400000. uview t u = uview s u)
     \<and> t_brk (cur t) = fold (\<lambda>i b. max b (seg_lim (uview s) demo_elf i)) (load_segs (uview s) demo_elf) 0"
    then have "uview t (0x8000 + of_nat k) = (if k < 2 then uview s (0x400020 + of_nat k) else 0)" if "k < 4" for k
      using that segs h by (simp add: seg_loaded_def)
    from this [of 1] this [of 2] show "uview t 0x8001 = 0xCD \<and> uview t 0x8002 = 0 \<and> t_brk (cur t) = 0x8004"
      using t h segs by (simp add: seg_lim_def)
  qed
  then show ?thesis by blast
qed

text \<open>\<^verbatim>\<open>pg_alloc\<close> does not look whether a page is mapped: a segment that shares a page with one loaded before it takes
  the page away from it.\<close>

lemma alloc_replaces_page:
  assumes "owned s U" "u \<in> U" "frames_left 2 s" "small_pages s u"
  shows "runs (pg_alloc u) s (\<lambda>_ t. translate (mem t) (cr3 s) u \<noteq> translate (mem s) (cr3 s) u)"
proof -
  have pgd: "vm_wf s (t_pgd (cur s))" "t_pgd (cur s) = cr3 s" using assms(1) by (simp_all add: owned_def)
  obtain p where p: "translate (mem s) (cr3 s) u = Some p" "\<not> spare s p" using assms(1,2) by (auto simp: owned_def)
  have "dir_entry (mem s) (t_pgd (cur s)) u AND PAGE_EXTENDED = 0" using assms(4) pgd(2) by (simp add: small_pages_def)
  from pg_alloc_remaps [OF pgd(1) assms(3) this] show ?thesis
  proof (rule runs_weaken)
    fix t assume "\<exists>f. backed s t (t_pgd (cur s)) u f"
    then obtain f where f: "page_aligned f" "spare s f" "translate (mem t) (cr3 s) u = Some (f + (u AND 0xFFF))"
      using pgd(2) by (auto simp: backed_def)
    then have "spare s (f + (u AND 0xFFF))" using offset_in_frame(2) [OF f(1)] by (simp add: spare_def)
    with p f(3) show "translate (mem t) (cr3 s) u \<noteq> translate (mem s) (cr3 s) u" by auto
  qed
qed

subsection \<open>What the new program finds on its stack\<close>

lemma word_addrs: "i < n \<Longrightarrow> addrs (a + 4 * of_nat i) 4 \<subseteq> addrs a (4 * n)"
  using addrs_shift [of "4 * i" 4 "4 * n" a] by simp

lemma offsets_eq: "x < 2 ^ 32 \<Longrightarrow> y < 2 ^ 32 \<Longrightarrow> a + of_nat x = a + of_nat y \<longleftrightarrow> x = y" for a :: u32
proof -
  assume *: "x < 2 ^ 32" "y < 2 ^ 32"
  then have "unat (of_nat x :: u32) = x" "unat (of_nat y :: u32) = y" by (simp_all add: unat_of_nat)
  then show ?thesis by (metis add_left_cancel)
qed

lemma words_disjoint:
  assumes "j \<noteq> k" "4 * j + 4 \<le> 2 ^ 32" "4 * k + 4 \<le> 2 ^ 32"
  shows "addrs (a + 4 * of_nat j) 4 \<inter> addrs (a + 4 * of_nat k) 4 = {}"
proof -
  have "a + of_nat (4 * j + c) \<noteq> a + of_nat (4 * k + d)" if "c < 4" "d < 4" for c d
    using assms that by (subst offsets_eq) presburger+
  then show ?thesis by (fastforce simp: addrs_def add.assoc)
qed

lemma set32_outside: "u \<notin> addrs a 4 \<Longrightarrow> set32 m a v u = m u"
  by (rule set32_other) (auto simp: addrs4)

lemma get32_set32_disjoint: "addrs a 4 \<inter> addrs b 4 = {} \<Longrightarrow> get32 (set32 m b v) a = get32 m a"
  by (rule uview_cong32 [of "addrs a 4"]) (auto intro: set32_outside)

text \<open>A null-terminated vector of pointers.\<close>

definition arg_vec :: "bytes \<Rightarrow> vaddr_t \<Rightarrow> u32 list \<Rightarrow> bool" where
  "arg_vec m arr vs \<longleftrightarrow> 0 \<notin> set vs \<and> (\<forall>i < length vs. get32 m (arr + 4 * of_nat i) = vs ! i) \<and> get32 m (arr + 4 * of_nat (length vs)) = 0"

lemma arg_count_run:
  assumes "owned s U" "arg_vec (uview s) arr vs" "addrs arr (4 * (length vs + 1)) \<subseteq> U" "k \<le> length vs"
  shows "arg_count arr k s = Done (length vs) s"
  using assms(4)
proof (induction "length vs - k" arbitrary: k)
  case 0
  then have k: "k = length vs" by simp
  have "virt_get32 (arr + 4 * of_nat k) s = Done 0 s"
    using virt_struct_run [OF assms(1), of "arr + 4 * of_nat k" 4 get32] word_addrs [of k "length vs + 1" arr] assms(2,3) k
    by (auto simp: arg_vec_def)
  then show ?case by (subst arg_count.simps) (simp add: k)
next
  case (Suc d)
  then have k: "k < length vs" by simp
  have "virt_get32 (arr + 4 * of_nat k) s = Done (vs ! k) s"
    using virt_struct_run [OF assms(1), of "arr + 4 * of_nat k" 4 get32] word_addrs [of k "length vs + 1" arr] assms(2,3) k
    by (auto simp: arg_vec_def)
  moreover have "vs ! k \<noteq> 0" using assms(2) k nth_mem by (fastforce simp: arg_vec_def)
  moreover have "arg_count arr (Suc k) s = Done (length vs) s" using Suc by simp
  ultimately show ?case by (simp add: arg_count.simps [of arr k s])
qed

text \<open>\<open>block_holds s U a ws k t\<close>: since \<open>s\<close>, the first \<open>k\<close> words of the block at \<open>a\<close> have become those of \<open>ws\<close>, and
  nothing outside the block has changed.\<close>

definition block_holds :: "'a mmu_scheme \<Rightarrow> vaddr_t set \<Rightarrow> vaddr_t \<Rightarrow> u32 list \<Rightarrow> nat \<Rightarrow> 'a mmu_scheme \<Rightarrow> bool" where
  "block_holds s U a ws k t \<longleftrightarrow> um.still s t U \<and> (\<forall>u \<in> U - addrs a (4 * length ws). uview t u = uview s u)
     \<and> (\<forall>j < k. get32 (uview t) (a + 4 * of_nat j) = ws ! j)"

lemma block_put:
  assumes "block_holds s U a ws k t" "k < length ws" "addrs a (4 * length ws) \<subseteq> U" "4 * length ws \<le> 2 ^ 32"
  shows "runs (virt_put32 (a + 4 * of_nat k) (ws ! k)) t (\<lambda>_. block_holds s U a ws (Suc k))"
proof -
  have own: "owned t U" "um.still s t U" using assms(1) by (simp_all add: block_holds_def um.still_def)
  have sub: "addrs (a + 4 * of_nat j) 4 \<subseteq> U" if "j < length ws" for j using word_addrs [OF that] assms(3) by blast
  show ?thesis
  proof (rule runs_weaken [OF virt_put32_runs [OF own(1) sub [OF assms(2)]]])
    fix w assume w: "um.still t w U \<and> (\<forall>u \<in> U. uview w u = set32 (uview t) (a + 4 * of_nat k) (ws ! k) u)"
    have "get32 (uview w) (a + 4 * of_nat j) = ws ! j" if j: "j < Suc k" for j
    proof -
      have "get32 (uview w) (a + 4 * of_nat j) = get32 (set32 (uview t) (a + 4 * of_nat k) (ws ! k)) (a + 4 * of_nat j)"
        using w sub [of j] j assms(2) by (intro uview_cong32) auto
      then show ?thesis using assms(1,2,4) j words_disjoint [of j k a]
        by (cases "j = k") (auto simp: get32_set32_disjoint block_holds_def)
    qed
    moreover have "uview w u = uview s u" if u: "u \<in> U - addrs a (4 * length ws)" for u
    proof -
      have "u \<notin> addrs (a + 4 * of_nat k) 4" using u word_addrs [OF assms(2), of a] by blast
      then show ?thesis using w u assms(1) by (simp add: set32_outside block_holds_def)
    qed
    ultimately show "block_holds s U a ws (Suc k) w" using w own(2) um.still_trans unfolding block_holds_def by blast
  qed
qed

lemma block_args:
  assumes "block_holds s U a ws k t" "k + length vs \<le> length ws" "addrs a (4 * length ws) \<subseteq> U" "4 * length ws \<le> 2 ^ 32"
    and "arg_vec (uview s) arr vs" "addrs arr (4 * (length vs + 1)) \<subseteq> U - addrs a (4 * length ws)"
    and "\<forall>j < length vs. ws ! (k + j) = vs ! (length vs - 1 - j)"
  shows "runs (args_to_stack a k arr (length vs)) t (\<lambda>_. block_holds s U a ws (k + length vs))"
  unfolding args_to_stack_def
proof (rule runs_weaken [OF runs_kfor_upt [where I = "\<lambda>j. block_holds s U a ws (k + j)"]])
  show "block_holds s U a ws (k + 0) t" using assms(1) by simp
  fix j w assume j: "j < length vs" and w: "block_holds s U a ws (k + j) w"
  define i where "i = length vs - 1 - j"
  have i: "i < length vs" "ws ! (k + j) = vs ! i" using j assms(7) by (simp_all add: i_def)
  have sub: "addrs (arr + 4 * of_nat i) 4 \<subseteq> U - addrs a (4 * length ws)"
    by (rule order_trans [OF word_addrs assms(6)]) (use i(1) in simp)
  have "get32 (uview w) (arr + 4 * of_nat i) = get32 (uview s) (arr + 4 * of_nat i)"
    using w sub unfolding block_holds_def by (intro uview_cong32 [of "U - addrs a (4 * length ws)"]) auto
  then have "get32 (uview w) (arr + 4 * of_nat i) = ws ! (k + j)" using assms(5) i by (simp add: arg_vec_def)
  moreover have "virt_get32 (arr + 4 * of_nat i) w = Done (get32 (uview w) (arr + 4 * of_nat i)) w"
    using w sub by (intro virt_struct_run [of w U]) (auto simp: block_holds_def um.still_def)
  ultimately show "runs (kbind (virt_get32 (arr + 4 * of_nat (length vs - 1 - j))) (virt_put32 (a + 4 * of_nat (k + j)))) w
      (\<lambda>_. block_holds s U a ws (k + Suc j))"
    unfolding i_def [symmetric] using block_put [OF w _ assms(3,4)] assms(2) j by (simp add: runs_def del: of_nat_add)
qed simp

lemma owned_esp [simp]: "owned (t\<lparr>esp := e\<rparr>) U = owned t U" "uview (t\<lparr>esp := e\<rparr>) = uview t"
    "owned (t\<lparr>iflag := b\<rparr>) U = owned t U" "uview (t\<lparr>iflag := b\<rparr>) = uview t"
  by (simp_all add: owned_def vm_wf_def frames_wf_def spare_def frame_capacity_def uview_def fun_eq_iff split: option.split)

lemma same_rest_esp: "same_rest s t \<Longrightarrow> esp t = esp s"
proof -
  assume "same_rest s t"
  then have eq: "t = s\<lparr>FrameBitmap := FrameBitmap t, mem := mem t\<rparr>" by (simp add: same_rest_def)
  show "esp t = esp s" by (subst eq) simp
qed

text \<open>Pushing the words of a block one after the other leaves them in reverse order at the top of the stack.\<close>

definition pushed :: "'a mmu_scheme \<Rightarrow> vaddr_t set \<Rightarrow> u32 list \<Rightarrow> nat \<Rightarrow> 'a mmu_scheme \<Rightarrow> bool" where
  "pushed s U ws k t \<longleftrightarrow> owned t U \<and> esp t = esp s - 4 * of_nat k
     \<and> (\<forall>u \<in> U - addrs (esp s - 4 * of_nat (length ws)) (4 * length ws). uview t u = uview s u)
     \<and> (\<forall>j < k. get32 (uview t) (esp s - 4 * of_nat (length ws) + 4 * of_nat (length ws - 1 - j)) = ws ! j)"

lemma push_block:
  assumes "owned s U" "addrs (esp s - 4 * of_nat (length ws)) (4 * length ws) \<subseteq> U" "4 * length ws \<le> 2 ^ 32"
    and "\<forall>j < length ws. get32 (uview s) (a + 4 * of_nat j) = ws ! j"
    and "addrs a (4 * length ws) \<subseteq> U - addrs (esp s - 4 * of_nat (length ws)) (4 * length ws)"
  shows "runs (kfor [0..<length ws] (\<lambda>j. kbind (virt_get32 (a + 4 * of_nat j)) push32)) s (\<lambda>_. pushed s U ws (length ws))"
proof (rule runs_kfor_upt)
  let ?top = "esp s - 4 * of_nat (length ws)"
  show "pushed s U ws 0 s" using assms(1) by (simp add: pushed_def)
  fix j t assume j: "j < length ws" and t: "pushed s U ws j t"
  define i where "i = length ws - 1 - j"
  have i: "i < length ws" "length ws = i + 1 + j" using j by (simp_all add: i_def)
  have own: "owned t U" using t by (simp add: pushed_def)
  have at: "esp t - 4 = ?top + 4 * of_nat i" using t by (simp add: pushed_def i(2) algebra_simps)
  have src: "addrs (a + 4 * of_nat j) 4 \<subseteq> U - addrs ?top (4 * length ws)" by (rule order_trans [OF word_addrs [OF j] assms(5)])
  have "get32 (uview t) (a + 4 * of_nat j) = get32 (uview s) (a + 4 * of_nat j)"
    using t src unfolding pushed_def by (intro uview_cong32 [of "U - addrs ?top (4 * length ws)"]) auto
  then have get: "virt_get32 (a + 4 * of_nat j) t = Done (ws ! j) t"
    using virt_struct_run [OF own, of "a + 4 * of_nat j" 4 get32] src assms(4) j by auto
  have sub: "addrs (?top + 4 * of_nat n) 4 \<subseteq> U" if "n < length ws" for n using word_addrs [OF that] assms(2) by blast
  from virt_put32_runs [OF own sub [OF i(1)], of "ws ! j"] obtain w where w: "virt_put32 (?top + 4 * of_nat i) (ws ! j) t = Done () w"
    "um.still t w U" "\<forall>u \<in> U. uview w u = set32 (uview t) (?top + 4 * of_nat i) (ws ! j) u" by (auto simp: runs_def)
  have "get32 (uview w) (?top + 4 * of_nat (length ws - 1 - n)) = ws ! n" if n: "n < Suc j" for n
  proof -
    define q where "q = length ws - 1 - n"
    have q: "q < length ws" "q = i \<longleftrightarrow> n = j" using n j by (auto simp: q_def i_def)
    have "get32 (uview w) (?top + 4 * of_nat q) = get32 (set32 (uview t) (?top + 4 * of_nat i) (ws ! j)) (?top + 4 * of_nat q)"
      using w(3) sub [OF q(1)] by (intro uview_cong32) auto
    also have "\<dots> = (if q = i then ws ! j else get32 (uview t) (?top + 4 * of_nat q))"
      using words_disjoint [of q i ?top] q(1) i(1) assms(3) by (simp add: get32_set32_disjoint)
    finally show ?thesis using q t n by (auto simp: pushed_def q_def less_Suc_eq)
  qed
  moreover have "uview w u = uview s u" if u: "u \<in> U - addrs ?top (4 * length ws)" for u
  proof -
    have "u \<notin> addrs (?top + 4 * of_nat i) 4" using u word_addrs [OF i(1), of ?top] by blast
    then show ?thesis using w(3) u t by (simp add: set32_outside pushed_def)
  qed
  moreover have "owned w U" using w(2) by (simp add: um.still_def)
  moreover have "?top + 4 * of_nat i = esp s - 4 * of_nat (Suc j)" by (simp add: i(2) algebra_simps)
  ultimately have "pushed s U ws (Suc j) (w\<lparr>esp := ?top + 4 * of_nat i\<rparr>)" unfolding pushed_def by simp
  then show "runs (kbind (virt_get32 (a + 4 * of_nat j)) push32) t (\<lambda>_. pushed s U ws (Suc j))"
    using get w(1) at by (simp add: runs_def push32_def)
qed

lemma runs_seq: "runs m s (\<lambda>_. P) \<Longrightarrow> (\<And>t. P t \<Longrightarrow> runs n t Q) \<Longrightarrow> runs (kthen m n) s Q"
  by (rule runs_kthen) (erule runs_weaken)

lemma kseq_append: "kseq (xs @ ys) = kthen (kseq xs) (kseq ys)"
  by (induction xs) (auto simp: kthen_assoc kthen_kret simp del: kret_run)

definition exec_words :: "u32 list \<Rightarrow> u32 list \<Rightarrow> u32 list" where
  "exec_words es vs = 0 # rev es @ 0 # rev vs @ [of_nat (length vs)]"

lemma exec_words_len: "length (exec_words es vs) = length es + length vs + 3"
  and rev_exec_words: "rev (exec_words es vs) = of_nat (length vs) # vs @ 0 # es @ [0]"
  by (simp_all add: exec_words_def)

lemma exec_words_nth:
  "exec_words es vs ! 0 = 0" "j < length es \<Longrightarrow> exec_words es vs ! (1 + j) = es ! (length es - 1 - j)"
  "exec_words es vs ! (1 + length es) = 0" "j < length vs \<Longrightarrow> exec_words es vs ! (2 + length es + j) = vs ! (length vs - 1 - j)"
  "exec_words es vs ! (2 + length es + length vs) = of_nat (length vs)"
  by (simp_all add: exec_words_def nth_append rev_nth)

lemma fill_block:
  fixes s :: "'a mmu_scheme"
  assumes "owned s U" "addrs a (4 * length (exec_words es vs)) \<subseteq> U" "4 * length (exec_words es vs) \<le> 2 ^ 32"
    and "arg_vec (uview s) envp es" "addrs envp (4 * (length es + 1)) \<subseteq> U - addrs a (4 * length (exec_words es vs))"
    and "arg_vec (uview s) argv vs" "addrs argv (4 * (length vs + 1)) \<subseteq> U - addrs a (4 * length (exec_words es vs))"
  shows "runs (kseq [virt_put32 a NULL, args_to_stack a 1 envp (length es), virt_put32 (a + 4 * of_nat (1 + length es)) NULL,
     args_to_stack a (2 + length es) argv (length vs), virt_put32 (a + 4 * of_nat (2 + length es + length vs)) (of_nat (length vs))]) s
     (\<lambda>_. block_holds s U a (exec_words es vs) (length es + length vs + 3))"
proof -
  let ?ws = "exec_words es vs" and ?e = "length es" and ?v = "length vs"
  note put = block_put [OF _ _ assms(2,3)] and args = block_args [OF _ _ assms(2,3)]
  have b0: "block_holds s U a ?ws 0 s" using assms(1) by (simp add: block_holds_def um.still_refl)
  have s1: "runs (virt_put32 a NULL) s (\<lambda>_. block_holds s U a ?ws 1)"
    using put [OF b0] by (simp add: exec_words_len exec_words_nth(1))
  have s2: "runs (args_to_stack a 1 envp ?e) t (\<lambda>_. block_holds s U a ?ws (1 + ?e))" if "block_holds s U a ?ws 1 t" for t
    by (rule args [OF that _ assms(4,5)]) (use exec_words_nth(2) [of _ es vs] in \<open>auto simp: exec_words_len\<close>)
  have s3: "runs (virt_put32 (a + 4 * of_nat (1 + ?e)) NULL) t (\<lambda>_. block_holds s U a ?ws (2 + ?e))" if "block_holds s U a ?ws (1 + ?e) t" for t
    using put [OF that] exec_words_nth(3) [of es vs] by (simp add: exec_words_len)
  have s4: "runs (args_to_stack a (2 + ?e) argv ?v) t (\<lambda>_. block_holds s U a ?ws (2 + ?e + ?v))" if "block_holds s U a ?ws (2 + ?e) t" for t
    by (rule args [OF that _ assms(6,7)]) (use exec_words_nth(4) [of _ vs es] in \<open>auto simp: exec_words_len\<close>)
  have s5: "runs (virt_put32 (a + 4 * of_nat (2 + ?e + ?v)) (of_nat ?v)) t (\<lambda>_. block_holds s U a ?ws (?e + ?v + 3))"
    if "block_holds s U a ?ws (2 + ?e + ?v) t" for t
    using put [OF that] exec_words_nth(5) [of es vs] by (simp add: exec_words_len eval_nat_numeral)
  show ?thesis unfolding kseq.simps by (intro runs_seq [OF s1] runs_seq [OF s2] runs_seq [OF s3] runs_seq [OF s4] runs_seq [OF s5] runs_kret)
qed


definition demo_args :: "(u32 \<times> u8) list" where
  "demo_args = zip (map (\<lambda>k. 0x400100 + of_nat k) [0..<12]) [0x11,0x22,0,0, 0,0,0,0, 0,0,0,0]"


subsection \<open>Listings and searches\<close>

text \<open>The routines that print an image, as the values they print, line by line. The buffer \<^verbatim>\<open>sym_type\<close> keeps the text of
  the symbol before when a type has no name.\<close>

primrec kmap :: "('i \<Rightarrow> ('s, 'b) kern) \<Rightarrow> 'i list \<Rightarrow> ('s, 'b list) kern" where
  "kmap f [] = kret []"
| "kmap f (i # is) = kbind (f i) (\<lambda>x. kbind (kmap f is) (\<lambda>xs. kret (x # xs)))"

definition elf_print_sections :: "elf \<Rightarrow> ('a machine_scheme, (int \<times> string \<times> u32) list) kern" where
  "elf_print_sections elf = kmap (\<lambda>i. kbind (elf_get_section_name elf i) (\<lambda>sh_name.
     kbind (shdr_get elf i sh_offset) (\<lambda>ofs. kret (i, sh_name, ofs)))) [1..num_sections elf - 1]"

definition elf_print_segments :: "elf \<Rightarrow> ('a machine_scheme, (nat \<times> u32 \<times> u32) list) kern" where
  "elf_print_segments elf = kmap (\<lambda>i. kbind (phdr_get elf i p_vaddr) (\<lambda>vaddr.
     kbind (phdr_get elf i p_memsz) (\<lambda>memsz. kret (i, vaddr, vaddr + memsz)))) [0..<nat (num_segments elf)]"

definition sym_type_text :: "u8 \<Rightarrow> string \<Rightarrow> string" where
  "sym_type_text info old = (let t = info AND 0xF in
     if t = 0 then ''no type'' else if t = 1 then ''object'' else if t = 2 then ''function''
     else if t = 3 then ''section'' else if t = 4 then ''file'' else old)"

primrec print_symbols :: "elf \<Rightarrow> int list \<Rightarrow> string \<Rightarrow> ('a machine_scheme, (int \<times> string \<times> string \<times> u32 \<times> u32) list) kern" where
  "print_symbols elf [] sym_type = kret []"
| "print_symbols elf (i # is) sym_type =
     kbind (elf_get_symbol_name elf i) (\<lambda>sym_name.
     let sym_name = (if sym_name = '''' then ''no name'' else sym_name) in
     kbind (virt_get (sym_ptr elf i + 12)) (\<lambda>st_info.
     let sym_type = sym_type_text st_info sym_type in
     kbind (elf_get_symbol_vaddr elf i) (\<lambda>vaddr.
     kbind (elf_map_vaddr elf vaddr) (\<lambda>r.
     let faddr = (case r of Inl _ \<Rightarrow> 0 | Inr a \<Rightarrow> a) in
     kbind (print_symbols elf is sym_type) (\<lambda>rest. kret ((i, sym_type, sym_name, vaddr, faddr) # rest))))))"

definition elf_print_symbols :: "elf \<Rightarrow> string \<Rightarrow> ('a machine_scheme, (int \<times> string \<times> string \<times> u32 \<times> u32) list) kern" where
  "elf_print_symbols elf sym_type = print_symbols elf [1..num_symbols elf - 1] sym_type"

text \<open>A name is found at the last section that has it, and at the first symbol.\<close>

lemma section_search_last:
  assumes "\<forall>i \<in> set js. elf_get_section_name elf i s = Done (nm i) s"
  shows "section_search elf name js out s =
     Done (if \<exists>i \<in> set js. nm i = name then Some (last (filter (\<lambda>i. nm i = name) js)) else out) s"
  using assms by (induction js arbitrary: out) (auto simp: filter_empty_conv)

lemma symbol_search_first:
  assumes "\<forall>i \<in> set js. elf_get_symbol_name elf i s = Done (nm i) s"
  shows "symbol_search elf name js s =
     Done (case List.find (\<lambda>i. nm i = name) js of None \<Rightarrow> Inl ELF_INVALID_SYMBOL | Some i \<Rightarrow> Inr i) s"
  using assms by (induction js) auto

text \<open>A file with no section named \<^verbatim>\<open>.symtab\<close> is not refused: the index of the section is used uninitialised.\<close>

lemma no_symtab_uninitialised:
  assumes "\<forall>i \<in> set [1..num_sections elf - 1]. elf_get_section_name elf i s = Done (nm i) s \<and> nm i \<noteq> ''.symtab''"
  shows "elf_read_symtab elf s = Halt BadAccess"
proof -
  have "section_search elf ''.symtab'' [1..num_sections elf - 1] None s = Done None s"
    using section_search_last [of "[1..num_sections elf - 1]" elf s nm] assms by simp
  then show ?thesis by (simp add: elf_read_symtab_def elf_get_section_by_name_def)
qed

text \<open>The first address of a segment is reported as unmapped.\<close>

lemma segment_start_unmapped:
  assumes "phdr_get elf i p_vaddr s = Done v s" "phdr_get elf i p_memsz s = Done n s"
  shows "segment_search elf v [i] s = Done (Inl ELF_UNMAPPED) s"
  using assms by simp

text \<open>An image whose first bytes are not the magic number stops the kernel: the reader's error codes never reach a caller.\<close>

lemma bad_magic_panics:
  assumes "owned s U" "elf_data elf \<in> U" "uview s (elf_data elf) \<noteq> 0x7F"
  shows "\<exists>m. elf_read_header elf s = Halt (Panic m)"
  using um.get_law [OF assms(1,2)] assms(3) by (simp add: elf_read_header_def kassert_def Let_def)

end
