(* ===== verification/Syscall.thy ===== *)
theory Syscall
  imports Elf
begin

text \<open>
  System calls: the dispatcher (\<^verbatim>\<open>arch/x86/syscall.c\<close>), the table (\<^verbatim>\<open>kernel/syscall/syscall.c\<close>) and the calls
  themselves (\<^verbatim>\<open>fdio.c\<close>, \<^verbatim>\<open>mem.c\<close>, \<^verbatim>\<open>proc.c\<close>, \<^verbatim>\<open>signal.c\<close>, \<^verbatim>\<open>uname.c\<close>, \<^verbatim>\<open>user.c\<close>). A call returns the
  value of the register \<^verbatim>\<open>eax\<close>; \<open>execve\<close> does not return but jumps into the program, and \<open>exit\<close> waits for the timer
  with interrupts on. What the calls need from outside the kernel's own code is the record \<open>outside\<close>.
\<close>

subsection \<open>The table\<close>

definition NUM_SYSCALLS :: nat where "NUM_SYSCALLS = 0xFF"

datatype sysfn = SysExit | SysFork | SysRead | SysWrite | SysOpen | SysClose | SysExecve | SysLseek | SysGetpid | SysBrk
  | SysSignal | SysIoctl | SysFcntl | SysGetppid | SysMmap | SysNewstat | SysWait4 | SysUname | SysSchedYield
  | SysRtSigaction | SysRtSigsuspend | SysGetcwd | SysMmapPgoff | SysFakeGetid | SysGetpgid | SysGetpgrp | SysSetpgid

record calls = scheds +
  syscall_argc :: "int list"
  syscall_funcs :: "sysfn option list"

definition syscall_register :: "nat \<Rightarrow> sysfn \<Rightarrow> int \<Rightarrow> ('a calls_scheme, unit) kern" where
  "syscall_register syscall fn argc =
     kmod (\<lambda>s. s\<lparr>syscall_funcs := (syscall_funcs s)[syscall := Some fn], syscall_argc := (syscall_argc s)[syscall := argc]\<rparr>)"

definition SYS_EXIT :: nat where "SYS_EXIT = 0x01"
definition SYS_FORK :: nat where "SYS_FORK = 0x02"
definition SYS_READ :: nat where "SYS_READ = 0x03"
definition SYS_WRITE :: nat where "SYS_WRITE = 0x04"
definition SYS_OPEN :: nat where "SYS_OPEN = 0x05"
definition SYS_CLOSE :: nat where "SYS_CLOSE = 0x06"
definition SYS_EXECVE :: nat where "SYS_EXECVE = 0x0b"
definition SYS_LSEEK :: nat where "SYS_LSEEK = 0x13"
definition SYS_GETPID :: nat where "SYS_GETPID = 0x14"
definition SYS_BRK :: nat where "SYS_BRK = 0x2d"
definition SYS_SIGNAL :: nat where "SYS_SIGNAL = 0x30"
definition SYS_IOCTL :: nat where "SYS_IOCTL = 0x36"
definition SYS_FCNTL :: nat where "SYS_FCNTL = 0x37"
definition SYS_GETPPID :: nat where "SYS_GETPPID = 0x40"
definition SYS_MMAP :: nat where "SYS_MMAP = 0x5a"
definition SYS_NEWSTAT :: nat where "SYS_NEWSTAT = 0x6a"
definition SYS_WAIT4 :: nat where "SYS_WAIT4 = 0x72"
definition SYS_UNAME :: nat where "SYS_UNAME = 0x7a"
definition SYS_SCHED_YIELD :: nat where "SYS_SCHED_YIELD = 0x9e"
definition SYS_RT_SIGACTION :: nat where "SYS_RT_SIGACTION = 0xae"
definition SYS_RT_SIGSUSPEND :: nat where "SYS_RT_SIGSUSPEND = 0xb3"
definition SYS_GETCWD :: nat where "SYS_GETCWD = 0xb7"
definition SYS_MMAP_PGOFF :: nat where "SYS_MMAP_PGOFF = 0xc0"
definition SYS_GETUID :: nat where "SYS_GETUID = 0xc7"
definition SYS_GETGID :: nat where "SYS_GETGID = 0xc8"
definition SYS_GETEUID :: nat where "SYS_GETEUID = 0xc9"
definition SYS_GETEGID :: nat where "SYS_GETEGID = 0xca"
definition SYS_GETPGID :: nat where "SYS_GETPGID = 0x84"
definition SYS_GETPGRP :: nat where "SYS_GETPGRP = 0x41"
definition SYS_SETPGID :: nat where "SYS_SETPGID = 0x39"

lemmas syscall_numbers = SYS_EXIT_def SYS_FORK_def SYS_READ_def SYS_WRITE_def SYS_OPEN_def SYS_CLOSE_def SYS_EXECVE_def
  SYS_LSEEK_def SYS_GETPID_def SYS_BRK_def SYS_SIGNAL_def SYS_IOCTL_def SYS_FCNTL_def SYS_GETPPID_def SYS_MMAP_def
  SYS_NEWSTAT_def SYS_WAIT4_def SYS_UNAME_def SYS_SCHED_YIELD_def SYS_RT_SIGACTION_def SYS_RT_SIGSUSPEND_def SYS_GETCWD_def
  SYS_MMAP_PGOFF_def SYS_GETUID_def SYS_GETGID_def SYS_GETEUID_def SYS_GETEGID_def SYS_GETPGID_def SYS_GETPGRP_def SYS_SETPGID_def

text \<open>The heap; what happens while a task is not the running one and while the console waits for a key; the files of the C library
  and the contents of \<^verbatim>\<open>sys_execve\<close>'s local structure; what a function without a result leaves in \<^verbatim>\<open>eax\<close>.\<close>

record 's outside =
  out_malloc :: "'s malloc_t"
  out_others :: "('s, unit) kern"
  out_irq :: "('s, unit) kern"
  out_stdio :: "'s stdio"
  out_elf :: elf
  out_eax :: u32

definition SIZEOF_TASK :: u32 where "SIZEOF_TASK = 5484"

definition ENOENT :: nat where "ENOENT = 2"
definition ESRCH :: nat where "ESRCH = 3"
definition EACCES :: nat where "EACCES = 13"
definition O_CREAT :: u32 where "O_CREAT = 0x40"
definition TIOCGPGRP :: u32 where "TIOCGPGRP = 0x540F"
definition F_DUPFD :: u32 where "F_DUPFD = 0"
definition MAP_ANONYMOUS :: u32 where "MAP_ANONYMOUS = 0x20"
definition WNOHANG :: u32 where "WNOHANG = 1"
definition WUNTRACED :: u32 where "WUNTRACED = 2"
definition SIZEOF_STAT :: nat where "SIZEOF_STAT = 64"

text \<open>\<^verbatim>\<open>errno = e; return -1;\<close>\<close>

definition sys_fail :: "nat \<Rightarrow> ('a ios_scheme, u32) kern" where
  "sys_fail e = kbind (fail e) (\<lambda>r. kret (of_int r))"

text \<open>The string at an address, up to its terminating zero.\<close>

partial_function (option) cstring :: "vaddr_t \<Rightarrow> 'a fss_scheme \<Rightarrow> (stop + string \<times> 'a fss_scheme) option" where
  "cstring a s = kbind (kget (\<lambda>s. vmem s a)) (\<lambda>c. if c = 0 then kret []
     else kbind (cstring (a + 1)) (\<lambda>cs. kret (char_of (unat c) # cs))) s"

definition store32 :: "vaddr_t \<Rightarrow> u32 \<Rightarrow> ('a fss_scheme, unit) kern" where
  "store32 a v = kmod (\<lambda>s. s\<lparr>vmem := set32 (vmem s) a v\<rparr>)"

definition store_bytes :: "vaddr_t \<Rightarrow> u8 list \<Rightarrow> ('a fss_scheme, unit) kern" where
  "store_bytes a bs = kmod (\<lambda>s. s\<lparr>vmem := buf_put (vmem s) a bs\<rparr>)"

definition char_bytes :: "string \<Rightarrow> u8 list" where
  "char_bytes = map (\<lambda>c. of_nat (of_char c))"

subsection \<open>Files\<close>

text \<open>The calls through the function pointers of a node and of a device. The console has no \<^verbatim>\<open>seek\<close>, a file of the archive
  no \<^verbatim>\<open>write\<close>.\<close>

definition fsn_open :: "u32 \<Rightarrow> ('a fss_scheme, u32) kern" where
  "fsn_open fsn = kbind (get_node fsn) (\<lambda>n. case n_open n of None \<Rightarrow> kstop NullCall
     | Some TmpfsOpen \<Rightarrow> tmpfs_open_file fsn | Some DevfsOpen \<Rightarrow> devfs_open_dev fsn | Some CpiofsOpen \<Rightarrow> cpiofs_open_file fsn)"

definition fsn_stat :: "u32 \<Rightarrow> vaddr_t \<Rightarrow> ('a fss_scheme, int) kern" where
  "fsn_stat fsn st = kbind (get_node fsn) (\<lambda>n. case n_stat n of None \<Rightarrow> kstop NullCall
     | Some CpiofsStat \<Rightarrow> cpiofs_stat_file fsn st | Some GarbageStat \<Rightarrow> kstop BadAccess)"

definition dev_read :: "('a cons_scheme, unit) kern \<Rightarrow> u32 \<Rightarrow> vaddr_t \<Rightarrow> u32 \<Rightarrow> ('a cons_scheme, u32) kern" where
  "dev_read irq dev buf n = kbind (get_file dev) (\<lambda>f. case f_kind f of
     KTmp \<Rightarrow> tmpfs_read_file dev buf n | KCpio \<Rightarrow> cpiofs_read_file dev buf n | KConsole \<Rightarrow> console_read irq buf n)"

definition dev_write :: "u32 \<Rightarrow> vaddr_t \<Rightarrow> u32 \<Rightarrow> ('a cons_scheme, u32) kern" where
  "dev_write dev buf n = kbind (get_file dev) (\<lambda>f. case f_kind f of
     KTmp \<Rightarrow> tmpfs_write_file dev buf n | KCpio \<Rightarrow> kstop NullCall | KConsole \<Rightarrow> console_write buf n)"

definition dev_seek :: "u32 \<Rightarrow> u32 \<Rightarrow> u32 \<Rightarrow> ('a cons_scheme, u32) kern" where
  "dev_seek dev ofs whence = kbind (get_file dev) (\<lambda>f. case f_kind f of
     KTmp \<Rightarrow> tmpfs_seek_file dev ofs whence | KCpio \<Rightarrow> cpiofs_seek_file dev ofs whence | KConsole \<Rightarrow> kstop NullCall)"

definition dev_close :: "u32 \<Rightarrow> u32 \<Rightarrow> ('a cons_scheme, u32) kern" where
  "dev_close eax dev = kbind (get_file dev) (\<lambda>f. case f_kind f of
     KTmp \<Rightarrow> kthen (tmpfs_close_file dev) (kret eax) | KCpio \<Rightarrow> kthen (cpiofs_close_file dev) (kret eax)
   | KConsole \<Rightarrow> kbind console_close (\<lambda>r. kret (of_int r)))"

definition sys_open :: "'a calls_scheme outside \<Rightarrow> vaddr_t \<Rightarrow> u32 \<Rightarrow> u32 \<Rightarrow> ('a calls_scheme, u32) kern" where
  "sys_open out pathname flags mode =
     kbind (cstring pathname) (\<lambda>path.
     kbind (kget FSRootNode) (\<lambda>root.
     kbind (fs_locate root path) (\<lambda>fsn.
     if fsn = NULL then (if flags AND O_CREAT \<noteq> 0 then sys_fail EACCES else sys_fail ENOENT)
     else kbind (fsn_open fsn) (\<lambda>dev.
       if dev = NULL then kstop (Panic ''Couldn't open fs node'')
       else kbind (out_malloc out SIZEOF_FDESCR) (\<lambda>descr. kbind (fd_open descr dev) (\<lambda>fd. kret (ucast fd)))))))"

definition with_dev :: "u16 \<Rightarrow> (u32 \<Rightarrow> ('a ios_scheme, u32) kern) \<Rightarrow> ('a ios_scheme, u32) kern" where
  "with_dev fd f = kbind (fd_lookup fd) (\<lambda>descr.
     if descr = NULL then sys_fail EBADF else kbind (kget (\<lambda>s. fd_dev (fdescrs s descr))) f)"

definition sys_write :: "u16 \<Rightarrow> vaddr_t \<Rightarrow> u32 \<Rightarrow> ('a cons_scheme, u32) kern" where
  "sys_write fd buf nbyte = with_dev fd (\<lambda>dev. dev_write dev buf nbyte)"

definition sys_read :: "('a cons_scheme, unit) kern \<Rightarrow> u16 \<Rightarrow> vaddr_t \<Rightarrow> u32 \<Rightarrow> ('a cons_scheme, u32) kern" where
  "sys_read irq fd buf nbyte = with_dev fd (\<lambda>dev. dev_read irq dev buf nbyte)"

definition sys_lseek :: "u16 \<Rightarrow> u32 \<Rightarrow> u32 \<Rightarrow> ('a cons_scheme, u32) kern" where
  "sys_lseek fd offset whence = with_dev fd (\<lambda>dev. dev_seek dev offset whence)"

definition sys_close :: "u32 \<Rightarrow> u16 \<Rightarrow> ('a cons_scheme, u32) kern" where
  "sys_close eax fd = with_dev fd (\<lambda>dev.
     kbind (dev_close eax dev) (\<lambda>dev_ret. kbind (fd_close fd) (\<lambda>fd_ret.
     kret (if dev_ret = - 1 \<or> fd_ret = - 1 then - 1 else 0))))"

definition sys_ioctl :: "u16 \<Rightarrow> u32 \<Rightarrow> u32 \<Rightarrow> ('a fss_scheme, u32) kern" where
  "sys_ioctl fd cmd arg = (if cmd = TIOCGPGRP then kbind (kget (\<lambda>s. t_pgid (cur s))) (\<lambda>g. kthen (store32 arg g) (kret 0)) else kret 0)"

definition sys_fcntl :: "u16 \<Rightarrow> u32 \<Rightarrow> u32 \<Rightarrow> ('a ios_scheme, u32) kern" where
  "sys_fcntl fd cmd arg = (if cmd = F_DUPFD then kbind (fd_dupfd fd (ucast arg)) (\<lambda>r. kret (of_int r)) else kret 0)"

definition sys_newstat :: "vaddr_t \<Rightarrow> vaddr_t \<Rightarrow> ('a fss_scheme, u32) kern" where
  "sys_newstat path st =
     kbind (cstring path) (\<lambda>p.
     kbind (kget FSRootNode) (\<lambda>root.
     kbind (fs_locate root p) (\<lambda>fsn.
     if fsn = NULL then sys_fail ENOENT
     else kthen (store_bytes st (replicate SIZEOF_STAT 0)) (kbind (fsn_stat fsn st) (\<lambda>r. kret (of_int r))))))"

text \<open>\<^verbatim>\<open>strncpy\<close> fills the buffer with zeros and does not terminate a string that fills it.\<close>

definition sys_getcwd :: "vaddr_t \<Rightarrow> u32 \<Rightarrow> ('a fss_scheme, u32) kern" where
  "sys_getcwd buf sz =
     kbind (kget (\<lambda>s. char_bytes (t_cwd (cur s)))) (\<lambda>cwd.
     kthen (store_bytes buf (take (unat sz) cwd @ replicate (unat sz - length cwd) 0))
    (kbind (cstring buf) (\<lambda>str. kret (of_nat (length str)))))"

definition fdio_init :: "('a calls_scheme, unit) kern" where
  "fdio_init = kseq [
     syscall_register SYS_OPEN SysOpen 3, syscall_register SYS_CLOSE SysClose 1, syscall_register SYS_LSEEK SysLseek 3,
     syscall_register SYS_IOCTL SysIoctl 3, syscall_register SYS_FCNTL SysFcntl 3, syscall_register SYS_GETCWD SysGetcwd 2,
     syscall_register SYS_READ SysRead 3, syscall_register SYS_WRITE SysWrite 3, syscall_register SYS_NEWSTAT SysNewstat 2,
     kthen fdio_tbl_init (kret ())]"

subsection \<open>Memory\<close>

definition sys_brk :: "vaddr_t \<Rightarrow> ('a mmu_scheme, u32) kern" where
  "sys_brk brk = kbind (kget CurrentTask) (\<lambda>me. task_brk me brk)"

definition sys_mmap_pgoff :: "vaddr_t \<Rightarrow> u32 \<Rightarrow> u32 \<Rightarrow> u32 \<Rightarrow> u32 \<Rightarrow> u32 \<Rightarrow> ('a mmu_scheme, u32) kern" where
  "sys_mmap_pgoff addr len prot flags fd offset =
     (if flags AND MAP_ANONYMOUS \<noteq> 0 then
        kbind (kget (\<lambda>s. t_mmapbrk (cur s))) (\<lambda>mem.
        kthen (pg_alloc_range mem (mem + len + PAGE_SIZE) True)
       (kthen (kmod (\<lambda>s. upd_cur (\<lambda>t. t\<lparr>t_mmapbrk := mem + len + PAGE_SIZE\<rparr>) s)) (kret mem)))
      else kstop (Panic ''sys_mmap: not implemented''))"

definition sys_mmap :: "vaddr_t \<Rightarrow> ('a fss_scheme, u32) kern" where
  "sys_mmap args = kbind (kget (\<lambda>s. \<lambda>k. get32 (vmem s) (args + 4 * k))) (\<lambda>arg.
     sys_mmap_pgoff (arg 0) (arg 1) (arg 2) (arg 3) (arg 4) (arg 5))"

definition mem_syscall_init :: "('a calls_scheme, unit) kern" where
  "mem_syscall_init = kseq [
     syscall_register SYS_BRK SysBrk 1, syscall_register SYS_MMAP SysMmap 1, syscall_register SYS_MMAP_PGOFF SysMmapPgoff 6,
     early_malloc_disable]"

subsection \<open>Processes\<close>

datatype outcome = Returns u32 | Jumps vaddr_t | Idles

definition sys_fork :: "'a calls_scheme outside \<Rightarrow> ('a calls_scheme, u32) kern" where
  "sys_fork out =
     kbind (out_malloc out SIZEOF_TASK) (\<lambda>addr.
     kbind (task_fork addr) (\<lambda>clone.
     if clone \<noteq> NULL then kget (\<lambda>s. t_pid (tasks s clone)) else kret 0))"

definition sys_execve :: "'a calls_scheme outside \<Rightarrow> vaddr_t \<Rightarrow> vaddr_t \<Rightarrow> vaddr_t \<Rightarrow> ('a calls_scheme, outcome) kern" where
  "sys_execve out filename argv envp =
     kbind (cstring filename) (\<lambda>name.
     kbind (elf_read (out_stdio out) name (out_elf out)) (\<lambda>bin.
     kthen (elf_load bin)
    (kbind (elf_start (out_malloc out) bin argv envp) (\<lambda>start. kret (Jumps start)))))"

definition sys_exit :: "u32 \<Rightarrow> ('a procs_scheme, outcome) kern" where
  "sys_exit status = kbind (kget CurrentTask) (\<lambda>me. kthen (task_exit me status) (kthen intr_enable (kret Idles)))"

definition sys_sched_yield :: "('a scheds_scheme, u32) kern" where
  "sys_sched_yield = kthen kern_sched_yield (kret 0)"

definition sys_getppid :: "('a procs_scheme, u32) kern" where
  "sys_getppid = kget (\<lambda>s. t_ppid (cur s))"

definition sys_getpid :: "('a procs_scheme, u32) kern" where
  "sys_getpid = kget (\<lambda>s. t_pid (cur s))"

definition sys_getpgid :: "u32 \<Rightarrow> ('a ios_scheme, u32) kern" where
  "sys_getpgid pid =
     kbind (kget (\<lambda>s. if pid = 0 then t_pid (cur s) else pid)) (\<lambda>pid.
     kbind (task_get pid) (\<lambda>task.
     if task = NULL then sys_fail ESRCH else kget (\<lambda>s. t_pid (tasks s task))))"

definition sys_getpgrp :: "('a ios_scheme, u32) kern" where
  "sys_getpgrp = sys_getpgid 0"

definition sys_setpgid :: "u32 \<Rightarrow> u32 \<Rightarrow> ('a ios_scheme, u32) kern" where
  "sys_setpgid pid pgid =
     kbind (kget (\<lambda>s. if pid = 0 then t_pid (cur s) else pid)) (\<lambda>pid.
     kbind (task_get pid) (\<lambda>task.
     if task = NULL then sys_fail ESRCH
     else kthen (kmod (upd_task task (\<lambda>t. t\<lparr>t_pgid := (if pgid = 0 then t_pid t else pgid)\<rparr>))) (kret 0)))"

definition proc_init :: "('a calls_scheme, unit) kern" where
  "proc_init = kseq [
     syscall_register SYS_EXIT SysExit 1, syscall_register SYS_EXECVE SysExecve 3, syscall_register SYS_GETPPID SysGetppid 0,
     syscall_register SYS_GETPID SysGetpid 0, syscall_register SYS_FORK SysFork 0, syscall_register SYS_SCHED_YIELD SysSchedYield 0,
     syscall_register SYS_GETPGID SysGetpgid 1, syscall_register SYS_GETPGRP SysGetpgrp 0, syscall_register SYS_SETPGID SysSetpgid 2]"

subsection \<open>Signals\<close>

definition sys_wait4 :: "('a scheds_scheme, unit) kern \<Rightarrow> u32 \<Rightarrow> vaddr_t \<Rightarrow> u32 \<Rightarrow> u32 \<Rightarrow> ('a scheds_scheme, u32) kern" where
  "sys_wait4 others pid status options rusage =
     kbind (kget (\<lambda>s. t_childcount (cur s))) (\<lambda>childcount.
     if (options AND WNOHANG \<noteq> 0 \<or> options AND WUNTRACED \<noteq> 0) \<and> childcount = 0 then kret 0
     else kthen (kmod (\<lambda>s. upd_cur (\<lambda>t. t\<lparr>t_sigwait := SIGCHLD\<rparr>) s))
         (kbind (kget CurrentTask) (\<lambda>me.
          kthen (task_sigwait others me)
         (kbind (kget cur) (\<lambda>t.
          kthen (store32 status (t_sigchldexit t)) (kret (t_sigchldpid t)))))))"

definition sys_signal :: "u32 \<Rightarrow> u32 \<Rightarrow> ('a procs_scheme, u32) kern" where
  "sys_signal signum handler = kbind (kget CurrentTask) (\<lambda>me. task_signal me signum handler)"

definition sys_rt_sigsuspend :: "('a scheds_scheme, unit) kern \<Rightarrow> vaddr_t \<Rightarrow> u32 \<Rightarrow> ('a scheds_scheme, u32) kern" where
  "sys_rt_sigsuspend others unewset sigsetsize = kbind (kget CurrentTask) (\<lambda>me. kthen (task_sigwait others me) (kret 0))"

text \<open>\<^verbatim>\<open>struct sigaction\<close> in memory: handler, flags, restorer and two words of mask.\<close>

definition get_sigaction :: "bytes \<Rightarrow> vaddr_t \<Rightarrow> sigaction" where
  "get_sigaction m a = \<lparr>sa_handler = get32 m a, sa_flags = get32 m (a + 4), sa_restorer = get32 m (a + 8),
     sa_mask = [get32 m (a + 12), get32 m (a + 16)]\<rparr>"

definition put_sigaction :: "vaddr_t \<Rightarrow> sigaction \<Rightarrow> ('a fss_scheme, unit) kern" where
  "put_sigaction a sa = kseq [store32 a (sa_handler sa), store32 (a + 4) (sa_flags sa), store32 (a + 8) (sa_restorer sa),
     store32 (a + 12) (sa_mask sa ! 0), store32 (a + 16) (sa_mask sa ! 1)]"

definition sys_rt_sigaction :: "u32 \<Rightarrow> vaddr_t \<Rightarrow> vaddr_t \<Rightarrow> ('a fss_scheme, u32) kern" where
  "sys_rt_sigaction signum act oldact =
     kbind (kget (\<lambda>s. t_sigact (cur s))) (\<lambda>acts.
     kthen (kguard (unat signum < length acts) BadAccess)
    (kthen (kwhen (oldact \<noteq> NULL) (put_sigaction oldact (acts ! unat signum)))
    (kbind (kget (\<lambda>s. get_sigaction (vmem s) act)) (\<lambda>new.
     kthen (kmod (\<lambda>s. upd_cur (\<lambda>t. t\<lparr>t_sigact := (t_sigact t)[unat signum := new]\<rparr>) s)) (kret 0)))))"

definition signal_init :: "('a calls_scheme, unit) kern" where
  "signal_init = kseq [
     syscall_register SYS_WAIT4 SysWait4 4, syscall_register SYS_SIGNAL SysSignal 2,
     syscall_register SYS_RT_SIGACTION SysRtSigaction 3, syscall_register SYS_RT_SIGSUSPEND SysRtSigsuspend 2,
     kmod (\<lambda>s. upd_cur (\<lambda>t. t\<lparr>t_sigact := replicate NSIG zero_sigaction\<rparr>) s)]"

subsection \<open>Names and users\<close>

text \<open>Each field of \<^verbatim>\<open>struct utsname\<close> has 65 characters; \<^verbatim>\<open>sprintf\<close> writes the text and a zero.\<close>

definition sprintf_field :: "vaddr_t \<Rightarrow> nat \<Rightarrow> string \<Rightarrow> ('a fss_scheme, unit) kern" where
  "sprintf_field buf k txt = store_bytes (buf + of_nat (65 * k)) (char_bytes txt @ [0])"

definition sys_uname :: "vaddr_t \<Rightarrow> ('a fss_scheme, u32) kern" where
  "sys_uname buf = kthen (kseq [
     sprintf_field buf 0 ''ak'', sprintf_field buf 1 ''localhost'', sprintf_field buf 2 ''0.0'', sprintf_field buf 3 ''1'',
     sprintf_field buf 4 ''qemu'', sprintf_field buf 5 ''localdomain'']) (kret 0)"

definition uname_syscall_init :: "('a calls_scheme, unit) kern" where
  "uname_syscall_init = syscall_register SYS_UNAME SysUname 1"

definition sys_fake_getid :: "('s, u32) kern" where
  "sys_fake_getid = kret 1000"

definition user_syscall_init :: "('a calls_scheme, unit) kern" where
  "user_syscall_init = kseq [
     syscall_register SYS_GETUID SysFakeGetid 0, syscall_register SYS_GETGID SysFakeGetid 0,
     syscall_register SYS_GETEUID SysFakeGetid 0, syscall_register SYS_GETEGID SysFakeGetid 0]"

subsection \<open>The interrupt\<close>

text \<open>A call through the table with the arguments given; a call with another number of arguments than the function takes
  has no meaning in C.\<close>

definition returns :: "('s, u32) kern \<Rightarrow> ('s, outcome) kern" where
  "returns m = kbind m (\<lambda>r. kret (Returns r))"

primrec sysfn_arity :: "sysfn \<Rightarrow> nat" where
  "sysfn_arity SysExit = 1"
| "sysfn_arity SysFork = 0"
| "sysfn_arity SysRead = 3"
| "sysfn_arity SysWrite = 3"
| "sysfn_arity SysOpen = 3"
| "sysfn_arity SysClose = 1"
| "sysfn_arity SysExecve = 3"
| "sysfn_arity SysLseek = 3"
| "sysfn_arity SysGetpid = 0"
| "sysfn_arity SysBrk = 1"
| "sysfn_arity SysSignal = 2"
| "sysfn_arity SysIoctl = 3"
| "sysfn_arity SysFcntl = 3"
| "sysfn_arity SysGetppid = 0"
| "sysfn_arity SysMmap = 1"
| "sysfn_arity SysNewstat = 2"
| "sysfn_arity SysWait4 = 4"
| "sysfn_arity SysUname = 1"
| "sysfn_arity SysSchedYield = 0"
| "sysfn_arity SysRtSigaction = 3"
| "sysfn_arity SysRtSigsuspend = 2"
| "sysfn_arity SysGetcwd = 2"
| "sysfn_arity SysMmapPgoff = 6"
| "sysfn_arity SysFakeGetid = 0"
| "sysfn_arity SysGetpgid = 1"
| "sysfn_arity SysGetpgrp = 0"
| "sysfn_arity SysSetpgid = 2"

definition call_sysfn :: "'a calls_scheme outside \<Rightarrow> sysfn \<Rightarrow> u32 list \<Rightarrow> ('a calls_scheme, outcome) kern" where
  "call_sysfn out fn a = (if length a \<noteq> sysfn_arity fn then kstop BadAccess else case fn of
     SysExit \<Rightarrow> sys_exit (a ! 0)
   | SysFork \<Rightarrow> returns (sys_fork out)
   | SysRead \<Rightarrow> returns (sys_read (out_irq out) (ucast (a ! 0)) (a ! 1) (a ! 2))
   | SysWrite \<Rightarrow> returns (sys_write (ucast (a ! 0)) (a ! 1) (a ! 2))
   | SysOpen \<Rightarrow> returns (sys_open out (a ! 0) (a ! 1) (a ! 2))
   | SysClose \<Rightarrow> returns (sys_close (out_eax out) (ucast (a ! 0)))
   | SysExecve \<Rightarrow> sys_execve out (a ! 0) (a ! 1) (a ! 2)
   | SysLseek \<Rightarrow> returns (sys_lseek (ucast (a ! 0)) (a ! 1) (a ! 2))
   | SysGetpid \<Rightarrow> returns sys_getpid
   | SysBrk \<Rightarrow> returns (sys_brk (a ! 0))
   | SysSignal \<Rightarrow> returns (sys_signal (a ! 0) (a ! 1))
   | SysIoctl \<Rightarrow> returns (sys_ioctl (ucast (a ! 0)) (a ! 1) (a ! 2))
   | SysFcntl \<Rightarrow> returns (sys_fcntl (ucast (a ! 0)) (a ! 1) (a ! 2))
   | SysGetppid \<Rightarrow> returns sys_getppid
   | SysMmap \<Rightarrow> returns (sys_mmap (a ! 0))
   | SysNewstat \<Rightarrow> returns (sys_newstat (a ! 0) (a ! 1))
   | SysWait4 \<Rightarrow> returns (sys_wait4 (out_others out) (a ! 0) (a ! 1) (a ! 2) (a ! 3))
   | SysUname \<Rightarrow> returns (sys_uname (a ! 0))
   | SysSchedYield \<Rightarrow> returns sys_sched_yield
   | SysRtSigaction \<Rightarrow> returns (sys_rt_sigaction (a ! 0) (a ! 1) (a ! 2))
   | SysRtSigsuspend \<Rightarrow> returns (sys_rt_sigsuspend (out_others out) (a ! 0) (a ! 1))
   | SysGetcwd \<Rightarrow> returns (sys_getcwd (a ! 0) (a ! 1))
   | SysMmapPgoff \<Rightarrow> returns (sys_mmap_pgoff (a ! 0) (a ! 1) (a ! 2) (a ! 3) (a ! 4) (a ! 5))
   | SysFakeGetid \<Rightarrow> returns sys_fake_getid
   | SysGetpgid \<Rightarrow> returns (sys_getpgid (a ! 0))
   | SysGetpgrp \<Rightarrow> returns sys_getpgrp
   | SysSetpgid \<Rightarrow> returns (sys_setpgid (a ! 0) (a ! 1)))"

definition all_regs :: "isrargs \<Rightarrow> u32 list" where
  "all_regs regs = [r_ebx regs, r_ecx regs, r_edx regs, r_esi regs, r_edi regs, r_ebp regs]"

text \<open>The result is the registers with which the interrupted program goes on, or where control goes instead.\<close>

definition syscall_interrupt :: "'a calls_scheme outside \<Rightarrow> isrargs \<Rightarrow> ('a calls_scheme, isrargs + outcome) kern" where
  "syscall_interrupt out regs =
     (let syscall = unat (r_eax regs) in
      kthen (kguard (syscall < NUM_SYSCALLS) BadAccess)
     (kbind (kget (\<lambda>s. (syscall_funcs s ! syscall, syscall_argc s ! syscall))) (\<lambda>(fn, argc).
      case fn of None \<Rightarrow> kret (Inl regs)
      | Some f \<Rightarrow>
          kbind (if 0 \<le> argc \<and> argc \<le> 6 then call_sysfn out f (take (nat argc) (all_regs regs)) else kret (Returns 0)) (\<lambda>r.
          case r of Returns v \<Rightarrow> kret (Inl (regs\<lparr>r_eax := v\<rparr>)) | _ \<Rightarrow> kret (Inr r)))))"

definition syscall_arch_init :: "('a intr_scheme, unit) kern" where
  "syscall_arch_init = idt_set_handler INT_SYSCALL IsrSyscall"

subsection \<open>Waiting for a child\<close>

definition family :: "task \<Rightarrow> u32 \<times> u32 \<times> u32 \<times> sigaction list" where
  "family t = (t_ppid t, t_sigchldpid t, t_sigchldexit t, t_sigact t)"

lemma task_enter_family:
  assumes "task_enter n s = Done u t"
  shows "family (tasks t x) = family (tasks s x) \<and> (x \<noteq> n \<longrightarrow> t_sigwait (tasks t x) = t_sigwait (tasks s x)) \<and> CurrentTask t = n"
  using assms
  by (auto simp: task_enter_def task_store_context_def task_load_context_def task_signal_exec_def kbind_eq_Done kthen_eq_Done
      Let_def upd_task_def family_def split: resume_point.splits if_splits)

lemma yield_family:
  assumes "kern_sched_yield s = Done () t" "ring (task_links s) xs" "CurrentTask s \<in> set xs"
  shows "family (tasks t x) = family (tasks s x) \<and> (x \<noteq> CurrentTask t \<longrightarrow> t_sigwait (tasks t x) = t_sigwait (tasks s x))"
proof -
  define s0 where "s0 = s\<lparr>iflag := False\<rparr>"
  obtain n s1 u t1 where loop: "sched_loop (CurrentTask s) s0 = Done n s1" and ent: "task_enter n s1 = Done u t1" and t: "t = t1\<lparr>iflag := True\<rparr>"
    using assms(1) by (auto simp: kern_sched_yield_def intr_disable_def intr_enable_def kbind_eq_Done kthen_eq_Done s0_def)
  have "ring (task_links s0) xs" "lnext (task_links s0) (CurrentTask s) \<in> set xs"
    using assms(2) ring_next_in(1) [OF assms(2,3)] by (simp_all add: s0_def)
  then obtain h where "s1 = woken n (s0\<lparr>task_links := h\<rparr>)"
    using sched_loop_ring [OF loop] unfolding kept_ring_def by blast
  then have "family (tasks s1 x) = family (tasks s x)" "t_sigwait (tasks s1 x) = t_sigwait (tasks s x)"
    by (simp_all add: woken_def s0_def upd_task_def family_def)
  then show ?thesis using task_enter_family [OF ent, of x] by (simp add: t)
qed

lemma yield_to:
  fixes s :: "'a scheds_scheme"
  assumes "ring (task_links s) (CurrentTask s # pre @ n # post)" "\<forall>x \<in> set pre. \<not> runnable s x" "runnable s n"
    and "t_sigpend (tasks s n) \<noteq> 0 \<longrightarrow> unat (t_sigpend (tasks s n)) < length (t_sigact (tasks s n))"
  obtains t where "kern_sched_yield s = Done () t" "CurrentTask t = n" "ring (task_links t) (n # post @ CurrentTask s # filter (\<lambda>q. \<not> quit s q) pre)"
    "\<And>x. x \<noteq> n \<Longrightarrow> x \<noteq> CurrentTask s \<Longrightarrow> tasks t x = tasks s x" "\<And>x. t_pid (tasks t x) = t_pid (tasks s x)"
    "\<And>x. family (tasks t x) = family (tasks s x)" "\<And>x. x \<noteq> n \<Longrightarrow> t_state (tasks t x) = t_state (tasks s x) \<and> t_sigwait (tasks t x) = t_sigwait (tasks s x)"
proof -
  have "(pre @ n # post) @ [CurrentTask s] = pre @ n # (post @ [CurrentTask s])" by simp
  from yield_run [OF assms(1) this assms(2-4)] obtain t where t: "kern_sched_yield s = Done () t" "CurrentTask t = n"
    "ring (task_links t) (n # (post @ [CurrentTask s]) @ filter (\<lambda>q. \<not> quit s q) pre)"
    "\<forall>x. x \<noteq> n \<and> x \<noteq> CurrentTask s \<longrightarrow> tasks t x = tasks s x" "\<forall>x. x \<noteq> n \<longrightarrow> t_state (tasks t x) = t_state (tasks s x)"
    "\<forall>x. t_pid (tasks t x) = t_pid (tasks s x)" unfolding runs_def by auto
  have "family (tasks t x) = family (tasks s x) \<and> (x \<noteq> n \<longrightarrow> t_sigwait (tasks t x) = t_sigwait (tasks s x))" for x
    using yield_family [OF t(1) assms(1), of x] t(2) by simp
  with t that show thesis by simp
qed



subsection \<open>The table is well typed\<close>

definition table_ok :: "'a calls_scheme \<Rightarrow> bool" where
  "table_ok s \<longleftrightarrow> length (syscall_funcs s) = NUM_SYSCALLS \<and> length (syscall_argc s) = NUM_SYSCALLS
     \<and> (\<forall>k < NUM_SYSCALLS. \<forall>f. syscall_funcs s ! k = Some f \<longrightarrow> syscall_argc s ! k = int (sysfn_arity f))"

definition keeps_table :: "('a calls_scheme, unit) kern \<Rightarrow> bool" where
  "keeps_table m \<longleftrightarrow> (\<forall>s. table_ok s \<longrightarrow> runs m s (\<lambda>_. table_ok))"

lemma keeps_table_register:
  "argc = int (sysfn_arity f) \<Longrightarrow> keeps_table (syscall_register k f argc :: ('a calls_scheme, unit) kern)"
  unfolding keeps_table_def
proof (intro allI impI)
  fix s :: "'a calls_scheme" assume argc: "argc = int (sysfn_arity f)" and s: "table_ok s"
  have "(syscall_argc s)[k := argc] ! i = int (sysfn_arity g)"
    if "i < NUM_SYSCALLS" "(syscall_funcs s)[k := Some f] ! i = Some g" for i g
    using that s argc by (cases "i = k") (auto simp: table_ok_def)
  then show "runs (syscall_register k f argc) s (\<lambda>_. table_ok)"
    using s by (simp add: syscall_register_def runs_def table_ok_def)
qed

lemma keeps_table_kmod: "(\<And>s. table_ok s \<Longrightarrow> table_ok (f s)) \<Longrightarrow> keeps_table (kmod f)"
  by (simp add: keeps_table_def runs_def)

lemma keeps_table_kthen: "keeps_table m \<Longrightarrow> keeps_table n \<Longrightarrow> keeps_table (kthen m n)"
  unfolding keeps_table_def by (blast intro: runs_seq)

lemma keeps_table_kret: "keeps_table (kret ())"
  by (simp add: keeps_table_def runs_def)

lemma keeps_table_kseq: "list_all keeps_table ms \<Longrightarrow> keeps_table (kseq ms)"
  by (induction ms) (simp_all add: keeps_table_kret keeps_table_kthen)

lemma table_ok_tasks [simp]: "table_ok (upd_task a g s) = table_ok s" "table_ok (s\<lparr>EarlyMallocEnabled := b\<rparr>) = table_ok s"
  by (simp_all add: table_ok_def upd_task_def)

lemma sysfn_arity_max: "sysfn_arity f \<le> 6"
  by (cases f) simp_all

definition syscall_inits :: "('a calls_scheme, unit) kern" where
  "syscall_inits = kseq [mem_syscall_init, proc_init, signal_init, fdio_init, uname_syscall_init, user_syscall_init]"

lemma keeps_table_fdio_tbl: "keeps_table (kthen fdio_tbl_init (kret ()))"
  by (simp add: keeps_table_def runs_def fdio_tbl_init_def)

lemmas keeps_table_rules = keeps_table_fdio_tbl keeps_table_kthen keeps_table_register keeps_table_kmod keeps_table_kret

lemma keeps_table_inits:
  "keeps_table mem_syscall_init" "keeps_table proc_init" "keeps_table signal_init" "keeps_table fdio_init"
  "keeps_table uname_syscall_init" "keeps_table user_syscall_init"
  unfolding mem_syscall_init_def proc_init_def signal_init_def fdio_init_def uname_syscall_init_def user_syscall_init_def
    early_malloc_disable_def
  unfolding kseq.simps by (intro keeps_table_rules; simp)+


definition demo_calls :: calls where
  "demo_calls = scheds.extend demo_scheds \<lparr>syscall_argc = replicate 255 0, syscall_funcs = replicate 255 None\<rparr>"

definition demo_out :: "calls outside" where
  "demo_out = \<lparr>out_malloc = (\<lambda>_. kret 0x700), out_others = kret (), out_irq = kret (),
     out_stdio = \<lparr>c_stat = (\<lambda>_. kret None), c_mmap = (\<lambda>_. kret 0), c_fopen = (\<lambda>_. kret 0), c_fseek = (\<lambda>_ _. kret ()),
       c_fread = (\<lambda>_ _ _. kret 0), c_fclose = (\<lambda>_. kret ())\<rparr>,
     out_elf = demo_elf, out_eax = 0\<rparr>"


text \<open>The dispatcher hands the call number back as the result of an unknown call; an error shows as -1 only, the code stays in
  the kernel's own \<^verbatim>\<open>errno\<close>; a process group is reported as the process.\<close>

lemma unknown_syscall_returns_number:
  assumes "syscall_funcs s ! unat (r_eax regs) = None" "unat (r_eax regs) < NUM_SYSCALLS"
  shows "syscall_interrupt out regs s = Done (Inl regs) s"
  using assms by (simp add: syscall_interrupt_def Let_def)

lemma syscall_number_unchecked:
  "NUM_SYSCALLS \<le> unat (r_eax regs) \<Longrightarrow> syscall_interrupt out regs s = Halt BadAccess"
  by (simp add: syscall_interrupt_def Let_def kguard_def not_less)

lemma getpgid_returns_pid:
  assumes "task_ring s ts" "p \<in> set (CurrentTask s # ts)" "t_pid (tasks s p) \<noteq> 0"
  shows "sys_getpgid (t_pid (tasks s p)) s = Done (t_pid (tasks s p)) s"
proof -
  have "p \<noteq> NULL" using assms(1,2) by (auto simp: task_ring_def ring_def)
  then show ?thesis using task_ring_find [OF assms(1,2)] assms(3) by (simp add: sys_getpgid_def)
qed

subsection \<open>Opening and reading a file\<close>

fun has_string :: "bytes \<Rightarrow> vaddr_t \<Rightarrow> string \<Rightarrow> bool" where
  "has_string m a [] \<longleftrightarrow> m a = 0"
| "has_string m a (c # cs) \<longleftrightarrow> m a \<noteq> 0 \<and> char_of (unat (m a)) = c \<and> has_string m (a + 1) cs"

lemma cstring_run: "has_string (vmem s) a p \<Longrightarrow> cstring a s = Done p s"
  by (induction p arbitrary: a) (simp_all add: cstring.simps)

lemma locate_run: "toks \<noteq> [] \<Longrightarrow> path_tokens path = toks \<Longrightarrow> resolves (nodes s) n toks r \<Longrightarrow> fs_locate n path s = Done r s"
  by (cases toks) (simp_all only: fs_locate_def list.case locate_from_run list.distinct not_True_eq_False simp_thms)

lemma fd_opened_rest [simp]:
  "vmem (fd_opened k d dev s) = vmem s" "files (fd_opened k d dev s) = files s" "nodes (fd_opened k d dev s) = nodes s"
  by (simp_all add: fd_opened_def upd_task_def)

lemma sys_open_archive:
  assumes path: "has_string (vmem s) pathname path" "path_tokens path \<noteq> []"
    and node: "resolves (nodes s) (FSRootNode s) (path_tokens path) c" "c \<noteq> NULL" "nodes s c = Some nd"
      "n_open nd = Some CpiofsOpen" "n_device nd \<noteq> NULL"
    and heap: "out_malloc out SIZEOF_FDESCR s = Done d s1"
    and tbl: "fds_ok s1" "unat (t_fdnext (cur s1)) \<le> j" "j < length (t_fdtbl (cur s1))" "fd_slot s1 j = NULL"
  obtains k where "sys_open out pathname flags mode s = Done (ucast (of_nat k :: u16)) (fd_opened k d (n_device nd) s1)"
    "k < length (t_fdtbl (cur s1))" "unat (of_nat k :: u16) = k"
proof -
  obtain k where k: "fd_open d (n_device nd) s1 = Done (of_nat k) (fd_opened k d (n_device nd) s1)"
      "unat (of_nat k :: u16) = k" "k < length (t_fdtbl (cur s1))"
    using fd_open_run [OF tbl, of d "n_device nd"] by blast
  have "fsn_open c s = Done (n_device nd) s"
    using node(3,4) by (simp add: fsn_open_def cpiofs_open_file_def get_node_def)
  then have "sys_open out pathname flags mode s = Done (ucast (of_nat k :: u16)) (fd_opened k d (n_device nd) s1)"
    using cstring_run [OF path(1)] locate_run [OF path(2) refl node(1)] node(2,5) heap k(1) by (simp add: sys_open_def)
  with k that show thesis by blast
qed


definition demo_open :: calls where
  "demo_open = demo_calls\<lparr>FSRootNode := 0x100,
     nodes := [0x100 \<mapsto> tmpfs_dir_tmpl\<lparr>n_first_child := 0x200\<rparr>, 0x200 \<mapsto> cpiofs_file_tmpl\<lparr>n_name := ''a'', n_device := 0x800\<rparr>],
     files := [0x800 \<mapsto> \<lparr>f_kind = KCpio, f_pos = 0, f_length = 2, f_data = None, f_base = 0x2000\<rparr>],
     vmem := (\<lambda>_. 0)(0x2000 := 104, 0x2001 := 105, 0x2002 := 97)\<rparr>"

lemma demo_open_simps [simp]:
  "FSRootNode demo_open = 0x100" "vmem demo_open = (\<lambda>_. 0)(0x2000 := 104, 0x2001 := 105, 0x2002 := 97)"
  "nodes demo_open = [0x100 \<mapsto> tmpfs_dir_tmpl\<lparr>n_first_child := 0x200\<rparr>, 0x200 \<mapsto> cpiofs_file_tmpl\<lparr>n_name := ''a'', n_device := 0x800\<rparr>]"
  "files demo_open = [0x800 \<mapsto> \<lparr>f_kind = KCpio, f_pos = 0, f_length = 2, f_data = None, f_base = 0x2000\<rparr>]"
  "CurrentTask demo_open = 0x9000" "tasks demo_open = tasks demo_procs"
  by (simp_all add: demo_open_def demo_calls_def scheds.defs)


text \<open>The device belongs to the node, not to the descriptor: whoever opens the file again goes on reading where the last reader
  stopped.\<close>

lemma reopen_shares_position:
  assumes "nodes s c = Some nd" "n_open nd = Some CpiofsOpen"
  shows "fsn_open c s = Done (n_device nd) s"
  using assms by (simp add: fsn_open_def cpiofs_open_file_def get_node_def)

end
