(* ===== verification/Boot.thy ===== *)
theory Boot
  imports Syscall
begin

text \<open>
  Boot: the boot loader's information (\<^verbatim>\<open>arch/x86/boot/multibootimpl.c\<close>, \<^verbatim>\<open>multiboot2.h\<close>), the architecture's
  initialisation (\<^verbatim>\<open>arch/x86/boot/init.c\<close>), the module table (\<^verbatim>\<open>kernel/module.c\<close>), the first terminal
  (\<^verbatim>\<open>kernel/tty/console.c\<close>) and \<^verbatim>\<open>kmain\<close>. The boot information is read through the page tables, as
  the code reads it. The loops over its tags step by the sizes stored in it, so they are partial functions.
\<close>

subsection \<open>The boot loader's information\<close>

definition MULTIBOOT2_BOOTLOADER_MAGIC :: u32 where "MULTIBOOT2_BOOTLOADER_MAGIC = 0x36d76289"
definition MULTIBOOT_TAG_TYPE_END :: u32 where "MULTIBOOT_TAG_TYPE_END = 0"
definition MULTIBOOT_TAG_TYPE_MODULE :: u32 where "MULTIBOOT_TAG_TYPE_MODULE = 3"
definition MULTIBOOT_TAG_TYPE_BASIC_MEMINFO :: u32 where "MULTIBOOT_TAG_TYPE_BASIC_MEMINFO = 4"
definition MULTIBOOT_TAG_TYPE_MMAP :: u32 where "MULTIBOOT_TAG_TYPE_MMAP = 6"
definition MULTIBOOT_MEMORY_AVAILABLE :: u32 where "MULTIBOOT_MEMORY_AVAILABLE = 1"

lemmas multiboot_numbers = MULTIBOOT_TAG_TYPE_END_def MULTIBOOT_TAG_TYPE_MODULE_def MULTIBOOT_TAG_TYPE_BASIC_MEMINFO_def
  MULTIBOOT_TAG_TYPE_MMAP_def MULTIBOOT_MEMORY_AVAILABLE_def

text \<open>The fields of the tags; of a 64-bit field the code uses the low half.\<close>

definition tag_type :: "vaddr_t \<Rightarrow> ('a machine_scheme, u32) kern" where "tag_type tag = virt_get32 tag"
definition tag_size :: "vaddr_t \<Rightarrow> ('a machine_scheme, u32) kern" where "tag_size tag = virt_get32 (tag + 4)"
definition meminfo_mem_upper :: "vaddr_t \<Rightarrow> ('a machine_scheme, u32) kern" where "meminfo_mem_upper tag = virt_get32 (tag + 12)"
definition mmap_entry_size :: "vaddr_t \<Rightarrow> ('a machine_scheme, u32) kern" where "mmap_entry_size tag = virt_get32 (tag + 8)"
definition mod_start :: "vaddr_t \<Rightarrow> ('a machine_scheme, u32) kern" where "mod_start tag = virt_get32 (tag + 8)"
definition mod_end :: "vaddr_t \<Rightarrow> ('a machine_scheme, u32) kern" where "mod_end tag = virt_get32 (tag + 12)"
definition entry_addr :: "vaddr_t \<Rightarrow> ('a machine_scheme, u32) kern" where "entry_addr entry = virt_get32 entry"
definition entry_len :: "vaddr_t \<Rightarrow> ('a machine_scheme, u32) kern" where "entry_len entry = virt_get32 (entry + 8)"
definition entry_type :: "vaddr_t \<Rightarrow> ('a machine_scheme, u32) kern" where "entry_type entry = virt_get32 (entry + 16)"

lemmas tag_fields = tag_type_def tag_size_def meminfo_mem_upper_def mmap_entry_size_def mod_start_def mod_end_def
  entry_addr_def entry_len_def entry_type_def

record hwinfo =
  mem_max :: paddr_t

record boots = calls +
  HardwareInfo :: hwinfo

definition multiboot_validate :: "u32 \<Rightarrow> paddr_t \<Rightarrow> ('s, bool) kern" where
  "multiboot_validate magic mb_info =
     (if magic \<noteq> MULTIBOOT2_BOOTLOADER_MAGIC then kstop (Panic ''bad multiboot magic'') else kret True)"

definition vmmap :: "vaddr_t \<Rightarrow> vaddr_t \<Rightarrow> ('a brks_scheme, unit) kern" where
  "vmmap start end =
     kthen (pg_map_sequence (KBSSTOPHYS start) start (end - start + PAGE_SIZE))
    (kbind (kget CurrentTask) (\<lambda>me.
     kthen (task_brk me end)
           (kmod (\<lambda>s. s\<lparr>curbrk := t_brk (cur s)\<rparr>))))"

definition next_tag :: "vaddr_t \<Rightarrow> ('a machine_scheme, vaddr_t) kern" where
  "next_tag tag = kbind (tag_size tag) (\<lambda>size. kret (tag + ((size + 7) AND NOT 7)))"

text \<open>The loop that looks for the size of memory, the loop over the entries of a memory map (\<open>i\<close> is a signed integer), and
  the loop over the tags.\<close>

partial_function (option) meminfo_loop ::
  "'a boots_scheme malloc_t \<Rightarrow> vaddr_t \<Rightarrow> 'a boots_scheme \<Rightarrow> (stop + unit \<times> 'a boots_scheme) option" where
  "meminfo_loop malloc tag s = kbind (tag_type tag) (\<lambda>ty.
     if ty = MULTIBOOT_TAG_TYPE_END then kret ()
     else if ty \<noteq> MULTIBOOT_TAG_TYPE_BASIC_MEMINFO then kbind (next_tag tag) (\<lambda>tag. meminfo_loop malloc tag)
     else kbind (meminfo_mem_upper tag) (\<lambda>mem_upper.
       kthen (kmod (\<lambda>s. s\<lparr>HardwareInfo := \<lparr>mem_max = (mem_upper + 1024) * 1024\<rparr>\<rparr>))
             (frame_alloc_init malloc ((mem_upper + 1024) * 1024)))) s"

partial_function (option) mmap_loop ::
  "vaddr_t \<Rightarrow> vaddr_t \<Rightarrow> u32 \<Rightarrow> 'a frames_scheme \<Rightarrow> (stop + unit \<times> 'a frames_scheme) option" where
  "mmap_loop tag entry i s = kbind (tag_size tag) (\<lambda>size.
     if sint i < sint size then
       kbind (entry_type entry) (\<lambda>ty.
       kthen (kwhen (ty = MULTIBOOT_MEMORY_AVAILABLE)
         (kbind (entry_addr entry) (\<lambda>addr. kbind (entry_len entry) (\<lambda>len. frame_clear_range addr (addr + len)))))
      (kbind (mmap_entry_size tag) (\<lambda>entry_size. mmap_loop tag (entry + entry_size) (i + entry_size))))
     else kret ()) s"

definition map_module :: "vaddr_t \<Rightarrow> ('a cpios_scheme, unit) kern" where
  "map_module tag =
     kbind (mod_start tag) (\<lambda>start. kbind (mod_end tag) (\<lambda>end.
     kthen (kmod (\<lambda>s. s\<lparr>InitrdStart := start, InitrdEnd := end\<rparr>))
    (kthen (frame_set_range start end)
           (kmod (\<lambda>s. s\<lparr>Initrd := PHYSTOKBSS start\<rparr>)))))"

partial_function (option) tags_loop :: "vaddr_t \<Rightarrow> 'a cpios_scheme \<Rightarrow> (stop + unit \<times> 'a cpios_scheme) option" where
  "tags_loop tag s = kbind (tag_type tag) (\<lambda>ty.
     if ty = MULTIBOOT_TAG_TYPE_END then kret ()
     else kthen (kwhen (ty = MULTIBOOT_TAG_TYPE_MMAP) (mmap_loop tag (tag + 16) 0))
         (kthen (kwhen (ty = MULTIBOOT_TAG_TYPE_MODULE) (map_module tag))
                (kbind (next_tag tag) (\<lambda>tag. tags_loop tag)))) s"

definition multiboot_mmap :: "'a boots_scheme malloc_t \<Rightarrow> paddr_t \<Rightarrow> ('a boots_scheme, unit) kern" where
  "multiboot_mmap malloc mb_info_phys =
     (let mb_info = PHYSTOKBSS mb_info_phys in
      kthen (vmmap KTEXT (mb_info + 4))
     (kbind (virt_get32 mb_info) (\<lambda>mb_size.
      kthen (vmmap KTEXT (mb_info + mb_size))
     (kthen (meminfo_loop malloc (mb_info + 8))
            (tags_loop (mb_info + 8))))))"

definition arch_init :: "'a boots_scheme malloc_t \<Rightarrow> paddr_t \<Rightarrow> ('a boots_scheme, unit) kern" where
  "arch_init malloc mb_info = kseq [gdt_init, idt_init, pg_init, pit_init, multiboot_mmap malloc mb_info,
     kbind (kget (\<lambda>s. t_brk (cur s))) (\<lambda>brk. frame_set_range 0 (KBSSTOPHYS brk)),
     pg_unmap_low_kernel]"

subsection \<open>Modules\<close>

text \<open>The functions the linker collects in a section, in its order; all of them run, also after a failure.\<close>

primrec modules_run :: "('s, bool) kern list \<Rightarrow> bool \<Rightarrow> ('s, bool) kern" where
  "modules_run [] success = kret success"
| "modules_run (fn # fns) success = kbind fn (\<lambda>r. modules_run fns (if \<not> r then False else success))"

definition modules_init :: "('s, bool) kern list \<Rightarrow> ('s, bool) kern" where
  "modules_init modinit = modules_run modinit True"

definition modules_exit :: "('s, bool) kern list \<Rightarrow> ('s, bool) kern" where
  "modules_exit modexit = modules_run modexit True"

subsection \<open>The kernel's main function\<close>

definition CONSOLE_DEV :: string where "CONSOLE_DEV = ''/dev/tty''"

definition console_init :: "'s stdio \<Rightarrow> ('s, unit) kern" where
  "console_init io =
     kbind (c_fopen io CONSOLE_DEV) (\<lambda>fd.
     if fd = NULL then kstop (Panic ''Unable to open /dev/tty'')
     else kbind (c_fopen io CONSOLE_DEV) (\<lambda>_. kbind (c_fopen io CONSOLE_DEV) (\<lambda>_. kret ())))"

text \<open>\<^verbatim>\<open>kmain\<close> up to the point where interrupts are on, and the rest: the greeting, and a fork of which the parent loops
  for ever and the child becomes the first program. \<open>fork\<close>, \<open>fwrite\<close> and \<open>execve\<close> are the C library's.\<close>

definition kmain_init :: "'a boots_scheme outside \<Rightarrow> ('a boots_scheme, unit) kern" where
  "kmain_init out = kseq [syscall_arch_init, mem_syscall_init, proc_init, signal_init, fdio_init, sched_init,
     fs_create_rootfs (out_malloc out),
     kbind (kget FSRootNode) (\<lambda>root. initrd_mount (out_malloc out) root),
     uname_syscall_init, user_syscall_init,
     kbind (modules_init [console_register (out_malloc out)]) (\<lambda>ok.
       if \<not> ok then kstop (Panic ''modules_init failed'') else kret ()),
     console_init (out_stdio out),
     task_unmask_preempt, intr_enable]"

definition kmain_start :: "'s stdio \<Rightarrow> (vaddr_t \<Rightarrow> u32 \<Rightarrow> ('s, unit) kern) \<Rightarrow> ('s, u32) kern
     \<Rightarrow> (string \<Rightarrow> string list \<Rightarrow> string list \<Rightarrow> ('s, outcome) kern) \<Rightarrow> vaddr_t \<Rightarrow> ('s, outcome) kern" where
  "kmain_start io fwrite fork execve buf =
     kbind (c_fopen io ''/initrd/hello_world.txt'') (\<lambda>fd.
     kbind (c_fread io buf 256 fd) (\<lambda>len.
     kthen (c_fclose io fd)
    (kthen (fwrite buf len)
    (kbind fork (\<lambda>pid.
     if pid \<noteq> 0 then kret Idles
     else execve ''/initrd/dash'' [''/initrd/dash''] [''foo=bar''])))))"

subsection \<open>What the boot information says\<close>

text \<open>The tags in memory as a list: a memory map with its entries (base, length, available), a module with its bounds, or any other
  tag. \<open>word_at\<close>: the four bytes are mapped and hold the word.\<close>

datatype mbtag = MbMmap "(u32 \<times> u32 \<times> bool) list" | MbModule u32 u32 | MbOther

definition word_at :: "'a machine_scheme \<Rightarrow> vaddr_t \<Rightarrow> u32 \<Rightarrow> bool" where
  "word_at s a v \<longleftrightarrow> list_all (\<lambda>k. translate (mem s) (cr3 s) (a + of_nat k) \<noteq> None) [0..<4] \<and> get32 (uview s) a = v"

fun entries_at :: "'a machine_scheme \<Rightarrow> vaddr_t \<Rightarrow> (u32 \<times> u32 \<times> bool) list \<Rightarrow> bool" where
  "entries_at s a [] \<longleftrightarrow> (\<exists>ty. ty \<noteq> MULTIBOOT_MEMORY_AVAILABLE \<and> word_at s (a + 16) ty)"
| "entries_at s a ((base, len, av) # es) \<longleftrightarrow> word_at s a base \<and> word_at s (a + 8) len
     \<and> (\<exists>ty. word_at s (a + 16) ty \<and> (ty = MULTIBOOT_MEMORY_AVAILABLE) = av) \<and> entries_at s (a + 24) es"

fun tag_at :: "'a machine_scheme \<Rightarrow> vaddr_t \<Rightarrow> u32 \<Rightarrow> mbtag \<Rightarrow> bool" where
  "tag_at s a sz (MbMmap es) \<longleftrightarrow> word_at s a MULTIBOOT_TAG_TYPE_MMAP \<and> word_at s (a + 8) 24
     \<and> unat sz = 16 + 24 * length es \<and> unat sz + 8 < 2 ^ 31 \<and> entries_at s (a + 16) es"
| "tag_at s a sz (MbModule b e) \<longleftrightarrow> word_at s a MULTIBOOT_TAG_TYPE_MODULE \<and> word_at s (a + 8) b \<and> word_at s (a + 12) e"
| "tag_at s a sz MbOther \<longleftrightarrow> (\<exists>ty. word_at s a ty
     \<and> ty \<notin> {MULTIBOOT_TAG_TYPE_END, MULTIBOOT_TAG_TYPE_MMAP, MULTIBOOT_TAG_TYPE_MODULE})"

fun tags_at :: "'a machine_scheme \<Rightarrow> vaddr_t \<Rightarrow> (u32 \<times> mbtag) list \<Rightarrow> bool" where
  "tags_at s a [] \<longleftrightarrow> word_at s a MULTIBOOT_TAG_TYPE_END"
| "tags_at s a ((sz, t) # ts) \<longleftrightarrow> word_at s (a + 4) sz \<and> tag_at s a sz t \<and> tags_at s (a + ((sz + 7) AND NOT 7)) ts"

text \<open>What it means for the set of frames in use: the frames of available memory become free, those of a module are taken. A range
  includes the page after its end.\<close>

definition range_frames :: "u32 \<Rightarrow> u32 \<Rightarrow> nat set" where
  "range_frames b e = page_of ` set (page_list b (e + PAGE_SIZE))"

fun free_entry :: "u32 \<times> u32 \<times> bool \<Rightarrow> nat set \<Rightarrow> nat set" where
  "free_entry (base, len, av) U = (if av then U - range_frames base (base + len) else U)"

fun tag_frames :: "mbtag \<Rightarrow> nat set \<Rightarrow> nat set" where
  "tag_frames (MbMmap es) U = fold free_entry es U"
| "tag_frames (MbModule b e) U = U \<union> range_frames b e"
| "tag_frames MbOther U = U"

fun tag_initrd :: "mbtag \<Rightarrow> vaddr_t \<Rightarrow> vaddr_t" where
  "tag_initrd (MbModule b e) a = PHYSTOKBSS b"
| "tag_initrd _ a = a"

definition range_fits :: "nat \<Rightarrow> u32 \<Rightarrow> u32 \<Rightarrow> bool" where
  "range_fits cap b e \<longleftrightarrow> e + PAGE_SIZE \<le> 0xFFFFF000 \<and> (\<forall>n \<in> range_frames b e. n < cap)"

fun tag_fits :: "nat \<Rightarrow> mbtag \<Rightarrow> bool" where
  "tag_fits cap (MbMmap es) \<longleftrightarrow> (\<forall>(base, len, av) \<in> set es. av \<longrightarrow> range_fits cap base (base + len))"
| "tag_fits cap (MbModule b e) \<longleftrightarrow> range_fits cap b e"
| "tag_fits cap MbOther \<longleftrightarrow> True"

lemma word_at_read: "word_at s a v \<Longrightarrow> virt_get32 a s = Done v s"
  by (simp add: word_at_def virt_struct_def)

lemma word_at_cong: "mem t = mem s \<Longrightarrow> cr3 t = cr3 s \<Longrightarrow> word_at t a v = word_at s a v"
proof -
  assume "mem t = mem s" "cr3 t = cr3 s"
  then have "uview t = uview s" by (intro ext) (simp add: uview_def split: option.split)
  with \<open>mem t = mem s\<close> \<open>cr3 t = cr3 s\<close> show ?thesis by (simp add: word_at_def)
qed

lemma entries_at_cong: "mem t = mem s \<Longrightarrow> cr3 t = cr3 s \<Longrightarrow> entries_at t a es = entries_at s a es"
  by (induction es arbitrary: a) (auto simp: word_at_cong [of t s])

lemma tag_at_cong: "mem t = mem s \<Longrightarrow> cr3 t = cr3 s \<Longrightarrow> tag_at t a sz x = tag_at s a sz x"
  by (cases x) (auto simp: word_at_cong [of t s] entries_at_cong [of t s])

lemma tags_at_cong: "mem t = mem s \<Longrightarrow> cr3 t = cr3 s \<Longrightarrow> tags_at t a ts = tags_at s a ts"
  by (induction ts arbitrary: a) (auto simp: word_at_cong [of t s] tag_at_cong [of t s])

definition only_frames :: "'a frames_scheme \<Rightarrow> 'a frames_scheme \<Rightarrow> bool" where
  "only_frames s t \<longleftrightarrow> frames_wf t \<and> frame_capacity t = frame_capacity s \<and> (\<exists>bm. t = s\<lparr>FrameBitmap := bm\<rparr>)"

lemma only_frames_refl: "frames_wf s \<Longrightarrow> only_frames s s"
  by (auto simp: only_frames_def intro: exI [of _ "FrameBitmap s"])

lemma only_frames_trans: "only_frames s t \<Longrightarrow> only_frames t u \<Longrightarrow> only_frames s u"
  by (auto simp: only_frames_def)

lemma only_frames_mem: "only_frames s t \<Longrightarrow> mem t = mem s \<and> cr3 t = cr3 s"
  by (auto simp: only_frames_def)

lemma frame_step_only:
  assumes "only_frames s t" "page_of p < frame_capacity s"
  shows "runs (frame_clear p) t (\<lambda>_ u. only_frames s u \<and> frame_used u = frame_used t - {page_of p})"
    "runs (frame_set p) t (\<lambda>_ u. only_frames s u \<and> frame_used u = insert (page_of p) (frame_used t))"
proof -
  have t: "frames_wf t" "FrameAllocInitialized t" "page_of p < frame_capacity t" "\<exists>bm. t = s\<lparr>FrameBitmap := bm\<rparr>"
    using assms by (auto simp: only_frames_def frames_wf_def)
  show "runs (frame_clear p) t (\<lambda>_ u. only_frames s u \<and> frame_used u = frame_used t - {page_of p})"
    using frame_clear_used [OF t(1,3)] frame_clear_run [OF t(2,3)] t(4) assms(1) unfolding runs_def only_frames_def by auto
  show "runs (frame_set p) t (\<lambda>_ u. only_frames s u \<and> frame_used u = insert (page_of p) (frame_used t))"
    using frame_set_used [OF t(1,3)] frame_set_run [OF t(2,3)] t(4) assms(1) unfolding runs_def only_frames_def by auto
qed

lemma frame_loop_only:
  assumes "frames_wf s" "\<forall>p \<in> set ps. page_of p < frame_capacity s"
  shows "runs (kfor ps frame_clear) s (\<lambda>_ t. only_frames s t \<and> frame_used t = frame_used s - page_of ` set ps)"
    "runs (kfor ps frame_set) s (\<lambda>_ t. only_frames s t \<and> frame_used t = frame_used s \<union> page_of ` set ps)"
proof -
  show "runs (kfor ps frame_clear) s (\<lambda>_ t. only_frames s t \<and> frame_used t = frame_used s - page_of ` set ps)"
    by (rule runs_kfor [where I = "\<lambda>d t. only_frames s t \<and> frame_used t = frame_used s - page_of ` set d"])
      (use assms in \<open>auto simp: only_frames_refl intro!: runs_weaken [OF frame_step_only(1) [of s]]\<close>)
  show "runs (kfor ps frame_set) s (\<lambda>_ t. only_frames s t \<and> frame_used t = frame_used s \<union> page_of ` set ps)"
    by (rule runs_kfor [where I = "\<lambda>d t. only_frames s t \<and> frame_used t = frame_used s \<union> page_of ` set d"])
      (use assms in \<open>auto simp: only_frames_refl intro!: runs_weaken [OF frame_step_only(2) [of s]]\<close>)
qed

lemma only_frames_range:
  assumes "frames_wf s" "range_fits (frame_capacity s) b e"
  shows "runs (frame_clear_range b e) s (\<lambda>_ t. only_frames s t \<and> frame_used t = frame_used s - range_frames b e)"
    "runs (frame_set_range b e) s (\<lambda>_ t. only_frames s t \<and> frame_used t = frame_used s \<union> range_frames b e)"
proof -
  have "\<forall>p \<in> set (page_list b (e + PAGE_SIZE)). page_of p < frame_capacity s" "e + PAGE_SIZE \<le> 0xFFFFF000"
    using assms(2) by (auto simp: range_fits_def range_frames_def)
  then show "runs (frame_clear_range b e) s (\<lambda>_ t. only_frames s t \<and> frame_used t = frame_used s - range_frames b e)"
    "runs (frame_set_range b e) s (\<lambda>_ t. only_frames s t \<and> frame_used t = frame_used s \<union> range_frames b e)"
    using frame_loop_only [OF assms(1)]
    by (simp_all add: range_frames_def frame_clear_range_def frame_set_range_def runs_def page_loop_kfor)
qed

lemma sint_less: "unat v < 2 ^ 31 \<Longrightarrow> unat w < 2 ^ 31 \<Longrightarrow> sint v < sint w \<longleftrightarrow> unat v < unat w" for v w :: u32
proof -
  have "sint x = uint x" if "unat x < 2 ^ 31" for x :: u32
  proof -
    have "uint x < 2 ^ 31" using that by (simp add: unat_eq_nat_uint nat_less_iff del: nat_uint_eq)
    then show ?thesis using signed_take_bit_int_eq_self [of 31 "uint x"] uint_ge_0 [of x] by (simp add: sint_uint)
  qed
  then show "unat v < 2 ^ 31 \<Longrightarrow> unat w < 2 ^ 31 \<Longrightarrow> sint v < sint w \<longleftrightarrow> unat v < unat w"
    using word_less_def [of v w] word_less_nat_alt [of v w] by presburger
qed

lemma mmap_loop_step:
  assumes "word_at s (tag + 4) sz" "word_at s (tag + 8) 24" "word_at s (entry + 16) ty" "unat i < unat sz" "unat sz < 2 ^ 31"
  shows "mmap_loop tag entry i s = kthen (kwhen (ty = MULTIBOOT_MEMORY_AVAILABLE)
         (kbind (entry_addr entry) (\<lambda>addr. kbind (entry_len entry) (\<lambda>len. frame_clear_range addr (addr + len)))))
      (kbind (mmap_entry_size tag) (\<lambda>entry_size. mmap_loop tag (entry + entry_size) (i + entry_size))) s"
  using assms word_at_read [OF assms(1)] word_at_read [OF assms(3)]
  by (subst mmap_loop.simps) (simp add: tag_fields sint_less)

lemma mmap_loop_run:
  assumes "word_at s (tag + 4) sz" "word_at s (tag + 8) 24" "entries_at s entry es"
    and "unat i + 24 * length es + 16 = unat sz" "unat sz + 8 < 2 ^ 31" "frames_wf s"
    and "\<forall>(base, len, av) \<in> set es. av \<longrightarrow> range_fits (frame_capacity s) base (base + len)"
  shows "runs (mmap_loop tag entry i) s (\<lambda>_ t. only_frames s t \<and> frame_used t = fold free_entry es (frame_used s))"
  using assms
proof (induction es arbitrary: s entry i)
  case Nil
  then obtain ty where ty: "ty \<noteq> MULTIBOOT_MEMORY_AVAILABLE" "word_at s (entry + 16) ty" by auto
  have i: "unat (i + 24) = unat i + 24" using Nil.prems(4,5) by (simp add: unat_word_ariths)
  have "mmap_loop tag (entry + 24) (i + 24) s = Done () s"
    using Nil.prems word_at_read [OF Nil.prems(1)] i by (subst mmap_loop.simps) (simp add: tag_fields sint_less)
  then have "mmap_loop tag entry i s = Done () s"
    using mmap_loop_step [OF Nil.prems(1,2) ty(2), of i] Nil.prems ty(1) word_at_read [OF Nil.prems(2)]
    by (simp add: kwhen_def tag_fields)
  then show ?case using Nil.prems(6) by (simp add: runs_def only_frames_refl)
next
  case (Cons e es)
  obtain base len av where e: "e = (base, len, av)" by (cases e)
  from Cons.prems(3) e obtain ty where ty: "word_at s (entry + 16) ty" "(ty = MULTIBOOT_MEMORY_AVAILABLE) = av"
    "word_at s entry base" "word_at s (entry + 8) len" "entries_at s (entry + 24) es" by auto
  have i: "unat (i + 24) = unat i + 24" using Cons.prems(4,5) by (simp add: unat_word_ariths)
  let ?clear = "kwhen av (kbind (entry_addr entry) (\<lambda>addr. kbind (entry_len entry) (\<lambda>len. frame_clear_range addr (addr + len))))"
  have clear: "runs ?clear s (\<lambda>_ t. only_frames s t \<and> frame_used t = free_entry e (frame_used s))"
  proof (cases av)
    case True
    then have "range_fits (frame_capacity s) base (base + len)" using Cons.prems(7) e by auto
    from only_frames_range(1) [OF Cons.prems(6) this] show ?thesis
      using True word_at_read [OF ty(3)] word_at_read [OF ty(4)] e by (simp add: runs_def kwhen_def tag_fields)
  qed (use Cons.prems(6) e in \<open>simp add: runs_def kwhen_def only_frames_refl\<close>)
  show ?case
    unfolding runs_def
  proof -
    from clear obtain t where t: "?clear s = Done () t" "only_frames s t" "frame_used t = free_entry e (frame_used s)"
      unfolding runs_def by auto
    note m = only_frames_mem [OF t(2)]
    have "runs (mmap_loop tag (entry + 24) (i + 24)) t (\<lambda>_ u. only_frames t u \<and> frame_used u = fold free_entry es (frame_used t))"
      by (rule Cons.IH)
        (use Cons.prems t ty i m e in \<open>auto simp: word_at_cong [of t s] entries_at_cong [of t s] only_frames_def\<close>)
    then obtain u where u: "mmap_loop tag (entry + 24) (i + 24) t = Done () u" "only_frames t u"
      "frame_used u = fold free_entry es (frame_used t)" unfolding runs_def by auto
    have "word_at t (tag + 8) 24" using Cons.prems(2) m word_at_cong by blast
    then have "mmap_loop tag entry i s = Done () u"
      using mmap_loop_step [OF Cons.prems(1,2) ty(1), of i] Cons.prems(4,5) ty(2) t(1) u(1) word_at_read [of t "tag + 8" 24]
      by (simp add: tag_fields)
    then show "\<exists>a u. mmap_loop tag entry i s = Done a u \<and> only_frames s u \<and> frame_used u = fold free_entry (e # es) (frame_used s)"
      using u(2,3) t(2,3) only_frames_trans by auto
  qed
qed

text \<open>One tag: it changes the frames as the specification says, the archive's address if it is a module, and neither the memory nor
  the size of the bitmap.\<close>

definition tag_step :: "'a cpios_scheme \<Rightarrow> mbtag \<Rightarrow> 'a cpios_scheme \<Rightarrow> bool" where
  "tag_step s x t \<longleftrightarrow> frames_wf t \<and> frame_capacity t = frame_capacity s \<and> mem t = mem s \<and> cr3 t = cr3 s
     \<and> frame_used t = tag_frames x (frame_used s) \<and> Initrd t = tag_initrd x (Initrd s)"

lemma only_frames_step:
  "only_frames s t \<Longrightarrow> frame_used t = tag_frames x (frame_used s) \<Longrightarrow> tag_initrd x (Initrd s) = Initrd s \<Longrightarrow> tag_step s x t"
  by (auto simp: tag_step_def only_frames_def)

lemma map_module_run:
  assumes "word_at s (a + 8) b" "word_at s (a + 12) e" "frames_wf s" "range_fits (frame_capacity s) b e"
  shows "runs (map_module a) s (\<lambda>_ t. tag_step s (MbModule b e) t)"
proof -
  let ?s = "s\<lparr>InitrdStart := b, InitrdEnd := e\<rparr>"
  have "frames_wf ?s" "range_fits (frame_capacity ?s) b e" using assms(3,4) by (simp_all add: frames_wf_def frame_capacity_def)
  from only_frames_range(2) [OF this] obtain t where "frame_set_range b e ?s = Done () t" "only_frames ?s t"
    "frame_used t = frame_used s \<union> range_frames b e" unfolding runs_def by auto
  then show ?thesis
    using word_at_read [OF assms(1)] word_at_read [OF assms(2)]
    by (auto simp: runs_def map_module_def tag_fields tag_step_def only_frames_def frames_wf_def frame_capacity_def)
qed

lemma tag_run:
  assumes "word_at s (a + 4) sz" "tag_at s a sz x" "frames_wf s" "tag_fits (frame_capacity s) x"
  obtains t where "tag_step s x t" "tags_loop a s = tags_loop (a + ((sz + 7) AND NOT 7)) t"
proof -
  obtain ty where ty: "word_at s a ty" "ty \<noteq> MULTIBOOT_TAG_TYPE_END" "(ty = MULTIBOOT_TAG_TYPE_MMAP) = (\<exists>es. x = MbMmap es)"
    "(ty = MULTIBOOT_TAG_TYPE_MODULE) = (\<exists>b e. x = MbModule b e)"
    using assms(2) by (cases x) (auto simp: multiboot_numbers)
  define body where "body = kthen (kwhen (ty = MULTIBOOT_TAG_TYPE_MMAP) (mmap_loop a (a + 16) 0))
       (kwhen (ty = MULTIBOOT_TAG_TYPE_MODULE) (map_module a) :: ('a cpios_scheme, unit) kern)"
  have "runs body s (\<lambda>_ t. tag_step s x t)"
  proof (cases x)
    case (MbMmap es)
    then have "runs (mmap_loop a (a + 16) 0) s (\<lambda>_ t. only_frames s t \<and> frame_used t = fold free_entry es (frame_used s))"
      using assms by (intro mmap_loop_run [where sz = sz]) auto
    then show ?thesis using ty MbMmap by (auto simp: runs_def body_def kwhen_def intro!: only_frames_step)
  next
    case (MbModule b e)
    then have "runs (map_module a) s (\<lambda>_ t. tag_step s (MbModule b e) t)" using assms by (intro map_module_run) auto
    then show ?thesis using ty MbModule by (simp add: runs_def body_def kwhen_def)
  next
    case MbOther
    then show ?thesis using ty assms(3) only_frames_refl by (auto simp: runs_def body_def kwhen_def intro!: only_frames_step)
  qed
  then obtain t where t: "body s = Done () t" "tag_step s x t" unfolding runs_def by auto
  then have "word_at t (a + 4) sz" using assms(1) word_at_cong [of t s] by (simp add: tag_step_def)
  from word_at_read [OF this] have next_tag: "next_tag a t = Done (a + ((sz + 7) AND NOT 7)) t"
    by (simp add: next_tag_def tag_fields)
  have "tags_loop a s = kthen body (kbind (next_tag a) (\<lambda>tag. tags_loop tag)) s"
    using word_at_read [OF ty(1)] ty(2) by (subst tags_loop.simps) (simp add: tag_fields body_def kthen_assoc)
  also have "\<dots> = tags_loop (a + ((sz + 7) AND NOT 7)) t" using t(1) next_tag by simp
  finally show thesis using that t(2) by blast
qed

lemma tags_loop_run:
  assumes "tags_at s a ts" "frames_wf s" "\<forall>(sz, x) \<in> set ts. tag_fits (frame_capacity s) x"
  shows "runs (tags_loop a) s (\<lambda>_ t. frames_wf t \<and> frame_used t = fold tag_frames (map snd ts) (frame_used s)
     \<and> Initrd t = fold tag_initrd (map snd ts) (Initrd s))"
  using assms
proof (induction ts arbitrary: s a)
  case Nil
  then have "word_at s a MULTIBOOT_TAG_TYPE_END" by simp
  from word_at_read [OF this] have "tags_loop a s = Done () s" by (subst tags_loop.simps) (simp add: tag_fields)
  then show ?case using Nil by (simp add: runs_def)
next
  case (Cons y ts)
  obtain sz x where y: "y = (sz, x)" by (cases y)
  from tag_run [of s a sz x] Cons.prems y obtain t where t: "tag_step s x t" "tags_loop a s = tags_loop (a + ((sz + 7) AND NOT 7)) t"
    by auto
  have "runs (tags_loop (a + ((sz + 7) AND NOT 7))) t (\<lambda>_ u. frames_wf u \<and> frame_used u = fold tag_frames (map snd ts) (frame_used t)
     \<and> Initrd u = fold tag_initrd (map snd ts) (Initrd t))"
    by (rule Cons.IH) (use Cons.prems t(1) y tags_at_cong [of t s] in \<open>auto simp: tag_step_def\<close>)
  then show ?case using t y by (auto simp: runs_def tag_step_def)
qed


definition demo_boot :: cpios where
  "demo_boot = demo_cpios\<lparr>cr3 := 0x1000,
     mem := (\<lambda>_. 0)(0x1000 := 0x83, 0x2000 := 6, 0x2004 := 40, 0x2008 := 24, 0x2011 := 0x10, 0x2019 := 0x10, 0x2020 := 1)\<rparr>"

lemma demo_boot_mem: "mem demo_boot = (\<lambda>_. 0)(0x1000 := 0x83, 0x2000 := 6, 0x2004 := 40, 0x2008 := 24, 0x2011 := 0x10,
    0x2019 := 0x10, 0x2020 := 1)" "cr3 demo_boot = 0x1000"
  by (simp_all add: demo_boot_def)

lemma demo_boot_word:
  "a < 0x300000 \<Longrightarrow> word_at demo_boot a (get32 (mem demo_boot) a)"
proof -
  assume a: "a < 0x300000"
  have tr: "translate (mem demo_boot) (cr3 demo_boot) u = Some u" if "u < 0x400000" for u
  proof -
    have "ADDR_PDE u = 0" using that by (simp add: ADDR_PDE_def drop_bit_eq_div word_less_nat_alt unat_div)
    moreover have "u AND 0x3FFFFF = u"
    proof -
      have "unat u < 2 ^ 22" using that by (simp add: word_less_nat_alt)
      then have "unat (take_bit 22 u) = unat u" by (simp only: unsigned_take_bit_eq take_bit_nat_eq_self)
      then have "u AND mask 22 = u" by (simp only: word_unat_eq_iff take_bit_eq_mask)
      then show ?thesis by (simp add: mask_eq_exp_minus_1)
    qed
    moreover have "ent_get (mem demo_boot) (cr3 demo_boot) 0 = 0x83" by (simp add: demo_boot_mem ent_get_def get32_def)
    moreover have "0x83 AND PAGE_EXTENDED \<noteq> 0" "0x83 AND PAGE_PRESENT \<noteq> 0" "PDE_ADDR 0x83 = 0"
      by (simp_all add: PAGE_EXTENDED_def PAGE_PRESENT_def PDE_ADDR_def PDE_ADDR_MASK_def)
    ultimately show ?thesis by (simp add: translate_def Let_def)
  qed
  have "a + of_nat k < 0x400000" if "k < 4" for k
  proof -
    have "unat (of_nat k :: u32) = k" using that by (simp add: unat_of_nat)
    then have "unat (a + of_nat k) = unat a + k" using a that unat_add_lem [of a "of_nat k"] by (simp add: word_less_nat_alt)
    then show ?thesis using a that by (simp add: word_less_nat_alt)
  qed
  then have t4: "translate (mem demo_boot) (cr3 demo_boot) (a + of_nat k) = Some (a + of_nat k)" if "k < 4" for k using tr that by blast
  have "uview demo_boot (a + of_nat k) = mem demo_boot (a + of_nat k)" if "k < 4" for k using t4 [OF that] by (simp add: uview_def)
  from this [of 0] this [of 1] this [of 2] this [of 3] show ?thesis
    using t4 by (simp add: word_at_def get32_def list_all_iff)
qed


text \<open>The bound of the loop over the entries is the size of the whole tag, with its header of 16 bytes: after the last entry the code
  takes the bytes that follow the tag for one more. If they look like available memory, the frames they name become free.\<close>

lemma mmap_reads_past_tag:
  assumes "word_at s (tag + 4) 16" "word_at s (tag + 8) 24" "word_at s (entry + 16) MULTIBOOT_MEMORY_AVAILABLE"
    and "word_at s entry base" "word_at s (entry + 8) len" "frames_wf s" "range_fits (frame_capacity s) base (base + len)"
  shows "runs (mmap_loop tag entry 0) s (\<lambda>_ t. frame_used t = frame_used s - range_frames base (base + len))"
proof -
  from only_frames_range(1) [OF assms(6,7)] obtain t where t: "frame_clear_range base (base + len) s = Done () t" "only_frames s t"
    "frame_used t = frame_used s - range_frames base (base + len)" unfolding runs_def by auto
  then have "word_at t (tag + 4) 16" "word_at t (tag + 8) 24" using assms(1,2) word_at_cong [of t s] only_frames_mem by blast+
  then have "mmap_loop tag (entry + 24) 24 t = Done () t" "virt_get32 (tag + 8) t = Done 24 t"
    using word_at_read [of t "tag + 4" 16] word_at_read [of t "tag + 8" 24]
    by (subst mmap_loop.simps, simp_all add: tag_fields sint_less)
  then show ?thesis
    using mmap_loop_step [OF assms(1-3), of 0] t word_at_read [OF assms(4)] word_at_read [OF assms(5)]
    by (simp add: runs_def kwhen_def tag_fields)
qed

text \<open>A region that ends where the memory ends: the page after its end has no bit when the number of frames is a multiple of 32.\<close>

lemma last_region_overruns:
  assumes "frames_wf s" "page_of e = frame_capacity s" "page_aligned e" "e < 0xFFFFF000"
  shows "frame_clear_range e e s = Halt BadAccess"
proof -
  have "page_list e (e + PAGE_SIZE) = e # page_list (e + PAGE_SIZE) (e + PAGE_SIZE)"
    using page_list_Cons [of e "e + PAGE_SIZE"] range_limit [OF assms(3,4)] unat_next_page [of e "0xFFFFF000"] assms(4)
    by (simp add: word_less_nat_alt)
  then have "page_list e (e + PAGE_SIZE) = [e]" by (simp add: page_list_Nil)
  then show ?thesis
    using frame_clear_outside [of s e] assms(1,2)
    by (simp add: frame_clear_range_def page_loop_kfor [OF range_limit [OF assms(3,4)]] frames_wf_def)
qed

text \<open>Initialising the modules calls every one of them, also after one has failed, and reports success exactly when all of them
  succeeded.\<close>

theorem modules_init_runs_all:
  "modules_init (map (\<lambda>(b, f). kthen (kmod f) (kret b)) ms) s = Done (\<forall>(b, f) \<in> set ms. b) (fold snd ms s)"
proof -
  have "modules_run (map (\<lambda>(b, f). kthen (kmod f) (kret b)) ms) ok s = Done (ok \<and> (\<forall>(b, f) \<in> set ms. b)) (fold snd ms s)" for ok
    by (induction ms arbitrary: s ok) auto
  then show ?thesis by (simp add: modules_init_def)
qed

lemma bad_multiboot_magic: "magic \<noteq> MULTIBOOT2_BOOTLOADER_MAGIC \<Longrightarrow> multiboot_validate magic mb s = Halt (Panic ''bad multiboot magic'')"
  by (simp add: multiboot_validate_def)

end
