(* ===== verification/Cstring.thy ===== *)
theory Cstring
  imports Boot
begin

text \<open>
  The string functions of the C library that kernel and programs are linked with: those that the configuration takes from
  \<^verbatim>\<open>uClibc/libc/string/i386\<close> (written with the processor's string instructions), and those it takes from
  \<^verbatim>\<open>libc/string/generic\<close> and \<^verbatim>\<open>libc/string\<close>. They are functions on the bytes of memory; a loop that only the
  terminating zero ends is a partial function, and \<open>None\<close> means that it does not end.
\<close>

subsection \<open>String instructions\<close>

text \<open>\<open>repne_scasb m al ecx edi\<close>: the registers ecx and edi and the zero flag after the instruction; the others are the memory after
  copying or storing \<open>n\<close> times, \<open>d\<close> being the step that the direction flag gives.\<close>

function repne_scasb :: "bytes \<Rightarrow> u8 \<Rightarrow> u32 \<Rightarrow> u32 \<Rightarrow> u32 \<times> u32 \<times> bool" where
  "repne_scasb m al ecx edi =
     (if ecx = 0 then (ecx, edi, False)
      else if m edi = al then (ecx - 1, edi + 1, True)
      else repne_scasb m al (ecx - 1) (edi + 1))"
  by pat_completeness auto
termination by (relation "measure (\<lambda>(_, _, ecx, _). unat ecx)") (auto simp: unat_minus_one unat_gt_0)

declare repne_scasb.simps [simp del]

primrec rep_movsb :: "nat \<Rightarrow> u32 \<Rightarrow> u32 \<Rightarrow> u32 \<Rightarrow> bytes \<Rightarrow> bytes" where
  "rep_movsb 0 d edi esi m = m"
| "rep_movsb (Suc n) d edi esi m = rep_movsb n d (edi + d) (esi + d) (m(edi := m esi))"

primrec rep_movsl :: "nat \<Rightarrow> u32 \<Rightarrow> u32 \<Rightarrow> bytes \<Rightarrow> bytes" where
  "rep_movsl 0 edi esi m = m"
| "rep_movsl (Suc n) edi esi m = rep_movsl n (edi + 4) (esi + 4) (set32 m edi (get32 m esi))"

primrec rep_stosb :: "nat \<Rightarrow> u32 \<Rightarrow> u8 \<Rightarrow> bytes \<Rightarrow> bytes" where
  "rep_stosb 0 edi al m = m"
| "rep_stosb (Suc n) edi al m = rep_stosb n (edi + 1) al (m(edi := al))"

primrec rep_stosl :: "nat \<Rightarrow> u32 \<Rightarrow> u32 \<Rightarrow> bytes \<Rightarrow> bytes" where
  "rep_stosl 0 edi eax m = m"
| "rep_stosl (Suc n) edi eax m = rep_stosl n (edi + 4) eax (set32 m edi eax)"

subsection \<open>Blocks\<close>

definition memcpy :: "bytes \<Rightarrow> u32 \<Rightarrow> u32 \<Rightarrow> u32 \<Rightarrow> u32 \<times> bytes" where
  "memcpy m to from n =
     (let m = rep_movsl (unat (n div 4)) to from m; ecx = n AND 3; edi = to + 4 * (n div 4); esi = from + 4 * (n div 4)
      in (to, if ecx = 0 then m else rep_movsb (unat ecx) 1 edi esi m))"

definition mempcpy :: "bytes \<Rightarrow> u32 \<Rightarrow> u32 \<Rightarrow> u32 \<Rightarrow> u32 \<times> bytes" where
  "mempcpy m dstpp srcpp len = (dstpp + len, snd (memcpy m dstpp srcpp len))"

definition memmove :: "bytes \<Rightarrow> u32 \<Rightarrow> u32 \<Rightarrow> u32 \<Rightarrow> u32 \<times> bytes" where
  "memmove m dest src n =
     (if dest = src then (dest, m)
      else if dest < src then (dest, rep_movsb (unat n) 1 dest src m)
      else (dest, rep_movsb (unat n) (- 1) (dest + n - 1) (src + n - 1) m))"

definition memset :: "bytes \<Rightarrow> u32 \<Rightarrow> u32 \<Rightarrow> u32 \<Rightarrow> u32 \<times> bytes" where
  "memset m s c count =
     (let al = ucast c :: u8; ecx = drop_bit 2 count; reg = count AND 3;
          m = (if ecx = 0 then m else rep_stosl (unat ecx) s (ucast al * 0x01010101) m);
          edi = s + 4 * ecx
      in (s, if reg = 0 then m else rep_stosb (unat reg) edi al m))"

definition memchr :: "bytes \<Rightarrow> u32 \<Rightarrow> u32 \<Rightarrow> u32 \<Rightarrow> u32" where
  "memchr m s c count =
     (if count = 0 then NULL
      else case repne_scasb m (ucast c) count s of (ecx, edi, zf) \<Rightarrow> if zf then edi - 1 else NULL)"

definition rawmemchr :: "bytes \<Rightarrow> u32 \<Rightarrow> u32 \<Rightarrow> u32" where
  "rawmemchr m s c = (case repne_scasb m (ucast c) 0xFFFFFFFF s of (ecx, edi, zf) \<Rightarrow> edi - 1)"

subsection \<open>Strings: the processor's versions\<close>

definition strlen :: "bytes \<Rightarrow> u32 \<Rightarrow> u32" where
  "strlen m s = (case repne_scasb m 0 0xFFFFFFFF s of (ecx, edi, zf) \<Rightarrow> NOT ecx - 1)"

function strnlen_loop :: "bytes \<Rightarrow> u32 \<Rightarrow> u32 \<Rightarrow> u32" where
  "strnlen_loop m eax edx = (if edx = 0 then eax else if m eax \<noteq> 0 then strnlen_loop m (eax + 1) (edx - 1) else eax)"
  by pat_completeness auto
termination by (relation "measure (\<lambda>(_, _, edx). unat edx)") (auto simp: unat_minus_one unat_gt_0)

definition strnlen :: "bytes \<Rightarrow> u32 \<Rightarrow> u32 \<Rightarrow> u32" where
  "strnlen m s count = strnlen_loop m s (count + 1 - 1) - s"

text \<open>The difference of the first two bytes that differ, as \<^verbatim>\<open>sbb\<close> and \<^verbatim>\<open>or\<close> make it from the borrow.\<close>

definition sbb_or :: "u8 \<Rightarrow> u8 \<Rightarrow> int" where
  "sbb_or a b = (if a < b then - 1 else 1)"

partial_function (option) strcmp_asm :: "bytes \<Rightarrow> u32 \<Rightarrow> u32 \<Rightarrow> int option" where
  "strcmp_asm m cs ct =
     (if m cs \<noteq> m ct then Some (sbb_or (m cs) (m ct))
      else if m cs \<noteq> 0 then strcmp_asm m (cs + 1) (ct + 1) else Some 0)"

function strncmp_loop :: "bytes \<Rightarrow> u32 \<Rightarrow> u32 \<Rightarrow> u32 \<Rightarrow> int" where
  "strncmp_loop m cs ct ecx =
     (if ecx = 0 then 0
      else if m cs \<noteq> m ct then sbb_or (m cs) (m ct)
      else if m cs \<noteq> 0 then strncmp_loop m (cs + 1) (ct + 1) (ecx - 1) else 0)"
  by pat_completeness auto
termination by (relation "measure (\<lambda>(_, _, _, ecx). unat ecx)") (auto simp: unat_minus_one unat_gt_0)

definition strncmp :: "bytes \<Rightarrow> u32 \<Rightarrow> u32 \<Rightarrow> u32 \<Rightarrow> int" where
  "strncmp m cs ct count = strncmp_loop m cs ct (count + 1 - 1)"

partial_function (option) strcpy_loop :: "bytes \<Rightarrow> u32 \<Rightarrow> u32 \<Rightarrow> bytes option" where
  "strcpy_loop m edi esi =
     (let al = m esi; m' = m(edi := al) in if al \<noteq> 0 then strcpy_loop m' (edi + 1) (esi + 1) else Some m')"

definition strcpy :: "bytes \<Rightarrow> u32 \<Rightarrow> u32 \<Rightarrow> (u32 \<times> bytes) option" where
  "strcpy m dest src = map_option (\<lambda>m. (dest, m)) (strcpy_loop m dest src)"

function strncpy_loop :: "bytes \<Rightarrow> u32 \<Rightarrow> u32 \<Rightarrow> u32 \<Rightarrow> bytes" where
  "strncpy_loop m edi esi ecx =
     (if ecx = 0 then m
      else let al = m esi; m' = m(edi := al) in
        if al \<noteq> 0 then strncpy_loop m' (edi + 1) (esi + 1) (ecx - 1) else rep_stosb (unat (ecx - 1)) (edi + 1) 0 m')"
  by pat_completeness auto
termination by (relation "measure (\<lambda>(_, _, _, ecx). unat ecx)") (auto simp: unat_minus_one unat_gt_0)

definition strncpy :: "bytes \<Rightarrow> u32 \<Rightarrow> u32 \<Rightarrow> u32 \<Rightarrow> u32 \<times> bytes" where
  "strncpy m dest src count = (dest, strncpy_loop m dest src count)"

definition strcat :: "bytes \<Rightarrow> u32 \<Rightarrow> u32 \<Rightarrow> (u32 \<times> bytes) option" where
  "strcat m dest src = (case repne_scasb m 0 0xFFFFFFFF dest of (ecx, edi, zf) \<Rightarrow>
     map_option (\<lambda>m. (dest, m)) (strcpy_loop m (edi - 1) src))"

function strncat_loop :: "bytes \<Rightarrow> u32 \<Rightarrow> u32 \<Rightarrow> u32 \<Rightarrow> bytes" where
  "strncat_loop m edi esi edx =
     (if edx = 0 then m(edi := 0)
      else let al = m esi; m' = m(edi := al) in if al \<noteq> 0 then strncat_loop m' (edi + 1) (esi + 1) (edx - 1) else m')"
  by pat_completeness auto
termination by (relation "measure (\<lambda>(_, _, _, edx). unat edx)") (auto simp: unat_minus_one unat_gt_0)

definition strncat :: "bytes \<Rightarrow> u32 \<Rightarrow> u32 \<Rightarrow> u32 \<Rightarrow> u32 \<times> bytes" where
  "strncat m dest src count = (case repne_scasb m 0 0xFFFFFFFF dest of (ecx, edi, zf) \<Rightarrow>
     (dest, strncat_loop m (edi - 1) src (count + 1 - 1)))"

partial_function (option) strchr_loop :: "bytes \<Rightarrow> u8 \<Rightarrow> u32 \<Rightarrow> u32 option" where
  "strchr_loop m ah esi =
     (if m esi = ah then Some (esi + 1 - 1) else if m esi \<noteq> 0 then strchr_loop m ah (esi + 1) else Some (1 - 1))"

definition strchr :: "bytes \<Rightarrow> u32 \<Rightarrow> u32 \<Rightarrow> u32 option" where
  "strchr m s c = strchr_loop m (ucast c) s"

partial_function (option) strchrnul_loop :: "bytes \<Rightarrow> u8 \<Rightarrow> u32 \<Rightarrow> u32 option" where
  "strchrnul_loop m ah esi =
     (if m esi = ah then Some (esi + 1 - 1) else if m esi \<noteq> 0 then strchrnul_loop m ah (esi + 1) else Some (esi + 1 - 1))"

definition strchrnul :: "bytes \<Rightarrow> u32 \<Rightarrow> u32 \<Rightarrow> u32 option" where
  "strchrnul m s c = strchrnul_loop m (ucast c) s"

partial_function (option) strrchr_loop :: "bytes \<Rightarrow> u8 \<Rightarrow> u32 \<Rightarrow> u32 \<Rightarrow> u32 option" where
  "strrchr_loop m ch eax s =
     (let eax = (if m s = ch then s else eax) in if m s \<noteq> 0 then strrchr_loop m ch eax (s + 1) else Some eax)"

definition strrchr :: "bytes \<Rightarrow> u32 \<Rightarrow> u32 \<Rightarrow> u32 option" where
  "strrchr m s c = strrchr_loop m (ucast c) 0 s"

subsection \<open>Strings: the portable versions\<close>

text \<open>The inner loop of \<^verbatim>\<open>strspn\<close> returns where it stopped: at the character or at the end of the set.\<close>

partial_function (option) set_scan :: "bytes \<Rightarrow> u8 \<Rightarrow> u32 \<Rightarrow> u32 option" where
  "set_scan m c a = (if m a \<noteq> 0 then if c = m a then Some a else set_scan m c (a + 1) else Some a)"

partial_function (option) strspn_loop :: "bytes \<Rightarrow> u32 \<Rightarrow> u32 \<Rightarrow> u32 \<Rightarrow> u32 option" where
  "strspn_loop m p accept count =
     (if m p \<noteq> 0 then
        Option.bind (set_scan m (m p) accept) (\<lambda>a. if m a = 0 then Some count else strspn_loop m (p + 1) accept (count + 1))
      else Some count)"

definition strspn :: "bytes \<Rightarrow> u32 \<Rightarrow> u32 \<Rightarrow> u32 option" where
  "strspn m s accept = strspn_loop m s accept 0"

partial_function (option) strcspn_loop :: "bytes \<Rightarrow> u32 \<Rightarrow> u32 \<Rightarrow> u32 \<Rightarrow> u32 option" where
  "strcspn_loop m s reject count =
     (if m s \<noteq> 0 then
        Option.bind (strchr m reject (ucast (m s))) (\<lambda>r. if r = NULL then strcspn_loop m (s + 1) reject (count + 1) else Some count)
      else Some count)"

definition strcspn :: "bytes \<Rightarrow> u32 \<Rightarrow> u32 \<Rightarrow> u32 option" where
  "strcspn m s reject = strcspn_loop m s reject 0"

partial_function (option) strpbrk :: "bytes \<Rightarrow> u32 \<Rightarrow> u32 \<Rightarrow> u32 option" where
  "strpbrk m s s2 =
     (if m s \<noteq> 0 then Option.bind (set_scan m (m s) s2) (\<lambda>p. if m p \<noteq> 0 then Some s else strpbrk m (s + 1) s2)
      else Some NULL)"

text \<open>The result: the token, the saved pointer and the memory.\<close>

definition strtok_r :: "bytes \<Rightarrow> u32 \<Rightarrow> u32 \<Rightarrow> u32 \<Rightarrow> (u32 \<times> u32 \<times> bytes) option" where
  "strtok_r m s delim save_ptr =
     (let s = (if s = NULL then save_ptr else s) in
      Option.bind (strspn m s delim) (\<lambda>n.
      let s = s + n in
      if m s = 0 then Some (NULL, s, m)
      else Option.bind (strpbrk m s delim) (\<lambda>e.
        if e = NULL then Some (s, rawmemchr m s 0, m) else Some (s, e + 1, m(e := 0)))))"

definition strtok :: "bytes \<Rightarrow> u32 \<Rightarrow> u32 \<Rightarrow> u32 \<Rightarrow> (u32 \<times> u32 \<times> bytes) option" where
  "strtok m s1 s2 next_start = strtok_r m s1 s2 next_start"

text \<open>The result: the token, the pointer for the next call and the memory.\<close>

definition strsep :: "bytes \<Rightarrow> u32 \<Rightarrow> u32 \<Rightarrow> (u32 \<times> u32 \<times> bytes) option" where
  "strsep m stringp delim =
     (let begin = stringp in
      if begin = NULL then Some (NULL, stringp, m)
      else Option.bind
        (if m delim = 0 \<or> m (delim + 1) = 0 then
           let ch = m delim in
           if ch = 0 then Some NULL
           else if m begin = ch then Some begin
           else if m begin = 0 then Some NULL
           else strchr m (begin + 1) (ucast ch)
         else strpbrk m begin delim) (\<lambda>end.
        if end \<noteq> NULL then Some (begin, end + 1, m(end := 0)) else Some (begin, NULL, m)))"

text \<open>In \<^verbatim>\<open>strlcpy\<close> and \<^verbatim>\<open>strlcat\<close> the destination \<open>None\<close> is the local array \<^verbatim>\<open>dummy\<close>.\<close>

definition put_opt :: "bytes \<Rightarrow> u32 option \<Rightarrow> u8 \<Rightarrow> bytes" where
  "put_opt m dst c = (case dst of None \<Rightarrow> m | Some d \<Rightarrow> m(d := c))"

partial_function (option) strlcpy_loop :: "bytes \<Rightarrow> u32 option \<Rightarrow> u32 \<Rightarrow> u32 \<Rightarrow> (u32 \<times> bytes) option" where
  "strlcpy_loop m dst src n =
     (let c = m src; m' = put_opt m dst c in
      if c \<noteq> 0 then
        if n \<noteq> 0 then strlcpy_loop m' (map_option (\<lambda>d. d + 1) dst) (src + 1) (n - 1) else strlcpy_loop m' dst (src + 1) n
      else Some (src, m'))"

definition strlcpy :: "bytes \<Rightarrow> u32 \<Rightarrow> u32 \<Rightarrow> u32 \<Rightarrow> (u32 \<times> bytes) option" where
  "strlcpy m dst src n =
     map_option (\<lambda>(e, m). (e - src, m)) (if n = 0 then strlcpy_loop m None src n else strlcpy_loop m (Some dst) src (n - 1))"

partial_function (option) strlcat_find :: "bytes \<Rightarrow> u32 \<Rightarrow> u32 \<Rightarrow> u32 \<Rightarrow> (u32 option \<times> u32) option" where
  "strlcat_find m dst len n =
     (if len \<ge> n then Some (None, len) else if m dst = 0 then Some (Some dst, len) else strlcat_find m (dst + 1) (len + 1) n)"

partial_function (option) strlcat_copy :: "bytes \<Rightarrow> u32 option \<Rightarrow> u32 \<Rightarrow> u32 \<Rightarrow> u32 \<Rightarrow> (u32 \<times> bytes) option" where
  "strlcat_copy m dst src len n =
     (let c = m src; m' = put_opt m dst c in
      if c \<noteq> 0 then strlcat_copy m' (if len + 1 < n then map_option (\<lambda>d. d + 1) dst else dst) (src + 1) (len + 1) n
      else Some (len, m'))"

definition strlcat :: "bytes \<Rightarrow> u32 \<Rightarrow> u32 \<Rightarrow> u32 \<Rightarrow> (u32 \<times> bytes) option" where
  "strlcat m dst src n = Option.bind (strlcat_find m dst 0 n) (\<lambda>(dst, len). strlcat_copy m dst src len n)"

partial_function (option) basename_loop :: "bytes \<Rightarrow> u32 \<Rightarrow> u32 \<Rightarrow> u32 option" where
  "basename_loop m s p = (if m s \<noteq> 0 then basename_loop m (s + 1) (if m s = 0x2F then s + 1 else p) else Some p)"

definition basename :: "bytes \<Rightarrow> u32 \<Rightarrow> u32 option" where
  "basename m path = basename_loop m path path"

text \<open>\<open>dot\<close> is the address of the constant string "." that \<^verbatim>\<open>dirname\<close> returns.\<close>

partial_function (option) skip_while :: "(u8 \<Rightarrow> bool) \<Rightarrow> bytes \<Rightarrow> u32 \<Rightarrow> u32 option" where
  "skip_while P m s = (if P (m s) then skip_while P m (s + 1) else Some s)"

partial_function (option) dirname_loop :: "bytes \<Rightarrow> u32 \<Rightarrow> u32 \<Rightarrow> u32 option" where
  "dirname_loop m s lst =
     Option.bind (skip_while (\<lambda>c. c \<noteq> 0 \<and> c \<noteq> 0x2F) m s) (\<lambda>first.
     Option.bind (skip_while (\<lambda>c. c = 0x2F) m first) (\<lambda>s.
     if m s \<noteq> 0 then dirname_loop m s first else Some lst))"

definition dirname :: "u32 \<Rightarrow> bytes \<Rightarrow> u32 \<Rightarrow> (u32 \<times> bytes) option" where
  "dirname dot m path =
     (if path = NULL then Some (dot, m)
      else Option.bind (dirname_loop m path path) (\<lambda>lst.
        if lst = path then
          if m lst \<noteq> 0x2F then Some (dot, m)
          else let lst = lst + 1; lst = (if m lst = 0x2F \<and> m (lst + 1) = 0 then lst + 1 else lst)
               in Some (path, m(lst := 0))
        else Some (path, m(lst := 0))))"

text \<open>\<open>malloc\<close> returns an address and the memory.\<close>

definition strdup :: "(u32 \<Rightarrow> bytes \<Rightarrow> u32 \<times> bytes) \<Rightarrow> bytes \<Rightarrow> u32 \<Rightarrow> u32 \<times> bytes" where
  "strdup malloc m s1 =
     (let l = (strlen m s1 + 1) * 1 in case malloc l m of (s, m) \<Rightarrow> if s \<noteq> NULL then (s, snd (memcpy m s s1 l)) else (s, m))"

definition strndup :: "(u32 \<Rightarrow> bytes \<Rightarrow> u32 \<times> bytes) \<Rightarrow> bytes \<Rightarrow> u32 \<Rightarrow> u32 \<Rightarrow> u32 \<times> bytes" where
  "strndup malloc m s1 n =
     (let n = strnlen m s1 n in case malloc (n + 1) m of (s, m) \<Rightarrow>
        if s \<noteq> NULL then (s, (snd (memcpy m s s1 n))(s + n := 0)) else (s, m))"

subsection \<open>Comparing version strings\<close>

definition S_N :: nat where "S_N = 0x0"
definition S_I :: nat where "S_I = 0x4"
definition S_F :: nat where "S_F = 0x8"
definition S_Z :: nat where "S_Z = 0xC"
definition CMP :: int where "CMP = 2"
definition LEN :: int where "LEN = 3"

definition isdigit :: "u8 \<Rightarrow> bool" where
  "isdigit a \<longleftrightarrow> (ucast a - 0x30 :: u32) \<le> 9"

definition digit_kind :: "u8 \<Rightarrow> nat" where
  "digit_kind c = (if c = 0x30 then 1 else 0) + (if isdigit c then 1 else 0)"

definition next_state :: "nat list" where
  "next_state = [S_N, S_I, S_Z, S_N,
                 S_N, S_I, S_I, S_I,
                 S_N, S_F, S_F, S_F,
                 S_N, S_F, S_Z, S_Z]"

definition result_type :: "int list" where
  "result_type = [CMP, CMP, CMP, CMP, CMP, LEN, CMP, CMP, CMP, CMP, CMP, CMP, CMP, CMP, CMP, CMP,
                  CMP, - 1, - 1, CMP, 1, LEN, LEN, CMP, 1, LEN, LEN, CMP, CMP, CMP, CMP, CMP,
                  CMP, CMP, CMP, CMP, CMP, LEN, CMP, CMP, CMP, CMP, CMP, CMP, CMP, CMP, CMP, CMP,
                  CMP, 1, 1, CMP, - 1, CMP, CMP, CMP, - 1, CMP, CMP, CMP]"

partial_function (option) strverscmp_loop :: "bytes \<Rightarrow> u32 \<Rightarrow> u32 \<Rightarrow> nat \<Rightarrow> (u32 \<times> u32 \<times> nat) option" where
  "strverscmp_loop m p1 p2 state =
     (if m p1 = m p2 \<and> m p1 \<noteq> 0
      then strverscmp_loop m (p1 + 1) (p2 + 1) (next_state ! state OR digit_kind (m (p1 + 1)))
      else Some (p1, p2, state))"

partial_function (option) strverscmp_len :: "bytes \<Rightarrow> u32 \<Rightarrow> u32 \<Rightarrow> int \<Rightarrow> int option" where
  "strverscmp_len m p1 p2 diff =
     (if isdigit (m p1) then if \<not> isdigit (m p2) then Some 1 else strverscmp_len m (p1 + 1) (p2 + 1) diff
      else Some (if isdigit (m p2) then - 1 else diff))"

definition strverscmp :: "bytes \<Rightarrow> u32 \<Rightarrow> u32 \<Rightarrow> int option" where
  "strverscmp m s1 s2 =
     (if s1 = s2 then Some 0
      else Option.bind (strverscmp_loop m s1 s2 (S_N OR digit_kind (m s1))) (\<lambda>(p1, p2, state).
        let diff = uint (m p1) - uint (m p2); r = result_type ! (push_bit 2 state OR digit_kind (m p2)) in
        if r = CMP then Some diff else if r = LEN then strverscmp_len m (p1 + 1) (p2 + 1) diff else Some r))"

subsection \<open>Copying and filling\<close>

text \<open>A copy one byte at a time is right if no byte is overwritten before it is read.\<close>

lemma rep_movsb_bytes:
  assumes "\<And>i j. i < j \<Longrightarrow> j < n \<Longrightarrow> edi + of_nat i * d \<noteq> esi + of_nat j * d \<and> edi + of_nat i * d \<noteq> edi + of_nat j * d"
  shows "i < n \<Longrightarrow> rep_movsb n d edi esi m (edi + of_nat i * d) = m (esi + of_nat i * d)"
    "(\<And>i. i < n \<Longrightarrow> x \<noteq> edi + of_nat i * d) \<Longrightarrow> rep_movsb n d edi esi m x = m x"
proof -
  have both: "(\<forall>i < n. rep_movsb n d edi esi m (edi + of_nat i * d) = m (esi + of_nat i * d))
     \<and> (\<forall>x. (\<forall>i < n. x \<noteq> edi + of_nat i * d) \<longrightarrow> rep_movsb n d edi esi m x = m x)"
    using assms
  proof (induction n arbitrary: edi esi m)
    case (Suc n)
    have shift: "a + d + of_nat i * d = a + of_nat (Suc i) * d" for a i by (simp add: algebra_simps)
    let ?m = "m(edi := m esi)"
    have IH: "(\<forall>i < n. rep_movsb n d (edi + d) (esi + d) ?m (edi + d + of_nat i * d) = ?m (esi + d + of_nat i * d))
     \<and> (\<forall>x. (\<forall>i < n. x \<noteq> edi + d + of_nat i * d) \<longrightarrow> rep_movsb n d (edi + d) (esi + d) ?m x = ?m x)"
      by (rule Suc.IH) (use Suc.prems in \<open>auto simp only: shift Suc_less_eq\<close>)
    have first: "edi \<noteq> esi + of_nat (Suc i) * d" "edi \<noteq> edi + of_nat (Suc i) * d" if "i < n" for i
      using Suc.prems [of 0 "Suc i"] that by auto
    have "rep_movsb (Suc n) d edi esi m (edi + of_nat i * d) = m (esi + of_nat i * d)" if "i < Suc n" for i
    proof (cases i)
      case 0
      have "rep_movsb n d (edi + d) (esi + d) ?m edi = ?m edi" using IH first(2) unfolding shift by blast
      then show ?thesis using 0 by simp
    next
      case (Suc k)
      then have k: "k < n" using that by simp
      then have "rep_movsb n d (edi + d) (esi + d) ?m (edi + of_nat (Suc k) * d) = ?m (esi + of_nat (Suc k) * d)"
        using IH unfolding shift by blast
      then show ?thesis using first(1) [OF k, symmetric] Suc by (simp only: rep_movsb.simps fun_upd_apply if_False)
    qed
    moreover have "rep_movsb (Suc n) d edi esi m x = m x" if "\<forall>i < Suc n. x \<noteq> edi + of_nat i * d" for x
    proof -
      have "\<forall>i < n. x \<noteq> edi + d + of_nat i * d" "x \<noteq> edi" using that by (auto simp only: shift Suc_less_eq) (auto dest: spec [of _ 0])
      then show ?thesis using IH by simp
    qed
    ultimately show ?case by blast
  qed simp
  then show "i < n \<Longrightarrow> rep_movsb n d edi esi m (edi + of_nat i * d) = m (esi + of_nat i * d)"
    "(\<And>i. i < n \<Longrightarrow> x \<noteq> edi + of_nat i * d) \<Longrightarrow> rep_movsb n d edi esi m x = m x" by blast+
qed

lemma offset_inj: "i < 2 ^ 32 \<Longrightarrow> j < 2 ^ 32 \<Longrightarrow> a + of_nat i = a + of_nat j \<longleftrightarrow> i = j" for a :: u32
  using offset_eq [of i "a + of_nat j" a] by (auto simp: unat_of_nat)

lemma copied_buf_put:
  assumes "n \<le> 2 ^ 32" "\<And>i. i < n \<Longrightarrow> m' (a + of_nat i) = m (b + of_nat i)" "\<And>x. x \<notin> addrs a n \<Longrightarrow> m' x = m x"
  shows "m' = buf_put m a (buf_bytes m b n)"
proof
  fix x
  show "m' x = buf_put m a (buf_bytes m b n) x"
  proof (cases "unat (x - a) < n")
    case True
    then have "m' (a + of_nat (unat (x - a))) = m (b + of_nat (unat (x - a)))" by (rule assms(2))
    then show ?thesis using True by (simp add: buf_put_def buf_bytes_def)
  next
    case False
    then show ?thesis using assms(3) addrs_unat [OF assms(1)] by (simp add: buf_put_def)
  qed
qed

lemma movsb_forward:
  assumes "n \<le> 2 ^ 32" "\<And>i j. i < j \<Longrightarrow> j < n \<Longrightarrow> edi + of_nat i \<noteq> esi + of_nat j"
  shows "rep_movsb n 1 edi esi m = buf_put m edi (buf_bytes m esi n)"
proof (rule copied_buf_put [OF assms(1)])
  have apart: "edi + of_nat i * 1 \<noteq> esi + of_nat j * 1 \<and> edi + of_nat i * 1 \<noteq> edi + of_nat j * 1" if "i < j" "j < n" for i j
    using assms that offset_inj [of i j edi] by simp
  show "rep_movsb n 1 edi esi m (edi + of_nat i) = m (esi + of_nat i)" if "i < n" for i
    using rep_movsb_bytes(1) [OF apart that] by simp
  show "rep_movsb n 1 edi esi m x = m x" if "x \<notin> addrs edi n" for x
    using rep_movsb_bytes(2) [OF apart, of n x] that by (auto simp: addrs_def)
qed

lemma movsb_backward:
  assumes "n \<le> 2 ^ 32" "\<And>i j. i < j \<Longrightarrow> j < n \<Longrightarrow> edi + of_nat j \<noteq> esi + of_nat i"
  shows "rep_movsb n (- 1) (edi + of_nat n - 1) (esi + of_nat n - 1) m = buf_put m edi (buf_bytes m esi n)"
proof (rule copied_buf_put [OF assms(1)])
  let ?e = "edi + of_nat n - 1" and ?s = "esi + of_nat n - 1"
  have at: "a + of_nat n - 1 + of_nat i * - 1 = a + of_nat (n - Suc i)" if "i < n" for a :: u32 and i
    using that by (simp add: of_nat_diff algebra_simps)
  have apart: "?e + of_nat i * - 1 \<noteq> ?s + of_nat j * - 1 \<and> ?e + of_nat i * - 1 \<noteq> ?e + of_nat j * - 1" if "i < j" "j < n" for i j
  proof -
    have lt: "n - Suc j < n - Suc i" "n - Suc i < n" using that by auto
    have "edi + of_nat (n - Suc i) \<noteq> esi + of_nat (n - Suc j)" by (rule assms(2) [OF lt])
    moreover have "edi + of_nat (n - Suc i) \<noteq> edi + of_nat (n - Suc j)"
      using offset_inj [of "n - Suc i" "n - Suc j" edi] lt assms(1) by simp
    ultimately show ?thesis using that at [of i] at [of j] by simp
  qed
  show "rep_movsb n (- 1) ?e ?s m (edi + of_nat i) = m (esi + of_nat i)" if "i < n" for i
  proof -
    define j where "j = n - Suc i"
    have j: "j < n" "n - Suc j = i" using that by (auto simp: j_def)
    from rep_movsb_bytes(1) [OF apart j(1), of m] show ?thesis unfolding at [OF j(1)] j(2) .
  qed
  show "rep_movsb n (- 1) ?e ?s m x = m x" if "x \<notin> addrs edi n" for x
  proof (rule rep_movsb_bytes(2) [OF apart])
    fix i assume "i < n"
    then have "n - Suc i < n" by simp
    from addrs_mem [OF this, of edi] show "x \<noteq> ?e + of_nat i * - 1" unfolding at [OF \<open>i < n\<close>] using that by metis
  qed
qed

lemma movsl_movsb:
  assumes "4 * n \<le> 2 ^ 32" "addrs edi (4 * n) \<inter> addrs esi (4 * n) = {}"
  shows "rep_movsl n edi esi m = rep_movsb (4 * n) 1 edi esi m"
  using assms
proof (induction n arbitrary: edi esi m)
  case (Suc n)
  have in4: "edi + of_nat i \<in> addrs edi (4 * Suc n)" "esi + of_nat i \<in> addrs esi (4 * Suc n)" if "i < 4" for i using that by simp_all
  have ne: "edi + of_nat i \<noteq> esi + of_nat j" if "i < 4" "j < 4" for i j using Suc.prems(2) in4 that by (metis disjoint_iff)
  have "set32 m edi (get32 m esi) = m(edi := m esi, edi + 1 := m (esi + 1), edi + 2 := m (esi + 2), edi + 3 := m (esi + 3))"
    by (simp add: set32_def get32_byte)
  also have "\<dots> = rep_movsb 4 1 edi esi m"
    using ne [of 0 1] ne [of 0 2] ne [of 0 3] ne [of 1 2] ne [of 1 3] ne [of 2 3] by (simp add: eval_nat_numeral add.assoc)
  finally have one: "set32 m edi (get32 m esi) = rep_movsb 4 1 edi esi m" .
  have "addrs (a + 4) (4 * n) \<subseteq> addrs a (4 * Suc n)" for a using addrs_shift [of 4 "4 * n" "4 * Suc n" a] by simp
  then have "addrs (edi + 4) (4 * n) \<inter> addrs (esi + 4) (4 * n) = {}" using Suc.prems(2) by blast
  then have "rep_movsl n (edi + 4) (esi + 4) m' = rep_movsb (4 * n) 1 (edi + 4) (esi + 4) m'" for m'
    using Suc.IH Suc.prems(1) by simp
  then show ?case using one by (simp add: eval_nat_numeral add.assoc)
qed simp

lemma movsb_add: "rep_movsb (a + b) d edi esi m = rep_movsb b d (edi + of_nat a * d) (esi + of_nat a * d) (rep_movsb a d edi esi m)"
  by (induction a arbitrary: edi esi m) (simp_all add: algebra_simps)

lemma split_four: "unat n = 4 * unat (n div 4) + unat (n AND 3)" "of_nat (4 * unat (n div 4)) = 4 * (n div 4)" for n :: u32
proof -
  have "n AND 3 = n mod 4" using take_bit_eq_mask [of 2 n] by (simp add: take_bit_eq_mod mask_eq_exp_minus_1)
  then show "unat n = 4 * unat (n div 4) + unat (n AND 3)" by (simp add: unat_div unat_mod)
qed simp

lemma memcpy_run:
  assumes "addrs to (unat n) \<inter> addrs from (unat n) = {}"
  shows "memcpy m to from n = (to, buf_put m to (buf_bytes m from (unat n)))"
proof -
  let ?k = "unat (n div 4)"
  have le: "4 * ?k \<le> unat n" "unat n \<le> 2 ^ 32" using split_four(1) [of n] unat_lt32 [of n] by simp_all
  have "addrs to (4 * ?k) \<inter> addrs from (4 * ?k) = {}" using assms addrs_subset [OF le(1)] by blast
  then have "rep_movsl ?k to from m = rep_movsb (4 * ?k) 1 to from m" using le by (intro movsl_movsb) simp_all
  then have "snd (memcpy m to from n) = rep_movsb (4 * ?k + unat (n AND 3)) 1 to from m"
    unfolding movsb_add memcpy_def Let_def split_four(2) [of n, symmetric] by simp
  also have "\<dots> = rep_movsb (unat n) 1 to from m" by (simp add: split_four(1) [of n, symmetric])
  also have "\<dots> = buf_put m to (buf_bytes m from (unat n))"
  proof (rule movsb_forward [OF le(2)])
    fix i j assume "i < j" "j < unat n"
    then show "to + of_nat i \<noteq> from + of_nat j" using assms addrs_mem [of i "unat n" to] addrs_mem [of j "unat n" "from"] by (metis disjoint_iff order.strict_trans)
  qed
  finally show ?thesis by (simp add: memcpy_def Let_def)
qed

text \<open>Filling.\<close>

lemma rep_stosb_run: "n \<le> 2 ^ 32 \<Longrightarrow> rep_stosb n edi al m = buf_put m edi (replicate n al)"
proof (induction n arbitrary: edi m)
  case 0
  then show ?case by (simp add: buf_put_def)
next
  case (Suc n)
  have "buf_put (m(edi := al)) (edi + 1) (replicate n al) x = buf_put m edi (replicate (Suc n) al) x" for x
  proof (cases "x = edi")
    case True
    have "\<not> unat (- 1 :: u32) < n" using Suc.prems by (simp add: unsigned_minus_1_eq_mask mask_eq_exp_minus_1)
    then show ?thesis using True by (simp add: buf_put_def)
  next
    case False
    then have "unat (x - edi) = Suc (unat (x - edi - 1))" using unat_minus_one [of "x - edi"] unat_gt_0 [of "x - edi"] by simp
    then show ?thesis using False by (auto simp: buf_put_def diff_diff_add nth_Cons)
  qed
  with Suc show ?case by (simp add: fun_eq_iff)
qed

lemma fill_word: "set32 m a (ucast al * 0x01010101) = m(a := al, a + 1 := al, a + 2 := al, a + 3 := al)" for al :: u8
proof -
  have low: "\<not> bit (ucast al :: u32) k" if "8 \<le> k" for k using that bit_imp_le_length [of al k] by (auto simp: bit_simps)
  have "(ucast al * 0x01010101 :: u32) = ucast al + push_bit 8 (ucast al) + push_bit 16 (ucast al) + push_bit 24 (ucast al)"
    by (simp add: push_bit_eq_mult)
  also have "ucast al + push_bit 8 (ucast al :: u32) = ucast al OR push_bit 8 (ucast al)"
    by (rule disjunctive_add_eq_or, rule bit_word_eqI) (use low in \<open>auto simp: bit_simps\<close>)
  also have "\<dots> + push_bit 16 (ucast al) = \<dots> OR push_bit 16 (ucast al)"
    by (rule disjunctive_add_eq_or, rule bit_word_eqI) (use low in \<open>auto simp: bit_simps\<close>)
  also have "\<dots> + push_bit 24 (ucast al) = \<dots> OR push_bit 24 (ucast al)"
    by (rule disjunctive_add_eq_or, rule bit_word_eqI) (use low in \<open>auto simp: bit_simps\<close>)
  finally have "(ucast al * 0x01010101 :: u32) = get32 (\<lambda>_. al) 0" by (simp add: get32_def or.assoc)
  then show ?thesis by (simp add: set32_def get32_byte)
qed

lemma stosl_stosb: "rep_stosl n edi (ucast al * 0x01010101) m = rep_stosb (4 * n) edi al m"
  by (induction n arbitrary: edi m) (simp_all add: fill_word eval_nat_numeral add.assoc)

lemma stosb_add: "rep_stosb (a + b) edi al m = rep_stosb b (edi + of_nat a) al (rep_stosb a edi al m)"
  by (induction a arbitrary: edi m) (simp_all add: algebra_simps)

lemma memset_run: "memset m s c n = (s, buf_put m s (replicate (unat n) (ucast c)))"
proof -
  let ?k = "unat (n div 4)" and ?al = "ucast c :: u8"
  have shr: "drop_bit 2 n = n div 4" by (simp add: drop_bit_eq_div)
  have "snd (memset m s c n) = rep_stosb (4 * ?k + unat (n AND 3)) s ?al m"
    unfolding stosb_add memset_def Let_def split_four(2) [of n] shr by (simp add: stosl_stosb)
  also have "\<dots> = buf_put m s (replicate (unat n) ?al)"
    using rep_stosb_run [of "unat n"] unat_lt32 [of n] by (simp add: split_four(1) [of n, symmetric])
  finally show ?thesis by (simp add: memset_def Let_def)
qed

text \<open>C38: \<^verbatim>\<open>memmove\<close> is right for overlapping blocks. Whatever the positions of the two blocks, as long as neither wraps around
  the end of the address space, the destination afterwards holds the bytes that the source held before, and no other byte changes.\<close>

theorem memmove_moves:
  assumes "unat dest + unat n \<le> 2 ^ 32" "unat src + unat n \<le> 2 ^ 32"
  shows "memmove m dest src n = (dest, buf_put m dest (buf_bytes m src (unat n)))"
proof -
  have n: "unat n \<le> 2 ^ 32" using assms(1) by simp
  have at: "unat (a + of_nat i) = unat a + i" if "unat a + unat n \<le> 2 ^ 32" "i < unat n" for a :: u32 and i
    using that by (simp add: unat_word_ariths unat_of_nat)
  consider "dest = src" | "dest < src" | "src < dest" by (meson linorder_less_linear)
  then show ?thesis
  proof cases
    case 1
    have "m = buf_put m dest (buf_bytes m dest (unat n))" by (rule copied_buf_put [OF n]) simp_all
    with 1 show ?thesis by (simp add: memmove_def)
  next
    case 2
    then have "dest + of_nat i \<noteq> src + of_nat j" if "i < j" "j < unat n" for i j
      using at [OF assms(1), of i] at [OF assms(2), of j] that by (auto simp: word_less_nat_alt)
    with 2 show ?thesis by (auto simp: memmove_def movsb_forward [OF n])
  next
    case 3
    then have "dest + of_nat j \<noteq> src + of_nat i" if "i < j" "j < unat n" for i j
      using at [OF assms(1), of j] at [OF assms(2), of i] that by (auto simp: word_less_nat_alt)
    from movsb_backward [OF n this, of m] 3 show ?thesis by (auto simp: memmove_def)
  qed
qed

theorem memmove_moves_witness:
  "snd (memmove ((\<lambda>_. 0)(0x1000 := 7, 0x1001 := 8)) 0x1001 0x1000 2) 0x1002 = 8"
proof -
  let ?m = "(\<lambda>_. 0)(0x1000 := 7, 0x1001 := 8) :: bytes"
  have "memmove ?m 0x1001 0x1000 2 = (0x1001, buf_put ?m 0x1001 (buf_bytes ?m 0x1000 (unat (2 :: u32))))"
    by (rule memmove_moves) simp_all
  then show ?thesis by (simp add: buf_bytes_def buf_put_def upt_rec)
qed

subsection \<open>Strings in memory\<close>

fun str_at :: "bytes \<Rightarrow> u32 \<Rightarrow> u8 list \<Rightarrow> bool" where
  "str_at m a [] \<longleftrightarrow> m a = 0"
| "str_at m a (b # bs) \<longleftrightarrow> m a = b \<and> b \<noteq> 0 \<and> str_at m (a + 1) bs"

lemma str_at_append: "str_at m a (xs @ ys) \<longleftrightarrow> (\<forall>b \<in> set xs. b \<noteq> 0) \<and> buf_bytes m a (length xs) = xs \<and> str_at m (a + of_nat (length xs)) ys"
proof (induction xs arbitrary: a)
  case Nil
  then show ?case by (simp add: buf_bytes_def)
next
  case (Cons x xs)
  have "buf_bytes m a (Suc (length xs)) = m a # buf_bytes m (a + 1) (length xs)"
    by (simp add: buf_bytes_def upt_conv_Cons map_Suc_upt [symmetric] add.assoc del: upt_Suc)
  then show ?case using Cons [of "a + 1"] by (auto simp: add.assoc)
qed

lemma str_at_bytes: "str_at m a bs \<longleftrightarrow> (\<forall>b \<in> set bs. b \<noteq> 0) \<and> buf_bytes m a (length bs) = bs \<and> m (a + of_nat (length bs)) = 0"
  using str_at_append [of m a bs "[]"] by simp

lemma scasb_run:
  assumes "str_at m a bs" "length bs < unat ecx"
  shows "repne_scasb m 0 ecx a = (ecx - of_nat (length bs) - 1, a + of_nat (length bs) + 1, True)"
  using assms
proof (induction bs arbitrary: a ecx)
  case Nil
  then show ?case by (auto simp: repne_scasb.simps [of m 0 ecx])
next
  case (Cons b bs)
  then have "unat (ecx - 1) = unat ecx - 1" by (intro unat_minus_one) auto
  then have "repne_scasb m 0 (ecx - 1) (a + 1) = (ecx - 1 - of_nat (length bs) - 1, a + 1 + of_nat (length bs) + 1, True)"
    using Cons by (intro Cons.IH) auto
  then show ?case using Cons.prems by (auto simp: repne_scasb.simps [of m 0 ecx] algebra_simps)
qed

lemma strlen_run: "str_at m s bs \<Longrightarrow> length bs < 2 ^ 32 - 1 \<Longrightarrow> strlen m s = of_nat (length bs)"
  by (simp add: strlen_def scasb_run not_eq_complement)

lemma rawmemchr_run: "str_at m s bs \<Longrightarrow> length bs < 2 ^ 32 - 1 \<Longrightarrow> rawmemchr m s 0 = s + of_nat (length bs)"
  by (simp add: rawmemchr_def scasb_run)

lemma buf_bytes_Suc: "buf_bytes m a (Suc n) = m a # buf_bytes m (a + 1) n"
  by (simp add: buf_bytes_def upt_conv_Cons map_Suc_upt [symmetric] add.assoc del: upt_Suc)

lemma buf_bytes_0 [simp]: "buf_bytes m a 0 = []"
  by (simp add: buf_bytes_def)

lemma addrs_Suc: "addrs a (Suc n) = insert a (addrs (a + 1) n)"
  by (auto simp: addrs_def image_iff less_Suc_eq_0_disj add.assoc lessThan_Suc_eq_insert_0)

lemma str_at_cong: "(\<And>u. u \<in> addrs a (Suc (length bs)) \<Longrightarrow> m u = m' u) \<Longrightarrow> str_at m a bs = str_at m' a bs"
proof (induction bs arbitrary: a)
  case (Cons b bs)
  have "m a = m' a" using Cons.prems by (simp add: addrs_Suc)
  moreover have "str_at m (a + 1) bs = str_at m' (a + 1) bs" by (rule Cons.IH) (use Cons.prems in \<open>auto simp: addrs_Suc [of a]\<close>)
  ultimately show ?case by simp
qed (simp add: addrs_Suc)

lemma str_at_upd [simp]: "x \<notin> addrs a (Suc (length bs)) \<Longrightarrow> str_at (m(x := v)) a bs = str_at m a bs"
  by (rule str_at_cong) auto

lemma str_at_whole: "str_at m a bs \<Longrightarrow> buf_bytes m a (Suc (length bs)) = bs @ [0]"
proof (induction bs arbitrary: a)
  case (Cons b bs)
  then show ?case using Cons.IH [of "a + 1"] by (auto simp: buf_bytes_Suc [of m a])
qed (simp add: buf_bytes_Suc)

lemma char_bytes_simps [simp]: "char_bytes [] = []" "char_bytes (c # cs) = of_nat (of_char c) # char_bytes cs"
  "length (char_bytes cs) = length cs" "char_bytes (xs @ ys) = char_bytes xs @ char_bytes ys"
  by (simp_all add: char_bytes_def)

lemma char_byte_inj: "(of_nat (of_char c) :: u8) = of_nat (of_char d) \<longleftrightarrow> c = d"
  "(of_nat (of_char c) :: u8) < of_nat (of_char d) \<longleftrightarrow> (of_char c :: nat) < of_char d"
proof -
  have un: "unat (of_nat (of_char c) :: u8) = of_char c" for c :: char by (simp add: unat_of_nat)
  show "(of_nat (of_char c) :: u8) = of_nat (of_char d) \<longleftrightarrow> c = d" using un [of c] un [of d] by (metis of_char_eq_iff)
  show "(of_nat (of_char c) :: u8) < of_nat (of_char d) \<longleftrightarrow> (of_char c :: nat) < of_char d" by (simp add: word_less_nat_alt un)
qed

text \<open>C40: the library's \<^verbatim>\<open>strcmp\<close> is the order of strings that the kernel's lookups are verified with: on two strings in memory it
  ends, and returns what the specification of the file system's theory returns.\<close>

theorem strcmp_compares_strings:
  assumes "str_at m a (char_bytes xs)" "str_at m b (char_bytes ys)"
  shows "strcmp_asm m a b = Some (Fs.strcmp xs ys)"
  using assms
proof (induction xs ys arbitrary: a b rule: Fs.strcmp.induct)
  case 1
  then show ?case by (simp add: strcmp_asm.simps)
next
  case (2 y ys)
  then show ?case by (auto simp: strcmp_asm.simps [of m a] sbb_or_def word_greater_zero_iff)
next
  case (3 x xs)
  then show ?case by (auto simp: strcmp_asm.simps [of m a] sbb_or_def)
next
  case (4 x xs y ys)
  then show ?case by (auto simp: strcmp_asm.simps [of m a] sbb_or_def char_byte_inj)
qed

theorem strcmp_compares_strings_witness:
  "strcmp_asm ((\<lambda>_. 0)(0x1000 := 97, 0x2000 := 98)) 0x1000 0x2000 = Some (- 1)"
  using strcmp_compares_strings [of "(\<lambda>_. 0)(0x1000 := 97, 0x2000 := 98)" "0x1000" "''a''" "0x2000" "''b''"]
  by simp

declare strnlen_loop.simps [simp del] strncmp_loop.simps [simp del] strncpy_loop.simps [simp del] strncat_loop.simps [simp del]

subsection \<open>Copying strings\<close>

lemma strcpy_movsb:
  assumes "str_at m src bs" "addrs dest (Suc (length bs)) \<inter> addrs src (Suc (length bs)) = {}"
  shows "strcpy_loop m dest src = Some (rep_movsb (Suc (length bs)) 1 dest src m)"
  using assms
proof (induction bs arbitrary: m dest src)
  case Nil
  then show ?case by (simp add: strcpy_loop.simps [of m] fun_upd_def)
next
  case (Cons b bs)
  have dis: "dest \<notin> addrs (src + 1) (Suc (length bs))" "addrs (dest + 1) (Suc (length bs)) \<inter> addrs (src + 1) (Suc (length bs)) = {}"
    using Cons.prems(2) by (auto simp: addrs_Suc [of _ "Suc (length bs)"])
  have str: "str_at (m(dest := b)) (src + 1) bs" using Cons.prems(1) by (simp only: str_at_upd [OF dis(1)] str_at.simps)
  have "strcpy_loop (m(dest := b)) (dest + 1) (src + 1) = Some (rep_movsb (Suc (length bs)) 1 (dest + 1) (src + 1) (m(dest := b)))"
    by (rule Cons.IH [OF str dis(2)])
  then show ?case using Cons.prems(1) by (auto simp: strcpy_loop.simps [of m])
qed

lemma forward_apart: "addrs dest n \<inter> addrs src n = {} \<Longrightarrow> i < j \<Longrightarrow> j < n \<Longrightarrow> dest + of_nat i \<noteq> src + of_nat j"
  using addrs_mem [of i n dest] addrs_mem [of j n src] by (metis disjoint_iff order.strict_trans)

lemma strcpy_run:
  assumes "str_at m src bs" "addrs dest (Suc (length bs)) \<inter> addrs src (Suc (length bs)) = {}" "length bs < 2 ^ 32"
  shows "strcpy m dest src = Some (dest, buf_put m dest (bs @ [0]))"
  using movsb_forward [of "Suc (length bs)" dest src m] forward_apart [OF assms(2)] assms(3)
  by (simp add: strcpy_def strcpy_movsb [OF assms(1,2)] str_at_whole [OF assms(1)])

lemma unat_minus_of_nat: "n < 2 ^ 32 \<Longrightarrow> unat (w - of_nat n) = (if n \<le> unat w then unat w - n else unat w + 2 ^ 32 - n)" for w :: u32
  by (simp add: unat_sub_if' unat_of_nat)

lemma buf_put_append:
  assumes "length xs + length ys \<le> 2 ^ 32" "length xs < 2 ^ 32"
  shows "buf_put (buf_put m a xs) (a + of_nat (length xs)) ys = buf_put m a (xs @ ys)"
proof
  fix x
  let ?k = "unat (x - a)"
  have "x - (a + of_nat (length xs)) = (x - a) - of_nat (length xs)" by (simp add: algebra_simps)
  then have "unat (x - (a + of_nat (length xs))) = (if length xs \<le> ?k then ?k - length xs else ?k + 2 ^ 32 - length xs)"
    using unat_minus_of_nat [OF assms(2)] by presburger
  then show "buf_put (buf_put m a xs) (a + of_nat (length xs)) ys x = buf_put m a (xs @ ys) x"
    using assms by (auto simp: buf_put_def nth_append split: if_splits)
qed

lemma strncpy_stos:
  assumes "str_at m src bs" "addrs dest (unat n) \<inter> addrs src (Suc (length bs)) = {}"
  shows "strncpy_loop m dest src n = (if unat n \<le> length bs then rep_movsb (unat n) 1 dest src m
     else rep_stosb (unat n - Suc (length bs)) (dest + of_nat (Suc (length bs))) 0 (rep_movsb (Suc (length bs)) 1 dest src m))"
  using assms
proof (induction bs arbitrary: m dest src n)
  case Nil
  then show ?case by (auto simp: strncpy_loop.simps [of m] unat_minus_one fun_upd_def unat_eq_zero)
next
  case (Cons b bs)
  show ?case
  proof (cases "n = 0")
    case True
    then show ?thesis by (simp add: strncpy_loop.simps [of m])
  next
    case False
    then have n: "unat n = Suc (unat (n - 1))" using unat_minus_one [of n] unat_gt_0 [of n] by simp
    have dis: "dest \<notin> addrs (src + 1) (Suc (length bs))" "addrs (dest + 1) (unat (n - 1)) \<inter> addrs (src + 1) (Suc (length bs)) = {}"
      using Cons.prems(2) unfolding n by (auto simp: addrs_Suc [of dest] addrs_Suc [of src "Suc (length bs)"])
    have str: "str_at (m(dest := b)) (src + 1) bs" using Cons.prems(1) by (simp only: str_at_upd [OF dis(1)] str_at.simps)
    have "strncpy_loop (m(dest := b)) (dest + 1) (src + 1) (n - 1) = (if unat (n - 1) \<le> length bs
      then rep_movsb (unat (n - 1)) 1 (dest + 1) (src + 1) (m(dest := b))
      else rep_stosb (unat (n - 1) - Suc (length bs)) (dest + 1 + of_nat (Suc (length bs))) 0
        (rep_movsb (Suc (length bs)) 1 (dest + 1) (src + 1) (m(dest := b))))"
      by (rule Cons.IH [OF str dis(2)])
    then show ?thesis using Cons.prems(1) False n by (auto simp: strncpy_loop.simps [of m] add.assoc)
  qed
qed

text \<open>\<^verbatim>\<open>strncpy\<close> fills exactly the buffer it is given: the first \<open>n\<close> bytes of the destination become the string, cut off after
  \<open>n\<close> bytes or padded with zeros to \<open>n\<close> bytes, and no other byte changes. This is what the kernel's \<^verbatim>\<open>getcwd\<close> call is modelled with.\<close>

theorem strncpy_fills_buffer:
  assumes "str_at m src bs" "addrs dest (unat n) \<inter> addrs src (Suc (length bs)) = {}"
  shows "strncpy m dest src n = (dest, buf_put m dest (take (unat n) bs @ replicate (unat n - length bs) 0))"
proof (cases "unat n \<le> length bs")
  case True
  have "addrs dest (unat n) \<inter> addrs src (unat n) = {}" using assms(2) addrs_subset [of "unat n" "Suc (length bs)" src] True by auto
  then have "rep_movsb (unat n) 1 dest src m = buf_put m dest (buf_bytes m src (unat n))"
    using forward_apart unat_lt32 [of n] by (intro movsb_forward) auto
  moreover have "buf_bytes m src (unat n) = take (unat n) bs"
    using assms(1) True str_at_bytes [of m src bs] buf_bytes_take [of "unat n" "length bs" m src] by simp
  ultimately show ?thesis using strncpy_stos [OF assms] True by (simp add: strncpy_def)
next
  case False
  let ?l = "Suc (length bs)"
  have n: "?l \<le> unat n" "unat n < 2 ^ 32" using False unat_lt32 [of n] by auto
  have "addrs dest ?l \<inter> addrs src ?l = {}" using assms(2) addrs_subset [OF n(1), of dest] by blast
  then have "rep_movsb ?l 1 dest src m = buf_put m dest (bs @ [0])"
    using movsb_forward [of ?l dest src m] forward_apart n str_at_whole [OF assms(1)] by (auto simp del: rep_movsb.simps)
  moreover have "rep_stosb (unat n - ?l) (dest + of_nat ?l) 0 (buf_put m dest (bs @ [0]))
      = buf_put m dest ((bs @ [0]) @ replicate (unat n - ?l) 0)"
    using n buf_put_append [of "bs @ [0]" "replicate (unat n - ?l) 0" m dest] by (simp add: rep_stosb_run del: append_assoc)
  moreover have "(bs @ [0]) @ replicate (unat n - ?l) 0 = bs @ replicate (unat n - length bs) 0"
    using n(1) by (simp add: replicate_Suc [symmetric] Suc_diff_le del: replicate_Suc)
  ultimately show ?thesis using strncpy_stos [OF assms] False by (simp add: strncpy_def del: rep_movsb.simps)
qed

theorem strncpy_fills_buffer_witness:
  "snd (strncpy ((\<lambda>_. 7)(0x1000 := 97, 0x1001 := 0)) 0x2000 0x1000 3) 0x2002 = 0"
proof -
  let ?m = "(\<lambda>_. 7)(0x1000 := 97, 0x1001 := 0) :: bytes"
  have "strncpy ?m 0x2000 0x1000 3
    = (0x2000, buf_put ?m 0x2000 (take (unat (3 :: u32)) [97] @ replicate (unat (3 :: u32) - length [97 :: u8]) 0))"
    by (rule strncpy_fills_buffer) (auto simp: addrs_def lessThan_nat_numeral lessThan_Suc)
  then show ?thesis by (simp add: buf_put_def nth_append)
qed

subsection \<open>Splitting a string into tokens\<close>

lemma set_scan_run:
  assumes "str_at m a ds" "c \<noteq> 0"
  obtains e where "set_scan m c a = Some e" "m e = 0 \<longleftrightarrow> c \<notin> set ds"
  using assms
proof (induction ds arbitrary: a thesis)
  case Nil
  then show ?case by (simp add: set_scan.simps)
next
  case (Cons d ds)
  show ?case
  proof (cases "c = d")
    case True
    have "set_scan m c a = Some a" using True Cons.prems(2) by (subst set_scan.simps) simp
    then show ?thesis using True Cons.prems by (intro Cons.prems(1) [of a]) auto
  next
    case False
    obtain e where "set_scan m c (a + 1) = Some e" "m e = 0 \<longleftrightarrow> c \<notin> set ds" using Cons.IH [of "a + 1"] Cons.prems(2,3) by auto
    then show ?thesis using False Cons.prems by (intro Cons.prems(1) [of e]) (auto simp: set_scan.simps [of m c a])
  qed
qed

lemma strspn_loop_run:
  assumes "str_at m s bs" "str_at m delim ds"
  shows "strspn_loop m s delim n = Some (n + of_nat (length (takeWhile (\<lambda>b. b \<in> set ds) bs)))"
  using assms(1)
proof (induction bs arbitrary: s n)
  case Nil
  then show ?case by (simp add: strspn_loop.simps)
next
  case (Cons b bs)
  obtain e where "set_scan m b delim = Some e" "m e = 0 \<longleftrightarrow> b \<notin> set ds" using set_scan_run [OF assms(2), of b] Cons.prems by auto
  then show ?case using Cons.IH [of "s + 1" "n + 1"] Cons.prems by (auto simp: strspn_loop.simps [of m s])
qed

lemma strspn_run:
  assumes "str_at m s bs" "str_at m delim ds"
  shows "strspn m s delim = Some (of_nat (length (takeWhile (\<lambda>b. b \<in> set ds) bs)))"
  using strspn_loop_run [OF assms, of 0] by (simp add: strspn_def)

lemma strpbrk_run:
  assumes "str_at m s bs" "str_at m delim ds"
  shows "strpbrk m s delim = Some (if set bs \<inter> set ds = {} then NULL else s + of_nat (length (takeWhile (\<lambda>b. b \<notin> set ds) bs)))"
  using assms(1)
proof (induction bs arbitrary: s)
  case Nil
  then show ?case by (simp add: strpbrk.simps)
next
  case (Cons b bs)
  obtain e where "set_scan m b delim = Some e" "m e = 0 \<longleftrightarrow> b \<notin> set ds" using set_scan_run [OF assms(2), of b] Cons.prems by auto
  then show ?case using Cons.IH [of "s + 1"] Cons.prems by (auto simp: strpbrk.simps [of m s] add.assoc)
qed

lemma str_at_drop: "str_at m a (xs @ ys) \<Longrightarrow> str_at m (a + of_nat (length xs)) ys"
  by (simp add: str_at_append)

lemma str_at_cut:
  assumes "str_at m a (xs @ ys)" "\<And>u. u \<in> addrs a (length xs) \<Longrightarrow> m' u = m u" "m' (a + of_nat (length xs)) = 0"
  shows "str_at m' a xs"
proof -
  have "buf_bytes m' a (length xs) = buf_bytes m a (length xs)" using assms(2) by (auto simp: buf_bytes_def)
  then show ?thesis using assms(1,3) by (auto simp: str_at_append [of m] str_at_bytes [of m'])
qed

text \<open>One call of \<^verbatim>\<open>strtok_r\<close> on the string \<open>pre @ tok @ rest\<close> at \<open>s\<close>, of which \<open>pre\<close> is all delimiters and \<open>tok\<close> the token.\<close>

lemma strtok_r_end:
  assumes "str_at m s bs" "str_at m delim ds" "set bs \<subseteq> set ds" "s = (if s0 = NULL then save else s0)"
  shows "strtok_r m s0 delim save = Some (NULL, s + of_nat (length bs), m)"
proof -
  have "takeWhile (\<lambda>b. b \<in> set ds) bs = bs" using assms(3) by (auto simp: takeWhile_eq_all_conv)
  then have spn: "strspn m s delim = Some (of_nat (length bs))" using strspn_run [OF assms(1,2)] by (simp only:)
  have "m (s + of_nat (length bs)) = 0" using assms(1) by (simp add: str_at_bytes)
  with spn show ?thesis unfolding strtok_r_def assms(4) [symmetric] by (simp add: Let_def)
qed

lemma strtok_r_token:
  assumes str: "str_at m s (pre @ tok @ rest)" and "str_at m delim ds" "set pre \<subseteq> set ds" "tok \<noteq> []" "set tok \<inter> set ds = {}"
    and rest: "rest = [] \<or> hd rest \<in> set ds" and s: "s = (if s0 = NULL then save else s0)"
    and room: "NULL \<notin> addrs s (length (pre @ tok @ rest))" "length (pre @ tok @ rest) < 2 ^ 32 - 1"
  defines "t \<equiv> s + of_nat (length pre)"
  shows "strtok_r m s0 delim save = Some (if rest = [] then (t, t + of_nat (length tok), m)
     else (t, t + of_nat (length tok) + 1, m(t + of_nat (length tok) := 0)))"
proof -
  have tw: "takeWhile (\<lambda>b. b \<in> set ds) (pre @ tok @ rest) = pre" "takeWhile (\<lambda>b. b \<notin> set ds) (tok @ rest) = tok"
    using assms(3-6) by (cases tok; cases rest; auto simp: takeWhile_append takeWhile_eq_all_conv)+
  have at: "str_at m t (tok @ rest)" using str_at_drop [OF str] by (simp add: t_def)
  have nz: "m t \<noteq> 0" using at assms(4) by (cases tok) auto
  have pbrk: "strpbrk m t delim = Some (if rest = [] then NULL else t + of_nat (length tok))"
    using strpbrk_run [OF at assms(2)] tw(2) assms(5) rest by (cases rest) auto
  have "t + of_nat (length tok) \<noteq> NULL" if "rest \<noteq> []"
  proof -
    have "s + of_nat (length pre + length tok) \<in> addrs s (length (pre @ tok @ rest))" using that by (intro addrs_mem) simp
    then show ?thesis using room(1) by (auto simp: t_def add.assoc)
  qed
  moreover have "rawmemchr m t 0 = t + of_nat (length tok)" if "rest = []"
    using rawmemchr_run [of m t tok] at that room(2) by simp
  ultimately show ?thesis
    using strspn_run [OF str assms(2)] tw(1) nz pbrk s by (auto simp: strtok_r_def Let_def t_def)
qed

text \<open>The calls that \<^verbatim>\<open>fs_locate\<close> makes: the first with the string, the others with \<^verbatim>\<open>NULL\<close>, until there is no token.\<close>

partial_function (option) all_tokens :: "bytes \<Rightarrow> u32 \<Rightarrow> u32 \<Rightarrow> u32 \<Rightarrow> (u32 list \<times> bytes) option" where
  "all_tokens m s delim next_start = Option.bind (strtok m s delim next_start) (\<lambda>(tok, next_start, m).
     if tok = NULL then Some ([], m)
     else Option.bind (all_tokens m NULL delim next_start) (\<lambda>(toks, m). Some (tok # toks, m)))"

lemma path_tokens_skip: "path_tokens (FS_PATH_DELIM # p) = path_tokens p"
  by (subst (1 2) path_tokens.simps) simp

lemma split_path:
  fixes p :: string
  obtains pre tok rest where "p = pre @ tok @ rest" "set pre \<subseteq> {d}" "d \<notin> set tok" "rest = [] \<or> hd rest = d" "tok = [] \<longrightarrow> rest = []"
proof -
  define pre where "pre = takeWhile (\<lambda>c. c = d) p"
  define q where "q = dropWhile (\<lambda>c. c = d) p"
  have 1: "p = pre @ takeWhile (\<lambda>c. c \<noteq> d) q @ dropWhile (\<lambda>c. c \<noteq> d) q" by (simp add: pre_def q_def)
  have 2: "set pre \<subseteq> {d}" by (auto simp: pre_def dest: set_takeWhileD)
  have 3: "d \<notin> set (takeWhile (\<lambda>c. c \<noteq> d) q)" by (auto dest: set_takeWhileD)
  have 4: "dropWhile (\<lambda>c. c \<noteq> d) q = [] \<or> hd (dropWhile (\<lambda>c. c \<noteq> d) q) = d" using hd_dropWhile [of "\<lambda>c. c \<noteq> d" q] by auto
  have "q = [] \<or> hd q \<noteq> d" using hd_dropWhile [of "\<lambda>c. c = d" p] by (auto simp: q_def)
  then have 5: "takeWhile (\<lambda>c. c \<noteq> d) q = [] \<longrightarrow> dropWhile (\<lambda>c. c \<noteq> d) q = []" by (cases q) auto
  show thesis by (rule that [OF 1 2 3 4 5])
qed

lemma path_tokens_split:
  assumes "set pre \<subseteq> {FS_PATH_DELIM}" "FS_PATH_DELIM \<notin> set tok" "rest = [] \<or> hd rest = FS_PATH_DELIM" "tok = [] \<longrightarrow> rest = []"
  shows "path_tokens (pre @ tok @ rest) = (if tok = [] then [] else tok # path_tokens rest)"
proof -
  have "dropWhile (\<lambda>c. c = FS_PATH_DELIM) (pre @ tok @ rest) = tok @ rest"
    using assms by (induction pre) (cases tok; auto)+
  moreover have "takeWhile (\<lambda>c. c \<noteq> FS_PATH_DELIM) (tok @ rest) = tok" "dropWhile (\<lambda>c. c \<noteq> FS_PATH_DELIM) (tok @ rest) = rest"
    using assms(2,3) by (induction tok; cases rest; auto)+
  ultimately show ?thesis using assms(4) by (subst path_tokens.simps) (simp add: Let_def)
qed

lemma addrs_apart:
  assumes "i + n \<le> j" "j + k \<le> 2 ^ 32"
  shows "addrs (a + of_nat i) n \<inter> addrs (a + of_nat j) k = {}"
proof -
  have "a + of_nat (i + x) \<noteq> a + of_nat (j + y)" if "x < n" "y < k" for x y
    using offset_inj [of "i + x" "j + y" a] that assms by simp
  then show ?thesis by (auto simp: addrs_def add.assoc)
qed

lemma addrs_1: "addrs a (Suc 0) = {a}"
  by (auto simp: addrs_def)

lemma all_tokens_run:
  assumes "str_at m s (char_bytes p)" "str_at m delim (char_bytes [FS_PATH_DELIM])" "NULL \<notin> addrs s (length p)"
    and "length p < 2 ^ 32 - 1" "addrs delim 2 \<inter> addrs s (length p) = {}" "s = (if s0 = NULL then save else s0)"
  shows "\<exists>toks m'. all_tokens m s0 delim save = Some (toks, m') \<and> list_all2 (str_at m') toks (map char_bytes (path_tokens p))
     \<and> (\<forall>x. x \<notin> addrs s (length p) \<longrightarrow> m' x = m x)"
  using assms
proof (induction p arbitrary: m s s0 save rule: length_induct)
  case (1 p)
  note prems = "1.prems"
  let ?d = "FS_PATH_DELIM" and ?D = "char_bytes [FS_PATH_DELIM]"
  obtain pre tok rest where p: "p = pre @ tok @ rest" "set pre \<subseteq> {?d}" "?d \<notin> set tok" "rest = [] \<or> hd rest = ?d" "tok = [] \<longrightarrow> rest = []"
    using split_path [of p ?d] by blast
  have toks: "path_tokens p = (if tok = [] then [] else tok # path_tokens rest)" using path_tokens_split [OF p(2-5)] p(1) by simp
  have D: "set (char_bytes pre) \<subseteq> set ?D" "set (char_bytes tok) \<inter> set ?D = {}" "char_bytes rest = [] \<or> hd (char_bytes rest) \<in> set ?D"
    using p(2-4) by (auto simp: char_bytes_def char_byte_inj) (cases rest; auto)
  show ?case
  proof (cases "tok = []")
    case True
    then have "strtok_r m s0 delim save = Some (NULL, s + of_nat (length (char_bytes p)), m)"
      using strtok_r_end [OF prems(1,2) _ prems(6)] D(1) p by simp
    then show ?thesis using True toks by (subst all_tokens.simps) (simp add: strtok_def)
  next
    case False
    define t where "t = s + of_nat (length pre)"
    have t: "t \<in> addrs s (length p)" unfolding t_def using False p(1) by (intro addrs_mem) simp
    then have t0: "t \<noteq> NULL" using prems(3) by blast
    have str: "str_at m s (char_bytes pre @ char_bytes tok @ char_bytes rest)" using prems(1) p(1) by simp
    have step: "strtok_r m s0 delim save = Some (if char_bytes rest = [] then (t, t + of_nat (length tok), m)
       else (t, t + of_nat (length tok) + 1, m(t + of_nat (length tok) := 0)))"
      using strtok_r_token [OF str prems(2) D(1) _ D(2,3) prems(6)] False p(1) prems(3,4) by (simp add: t_def char_bytes_def)
    have at: "str_at m t (char_bytes tok @ char_bytes rest)" using str_at_drop [OF str] by (simp add: t_def)
    show ?thesis
    proof (cases rest)
      case Nil
      let ?e = "t + of_nat (length tok)"
      have end_str: "str_at m ?e []" using str_at_drop [OF at] Nil by simp
      have "strtok_r m NULL delim ?e = Some (NULL, ?e, m)"
        using strtok_r_end [OF end_str prems(2), of NULL ?e] by simp
      then have "all_tokens m NULL delim ?e = Some ([], m)" by (subst all_tokens.simps) (simp add: strtok_def)
      then have "all_tokens m s0 delim save = Some ([t], m)" using step Nil t0 by (subst all_tokens.simps) (simp add: strtok_def)
      moreover have "path_tokens rest = []" using Nil by (subst path_tokens.simps) simp
      ultimately show ?thesis using at Nil toks False by simp
    next
      case (Cons c r)
      then have c: "c = ?d" using p(4) by simp
      define e where "e = t + of_nat (length tok)"
      define m1 where "m1 = m(e := 0)"
      let ?i = "length pre + length tok"
      have e: "e = s + of_nat ?i" "e + 1 = s + of_nat (Suc ?i)" by (simp_all add: e_def t_def algebra_simps)
      have len: "length p = Suc ?i + length r" "Suc ?i + Suc (length r) \<le> 2 ^ 32" using p(1) Cons prems(4) by simp_all
      have e_in: "e \<in> addrs s (length p)" unfolding e(1) using len by (intro addrs_mem) simp
      have sub: "addrs (e + 1) (length r) \<subseteq> addrs s (length p)" unfolding e(2) using len by (intro addrs_shift) simp
      have apart: "addrs (s + of_nat (length pre)) (Suc (length tok)) \<inter> addrs (e + 1) (Suc (length r)) = {}"
        unfolding e(2) using len(2) by (intro addrs_apart) simp_all
      have e_tok: "e \<in> addrs t (Suc (length tok))" unfolding e_def by (rule addrs_mem) simp
      then have e_out: "e \<notin> addrs (e + 1) (Suc (length r))" using apart by (auto simp: t_def)
      have "str_at m (e + 1) (char_bytes r)" using str_at_drop [OF at] Cons by (simp add: e_def)
      then have "str_at m1 (e + 1) (char_bytes r)" using e_out by (simp add: m1_def)
      moreover have "str_at m1 delim ?D"
        using prems(2,5) e_in unfolding m1_def by (subst str_at_upd) (auto simp: numeral_2_eq_2)
      moreover have "NULL \<notin> addrs (e + 1) (length r)" "addrs delim 2 \<inter> addrs (e + 1) (length r) = {}" using sub prems(3,5) by blast+
      moreover have "length r < length p" "length r < 2 ^ 32 - 1" using len prems(4) by simp_all
      ultimately have "\<exists>toks m'. all_tokens m1 NULL delim (e + 1) = Some (toks, m')
         \<and> list_all2 (str_at m') toks (map char_bytes (path_tokens r)) \<and> (\<forall>x. x \<notin> addrs (e + 1) (length r) \<longrightarrow> m' x = m1 x)"
        using "1.IH" [rule_format, of r m1 "e + 1" NULL "e + 1"] by simp
      then obtain ts m' where ts: "all_tokens m1 NULL delim (e + 1) = Some (ts, m')"
        "list_all2 (str_at m') ts (map char_bytes (path_tokens r))" "\<And>x. x \<notin> addrs (e + 1) (length r) \<Longrightarrow> m' x = m1 x" by blast
      have "all_tokens m s0 delim save = Some (t # ts, m')"
        using step Cons t0 ts(1) by (subst all_tokens.simps) (simp add: strtok_def e_def m1_def)
      moreover have "str_at m' t (char_bytes tok)"
      proof -
        have eq: "m' u = m1 u" if "u \<in> addrs t (Suc (length tok))" for u
          using ts(3) apart that addrs_subset [of "length r" "Suc (length r)" "e + 1"] by (auto simp: t_def)
        have "e \<notin> addrs t (length tok)" using addrs_apart [of "length pre" "length tok" ?i 1 s] len(2) by (auto simp: t_def e(1) addrs_1)
        then have "m' u = m u" if "u \<in> addrs t (length tok)" for u
          using eq [of u] that addrs_subset [of "length tok" "Suc (length tok)" t] by (auto simp: m1_def)
        moreover have "m' e = 0" using eq [of e] e_tok by (simp add: m1_def)
        ultimately show ?thesis using str_at_cut [OF at] by (simp add: e_def)
      qed
      moreover have "m' x = m x" if "x \<notin> addrs s (length p)" for x
      proof -
        have "x \<notin> addrs (e + 1) (length r)" "x \<noteq> e" using sub e_in that by blast+
        then show ?thesis using ts(3) by (simp add: m1_def)
      qed
      ultimately show ?thesis using ts(2) toks False c Cons path_tokens_skip by auto
    qed
  qed
qed

text \<open>C39: the C library's tokenizer gives the kernel the names of a path. Calling \<^verbatim>\<open>strtok\<close> on the path and then on \<^verbatim>\<open>NULL\<close>, with
  the separator as the only delimiter, until it returns \<^verbatim>\<open>NULL\<close>, ends; the tokens it returns are, in order, strings that hold the
  names of the path as the file system's theory splits it, and all of them are still in place after the last call; nothing outside the
  path's own buffer changes.\<close>

theorem strtok_gives_path_names:
  assumes "str_at m s (char_bytes path)" "str_at m delim (char_bytes [FS_PATH_DELIM])" "s \<noteq> NULL" "NULL \<notin> addrs s (length path)"
    and "length path < 2 ^ 32 - 1" "addrs delim 2 \<inter> addrs s (length path) = {}"
  shows "\<exists>toks m'. all_tokens m s delim next_start = Some (toks, m') \<and> list_all2 (str_at m') toks (map char_bytes (path_tokens path))
     \<and> (\<forall>x. x \<notin> addrs s (length path) \<longrightarrow> m' x = m x)"
  by (rule all_tokens_run) (use assms in simp_all)

theorem strtok_gives_path_names_witness:
  "\<exists>toks m'. all_tokens ((\<lambda>_. 0)(0x1000 := 0x2F, 0x1001 := 97, 0x2000 := 0x2F)) 0x1000 0x2000 0 = Some (toks, m')
     \<and> list_all2 (str_at m') toks [[97]]"
proof -
  let ?m = "(\<lambda>_. 0)(0x1000 := 0x2F, 0x1001 := 97, 0x2000 := 0x2F) :: bytes"
  have "path_tokens ''/a'' = [''a'']"
    using path_tokens_skip [of "''a''"] path_tokens_name [of "''a''"] by (simp add: FS_PATH_DELIM_def)
  moreover have "\<exists>toks m'. all_tokens ?m 0x1000 0x2000 0 = Some (toks, m')
     \<and> list_all2 (str_at m') toks (map char_bytes (path_tokens ''/a'')) \<and> (\<forall>x. x \<notin> addrs 0x1000 (length ''/a'') \<longrightarrow> m' x = ?m x)"
    by (rule strtok_gives_path_names) (auto simp: FS_PATH_DELIM_def addrs_def lessThan_nat_numeral lessThan_Suc)
  ultimately show ?thesis by auto
qed

end
