(* ===== verification/Cwords.thy ===== *)
theory Cwords
  imports Cstring
begin

text \<open>
  The routines of \<^verbatim>\<open>uClibc/libc/string/generic\<close> that work on four bytes at a time: \<^verbatim>\<open>memcmp\<close> with its unrolled
  loops for blocks that are aligned alike and for blocks that are not, and \<^verbatim>\<open>memrchr\<close> with its test for a byte in a word. The theorems
  say that they compute what a loop over single bytes computes. \<open>None\<close> means that a loop does not end or reads past a local variable.
\<close>

subsection \<open>Comparing blocks\<close>

definition OPSIZ :: u32 where "OPSIZ = 4"
definition OP_T_THRES :: u32 where "OP_T_THRES = 16"

definition MERGE :: "u32 \<Rightarrow> nat \<Rightarrow> u32 \<Rightarrow> nat \<Rightarrow> u32" where
  "MERGE w0 sh_1 w1 sh_2 = drop_bit sh_1 w0 OR push_bit sh_2 w1"

text \<open>The bytes of the two local words from byte \<open>i\<close> on.\<close>

function memcmp_bytes_from :: "nat \<Rightarrow> u32 \<Rightarrow> u32 \<Rightarrow> int option" where
  "memcmp_bytes_from i a b =
     (if 4 \<le> i then None
      else let a0 = drop_bit (8 * i) a AND 0xFF; b0 = drop_bit (8 * i) b AND 0xFF in
        if a0 = b0 then memcmp_bytes_from (Suc i) a b else Some (sint (a0 - b0)))"
  by pat_completeness auto
termination by (relation "measure (\<lambda>(i, _, _). 4 - i)") auto

declare memcmp_bytes_from.simps [simp del]

definition memcmp_bytes :: "u32 \<Rightarrow> u32 \<Rightarrow> int option" where
  "memcmp_bytes a b = memcmp_bytes_from 0 a b"

text \<open>The labels of the two unrolled loops; \<open>Top\<close> is the beginning of the loop's body.\<close>

datatype cmp_label = Top | Do3 | Do2 | Do1 | Do0

partial_function (option) common_loop ::
  "bytes \<Rightarrow> cmp_label \<Rightarrow> u32 \<Rightarrow> u32 \<Rightarrow> u32 \<Rightarrow> u32 \<Rightarrow> u32 \<Rightarrow> u32 \<Rightarrow> u32 \<Rightarrow> int option" where
  "common_loop m l srcp1 srcp2 len a0 b0 a1 b1 = (case l of
     Top \<Rightarrow> let a0 = get32 m srcp1; b0 = get32 m srcp2 in
       if a1 \<noteq> b1 then memcmp_bytes a1 b1 else common_loop m Do3 srcp1 srcp2 len a0 b0 a1 b1
   | Do3 \<Rightarrow> let a1 = get32 m (srcp1 + 4); b1 = get32 m (srcp2 + 4) in
       if a0 \<noteq> b0 then memcmp_bytes a0 b0 else common_loop m Do2 srcp1 srcp2 len a0 b0 a1 b1
   | Do2 \<Rightarrow> let a0 = get32 m (srcp1 + 8); b0 = get32 m (srcp2 + 8) in
       if a1 \<noteq> b1 then memcmp_bytes a1 b1 else common_loop m Do1 srcp1 srcp2 len a0 b0 a1 b1
   | Do1 \<Rightarrow> let a1 = get32 m (srcp1 + 12); b1 = get32 m (srcp2 + 12) in
       if a0 \<noteq> b0 then memcmp_bytes a0 b0
       else let srcp1 = srcp1 + 4 * OPSIZ; srcp2 = srcp2 + 4 * OPSIZ; len = len - 4 in
         common_loop m (if len \<noteq> 0 then Top else Do0) srcp1 srcp2 len a0 b0 a1 b1
   | Do0 \<Rightarrow> if a1 \<noteq> b1 then memcmp_bytes a1 b1 else Some 0)"

text \<open>The words that a \<^verbatim>\<open>case\<close> does not set are not read before they are set in the loop; they are 0 here.\<close>

definition memcmp_common_alignment :: "bytes \<Rightarrow> u32 \<Rightarrow> u32 \<Rightarrow> u32 \<Rightarrow> int option" where
  "memcmp_common_alignment m srcp1 srcp2 len =
     (let a = get32 m srcp1; b = get32 m srcp2 in
      if len mod 4 = 3 then common_loop m Do2 (srcp1 - OPSIZ) (srcp2 - OPSIZ) (len + 1) 0 0 a b
      else if len mod 4 = 0 then
        if OP_T_THRES \<le> 3 * OPSIZ \<and> len = 0 then Some 0 else common_loop m Do3 srcp1 srcp2 len a b 0 0
      else if len mod 4 = 1 then
        let srcp1 = srcp1 + OPSIZ; srcp2 = srcp2 + OPSIZ; len = len - 1 in
        common_loop m (if OP_T_THRES \<le> 3 * OPSIZ \<and> len = 0 then Do0 else Top) srcp1 srcp2 len 0 0 a b
      else common_loop m Do1 (srcp1 - 2 * OPSIZ) (srcp2 - 2 * OPSIZ) (len + 2) a b 0 0)"

record cmp_words =
  a0 :: u32
  a1 :: u32
  a2 :: u32
  a3 :: u32
  b0 :: u32
  b1 :: u32
  b2 :: u32
  b3 :: u32

definition no_words :: cmp_words where
  "no_words = \<lparr>a0 = 0, a1 = 0, a2 = 0, a3 = 0, b0 = 0, b1 = 0, b2 = 0, b3 = 0\<rparr>"

partial_function (option) shifted_loop ::
  "bytes \<Rightarrow> nat \<Rightarrow> nat \<Rightarrow> cmp_label \<Rightarrow> u32 \<Rightarrow> u32 \<Rightarrow> u32 \<Rightarrow> cmp_words \<Rightarrow> int option" where
  "shifted_loop m shl shr l srcp1 srcp2 len w = (case l of
     Top \<Rightarrow> let w = w\<lparr>a0 := get32 m srcp1, b0 := get32 m srcp2\<rparr>; x = MERGE (a2 w) shl (a3 w) shr in
       if x \<noteq> b3 w then memcmp_bytes x (b3 w) else shifted_loop m shl shr Do3 srcp1 srcp2 len w
   | Do3 \<Rightarrow> let w = w\<lparr>a1 := get32 m (srcp1 + 4), b1 := get32 m (srcp2 + 4)\<rparr>; x = MERGE (a3 w) shl (a0 w) shr in
       if x \<noteq> b0 w then memcmp_bytes x (b0 w) else shifted_loop m shl shr Do2 srcp1 srcp2 len w
   | Do2 \<Rightarrow> let w = w\<lparr>a2 := get32 m (srcp1 + 8), b2 := get32 m (srcp2 + 8)\<rparr>; x = MERGE (a0 w) shl (a1 w) shr in
       if x \<noteq> b1 w then memcmp_bytes x (b1 w) else shifted_loop m shl shr Do1 srcp1 srcp2 len w
   | Do1 \<Rightarrow> let w = w\<lparr>a3 := get32 m (srcp1 + 12), b3 := get32 m (srcp2 + 12)\<rparr>; x = MERGE (a1 w) shl (a2 w) shr in
       if x \<noteq> b2 w then memcmp_bytes x (b2 w)
       else let srcp1 = srcp1 + 4 * OPSIZ; srcp2 = srcp2 + 4 * OPSIZ; len = len - 4 in
         shifted_loop m shl shr (if len \<noteq> 0 then Top else Do0) srcp1 srcp2 len w
   | Do0 \<Rightarrow> let x = MERGE (a2 w) shl (a3 w) shr in if x \<noteq> b3 w then memcmp_bytes x (b3 w) else Some 0)"

definition memcmp_not_common_alignment :: "bytes \<Rightarrow> u32 \<Rightarrow> u32 \<Rightarrow> u32 \<Rightarrow> int option" where
  "memcmp_not_common_alignment m srcp1 srcp2 len =
     (let shl = 8 * unat (srcp1 mod OPSIZ); shr = 8 * unat OPSIZ - shl; srcp1 = srcp1 AND - OPSIZ;
          v0 = get32 m srcp1; v1 = get32 m (srcp1 + 4); b = get32 m srcp2 in
      if len mod 4 = 3 then shifted_loop m shl shr Do2 srcp1 (srcp2 - OPSIZ) (len + 1) (no_words\<lparr>a0 := v0, a1 := v1, b1 := b\<rparr>)
      else if len mod 4 = 0 then
        if OP_T_THRES \<le> 3 * OPSIZ \<and> len = 0 then Some 0
        else shifted_loop m shl shr Do3 (srcp1 + OPSIZ) srcp2 len (no_words\<lparr>a3 := v0, a0 := v1, b0 := b\<rparr>)
      else if len mod 4 = 1 then
        let srcp1 = srcp1 + 2 * OPSIZ; srcp2 = srcp2 + OPSIZ; len = len - 1 in
        shifted_loop m shl shr (if OP_T_THRES \<le> 3 * OPSIZ \<and> len = 0 then Do0 else Top) srcp1 srcp2 len
          (no_words\<lparr>a2 := v0, a3 := v1, b3 := b\<rparr>)
      else shifted_loop m shl shr Do1 (srcp1 - OPSIZ) (srcp2 - 2 * OPSIZ) (len + 2) (no_words\<lparr>a1 := v0, a2 := v1, b2 := b\<rparr>))"

text \<open>The loop that aligns the second block returns a difference, or the pointers and the length left.\<close>

partial_function (option) align_loop :: "bytes \<Rightarrow> u32 \<Rightarrow> u32 \<Rightarrow> u32 \<Rightarrow> (int + u32 \<times> u32 \<times> u32) option" where
  "align_loop m srcp1 srcp2 len =
     (if srcp2 mod OPSIZ \<noteq> 0 then
        let res = ucast (m srcp1) - ucast (m srcp2) :: u32 in
        if res \<noteq> 0 then Some (Inl (sint res)) else align_loop m (srcp1 + 1) (srcp2 + 1) (len - 1)
      else Some (Inr (srcp1, srcp2, len)))"

function tail_loop :: "bytes \<Rightarrow> u32 \<Rightarrow> u32 \<Rightarrow> u32 \<Rightarrow> int" where
  "tail_loop m srcp1 srcp2 len =
     (if len \<noteq> 0 then
        let res = ucast (m srcp1) - ucast (m srcp2) :: u32 in
        if res \<noteq> 0 then sint res else tail_loop m (srcp1 + 1) (srcp2 + 1) (len - 1)
      else 0)"
  by pat_completeness auto
termination by (relation "measure (\<lambda>(_, _, _, len). unat len)") (auto simp: unat_minus_one unat_gt_0)

declare tail_loop.simps [simp del]

definition memcmp :: "bytes \<Rightarrow> u32 \<Rightarrow> u32 \<Rightarrow> u32 \<Rightarrow> int option" where
  "memcmp m s1 s2 len =
     (if len \<ge> OP_T_THRES then
        Option.bind (align_loop m s1 s2 len) (\<lambda>r. case r of Inl res \<Rightarrow> Some res | Inr (srcp1, srcp2, len) \<Rightarrow>
        Option.bind (if srcp1 mod OPSIZ = 0 then memcmp_common_alignment m srcp1 srcp2 (len div OPSIZ)
                     else memcmp_not_common_alignment m srcp1 srcp2 (len div OPSIZ)) (\<lambda>res.
        if res \<noteq> 0 then Some res
        else Some (tail_loop m (srcp1 + (len AND - OPSIZ)) (srcp2 + (len AND - OPSIZ)) (len mod OPSIZ))))
      else Some (tail_loop m s1 s2 len))"

text \<open>\<^verbatim>\<open>memmem\<close> compares the first byte itself.\<close>

partial_function (option) memmem_loop :: "bytes \<Rightarrow> u32 \<Rightarrow> u32 \<Rightarrow> u32 \<Rightarrow> u32 \<Rightarrow> u32 option" where
  "memmem_loop m begin last_possible needle needle_len =
     (if begin \<le> last_possible then
        Option.bind (if m begin = m needle then memcmp m (begin + 1) (needle + 1) (needle_len - 1) else Some 1) (\<lambda>r.
        if r = 0 then Some begin else memmem_loop m (begin + 1) last_possible needle needle_len)
      else Some NULL)"

definition memmem :: "bytes \<Rightarrow> u32 \<Rightarrow> u32 \<Rightarrow> u32 \<Rightarrow> u32 \<Rightarrow> u32 option" where
  "memmem m haystack haystack_len needle needle_len =
     (if needle_len = 0 then Some haystack
      else if haystack_len < needle_len then Some NULL
      else memmem_loop m haystack (haystack + haystack_len - needle_len) needle needle_len)"

subsection \<open>The last byte of a kind\<close>

definition magic_bits :: u32 where "magic_bits = 0x7EFEFEFF"

definition charmask :: "u8 \<Rightarrow> u32" where
  "charmask c = (let w = ucast c OR push_bit 8 (ucast c) in w OR push_bit 16 w)"

definition maybe_byte :: "u32 \<Rightarrow> bool" where
  "maybe_byte longword \<longleftrightarrow> ((longword + magic_bits) XOR NOT longword) AND NOT magic_bits \<noteq> 0"

text \<open>The three loops: to a word boundary, over words, over the bytes that are left. The first two return a found address or the
  pointer and the count left.\<close>

function memrchr_align :: "bytes \<Rightarrow> u8 \<Rightarrow> u32 \<Rightarrow> u32 \<Rightarrow> u32 + u32 \<times> u32" where
  "memrchr_align m c char_ptr n =
     (if n > 0 \<and> char_ptr AND 3 \<noteq> 0 then
        if m (char_ptr - 1) = c then Inl (char_ptr - 1) else memrchr_align m c (char_ptr - 1) (n - 1)
      else Inr (char_ptr, n))"
  by pat_completeness auto
termination by (relation "measure (\<lambda>(_, _, _, n). unat n)") (auto simp: unat_minus_one unat_gt_0)

function memrchr_words :: "bytes \<Rightarrow> u8 \<Rightarrow> u32 \<Rightarrow> u32 \<Rightarrow> u32 + u32 \<times> u32" where
  "memrchr_words m c longword_ptr n =
     (if n \<ge> 4 then
        let cp = longword_ptr - 4; longword = get32 m cp XOR charmask c in
        if maybe_byte longword \<and> m (cp + 3) = c then Inl (cp + 3)
        else if maybe_byte longword \<and> m (cp + 2) = c then Inl (cp + 2)
        else if maybe_byte longword \<and> m (cp + 1) = c then Inl (cp + 1)
        else if maybe_byte longword \<and> m cp = c then Inl cp
        else memrchr_words m c cp (n - 4)
      else Inr (longword_ptr, n))"
  by pat_completeness auto
termination by (relation "measure (\<lambda>(_, _, _, n). unat n)") (auto simp: unat_sub word_le_nat_alt)

function memrchr_tail :: "bytes \<Rightarrow> u8 \<Rightarrow> u32 \<Rightarrow> u32 \<Rightarrow> u32" where
  "memrchr_tail m c char_ptr n =
     (if n > 0 then if m (char_ptr - 1) = c then char_ptr - 1 else memrchr_tail m c (char_ptr - 1) (n - 1) else NULL)"
  by pat_completeness auto
termination by (relation "measure (\<lambda>(_, _, _, n). unat n)") (auto simp: unat_minus_one unat_gt_0)

declare memrchr_align.simps [simp del] memrchr_words.simps [simp del] memrchr_tail.simps [simp del]

definition memrchr :: "bytes \<Rightarrow> u32 \<Rightarrow> u32 \<Rightarrow> u32 \<Rightarrow> u32" where
  "memrchr m s c_in n =
     (let c = ucast c_in in
      case memrchr_align m c (s + n) n of Inl a \<Rightarrow> a
      | Inr (p, n) \<Rightarrow> (case memrchr_words m c p n of Inl a \<Rightarrow> a | Inr (p, n) \<Rightarrow> memrchr_tail m c p n))"
subsection \<open>Words and bytes\<close>

primrec bytes_cmp :: "bytes \<Rightarrow> u32 \<Rightarrow> u32 \<Rightarrow> nat \<Rightarrow> int" where
  "bytes_cmp m s t 0 = 0"
| "bytes_cmp m s t (Suc n) = (if m s = m t then bytes_cmp m (s + 1) (t + 1) n else uint (m s) - uint (m t))"

lemma signed_small: "0 \<le> x \<Longrightarrow> x < 256 \<Longrightarrow> 0 \<le> y \<Longrightarrow> y < 256 \<Longrightarrow> signed_take_bit 31 (x - y) = x - (y :: int)"
  by (intro signed_take_bit_int_eq_self) auto

lemma sint_byte_diff: "sint (ucast a - ucast b :: u32) = uint (a :: u8) - uint (b :: u8)"
proof -
  have "(ucast a - ucast b :: u32) = word_of_int (uint a - uint b)" by (simp add: of_int_diff)
  moreover have "signed_take_bit 31 (uint a - uint b) = uint a - uint b"
    by (intro signed_small) (use uint_lt2p [of a] uint_lt2p [of b] in simp_all)
  ultimately show ?thesis by (simp only: signed_of_int) simp
qed

lemma byte_diff_zero [simp]: "(ucast a - ucast b :: u32) = 0 \<longleftrightarrow> (a :: u8) = b"
  using sint_byte_diff [of a b] by (metis diff_0_eq_0 eq_iff_diff_eq_0 signed_0 word_uint_eqI)

lemma byte_of_word: "w AND 0xFF = (ucast (ucast w :: u8) :: u32)" for w :: u32
proof -
  have "w AND mask 8 = (ucast (ucast w :: u8) :: u32)" by (auto intro!: bit_word_eqI simp: bit_simps)
  then show ?thesis by (simp add: mask_eq_exp_minus_1)
qed

lemma uint_same [simp]: "uint a = uint b \<longleftrightarrow> a = (b :: u8)"
  by (simp add: word_uint_eq_iff)

lemma get32_eq_iff:
  "get32 m s = get32 m t \<longleftrightarrow> m s = m t \<and> m (s + 1) = m (t + 1) \<and> m (s + 2) = m (t + 2) \<and> m (s + 3) = m (t + 3)"
  by (metis get32_byte get32_def)

lemma bytes_cmp_four:
  "bytes_cmp m s t 4 = (if m s \<noteq> m t then uint (m s) - uint (m t) else if m (s + 1) \<noteq> m (t + 1) then uint (m (s + 1)) - uint (m (t + 1))
     else if m (s + 2) \<noteq> m (t + 2) then uint (m (s + 2)) - uint (m (t + 2)) else uint (m (s + 3)) - uint (m (t + 3)))"
proof -
  have four: "(4 :: nat) = Suc (Suc (Suc (Suc 0)))" by simp
  show ?thesis unfolding four by (simp add: add.assoc)
qed

lemma get32_nth_byte:
  assumes "i < 4"
  shows "drop_bit (8 * i) (get32 m s) AND 0xFF = ucast (m (s + of_nat i))"
proof -
  have "i = 0 \<or> i = 1 \<or> i = 2 \<or> i = 3" using assms by arith
  then show ?thesis unfolding byte_of_word by (elim disjE) (simp_all add: get32_byte)
qed

lemma memcmp_bytes_from_get32:
  "i \<le> 4 \<Longrightarrow> memcmp_bytes_from i (get32 m s) (get32 m t)
     = (let r = bytes_cmp m (s + of_nat i) (t + of_nat i) (4 - i) in if r = 0 then None else Some r)"
proof (induction "4 - i" arbitrary: i)
  case 0
  then show ?case by (simp add: memcmp_bytes_from.simps [of 4])
next
  case (Suc n)
  then have n: "n = 4 - Suc i" by arith
  from Suc have IH: "memcmp_bytes_from (Suc i) (get32 m s) (get32 m t)
     = (let r = bytes_cmp m (s + of_nat (Suc i)) (t + of_nat (Suc i)) (4 - Suc i) in if r = 0 then None else Some r)"
    using Suc.hyps(1) [of "Suc i"] by (simp add: n)
  from Suc.hyps(2) have i: "i < 4" by simp
  have eq: "(ucast (m x) :: u32) = ucast (m y) \<longleftrightarrow> m x = m y" for x y using byte_diff_zero [of "m x" "m y"] by simp
  show ?case
    unfolding memcmp_bytes_from.simps [of i] get32_nth_byte [OF i] Let_def IH eq sint_byte_diff Suc.hyps(2) [symmetric] n
    using i by (simp add: Let_def ac_simps)
qed

lemma word_cmp_zero: "bytes_cmp m s t 4 = 0 \<longleftrightarrow> get32 m s = get32 m t"
  by (auto simp: bytes_cmp_four get32_eq_iff)

lemma memcmp_bytes_get32:
  "get32 m s \<noteq> get32 m t \<Longrightarrow> memcmp_bytes (get32 m s) (get32 m t) = Some (bytes_cmp m s t 4)"
  unfolding memcmp_bytes_def using memcmp_bytes_from_get32 [of 0 m s t] by (simp add: word_cmp_zero [symmetric] Let_def)

lemma bytes_cmp_add:
  "bytes_cmp m s t (a + b) = (if bytes_cmp m s t a = 0 then bytes_cmp m (s + of_nat a) (t + of_nat a) b else bytes_cmp m s t a)"
  by (induction a arbitrary: s t) (simp_all add: ac_simps)

lemma bytes_cmp_word:
  "bytes_cmp m s t (4 + n) = (if get32 m s = get32 m t then bytes_cmp m (s + 4) (t + 4) n else bytes_cmp m s t 4)"
  using bytes_cmp_add [of m s t 4 n] by (simp add: word_cmp_zero)
subsection \<open>The unrolled loops\<close>

text \<open>Each label compares one word and leaves the rest to the next label.\<close>

lemma common_Do0: "common_loop m Do0 p q len x y (get32 m s) (get32 m t) = Some (bytes_cmp m s t 4)"
  by (simp add: common_loop.simps [of m Do0] memcmp_bytes_get32 word_cmp_zero)

lemma common_Do1:
  assumes "\<And>x y. common_loop m (if len - 4 \<noteq> 0 then Top else Do0) (p + 16) (q + 16) (len - 4) x y (get32 m (p + 12)) (get32 m (q + 12))
    = Some (bytes_cmp m (p + 12) (q + 12) n)"
  shows "common_loop m Do1 p q len (get32 m (p + 8)) (get32 m (q + 8)) x y = Some (bytes_cmp m (p + 8) (q + 8) (4 + n))"
  using assms by (simp add: common_loop.simps [of m Do1] Let_def OPSIZ_def memcmp_bytes_get32 bytes_cmp_word add.assoc del: right_minus_eq)

lemma common_Do2:
  assumes "\<And>x y. common_loop m Do1 p q len (get32 m (p + 8)) (get32 m (q + 8)) x y = Some (bytes_cmp m (p + 8) (q + 8) n)"
  shows "common_loop m Do2 p q len x y (get32 m (p + 4)) (get32 m (q + 4)) = Some (bytes_cmp m (p + 4) (q + 4) (4 + n))"
  using assms by (simp add: common_loop.simps [of m Do2] Let_def memcmp_bytes_get32 bytes_cmp_word add.assoc)

lemma common_Do3:
  assumes "\<And>x y. common_loop m Do2 p q len x y (get32 m (p + 4)) (get32 m (q + 4)) = Some (bytes_cmp m (p + 4) (q + 4) n)"
  shows "common_loop m Do3 p q len (get32 m p) (get32 m q) x y = Some (bytes_cmp m p q (4 + n))"
  using assms by (simp add: common_loop.simps [of m Do3] Let_def memcmp_bytes_get32 bytes_cmp_word)

lemma common_Top:
  assumes "\<And>x y. common_loop m Do3 p q len (get32 m p) (get32 m q) x y = Some (bytes_cmp m p q n)"
  shows "common_loop m Top p q len x y (get32 m (p - 4)) (get32 m (q - 4)) = Some (bytes_cmp m (p - 4) (q - 4) (4 + n))"
  using assms by (simp add: common_loop.simps [of m Top] Let_def memcmp_bytes_get32 bytes_cmp_word)

lemma of_nat_small_nz: "0 < n \<Longrightarrow> n < 2 ^ 32 \<Longrightarrow> (of_nat n :: u32) \<noteq> 0"
  by (auto simp: word_of_nat_eq_0_iff dest: nat_dvd_not_less)

lemma common_Do1_run:
  assumes "4 * Suc k < 2 ^ 32"
  shows "common_loop m Do1 p q (of_nat (4 * Suc k)) (get32 m (p + 8)) (get32 m (q + 8)) x y
    = Some (bytes_cmp m (p + 8) (q + 8) (4 * (4 * k + 2)))"
  using assms
proof (induction k arbitrary: p q x y)
  case 0
  show ?case using common_Do1 [of m 4 p q 4] common_Do0 by simp
next
  case (Suc k)
  have len: "of_nat (4 * Suc (Suc k)) - 4 = (of_nat (4 * Suc k) :: u32)" by simp
  have nz: "(of_nat (4 * Suc k) :: u32) \<noteq> 0" using Suc.prems by (intro of_nat_small_nz) simp_all
  have "common_loop m Do1 (p + 16) (q + 16) (of_nat (4 * Suc k)) (get32 m (p + 16 + 8)) (get32 m (q + 16 + 8)) x y
     = Some (bytes_cmp m (p + 16 + 8) (q + 16 + 8) (4 * (4 * k + 2)))" for x y
    using Suc.prems by (intro Suc.IH) simp
  from common_Top [OF common_Do3 [OF common_Do2 [OF this]]]
  have "common_loop m Top (p + 16) (q + 16) (of_nat (4 * Suc k)) x y (get32 m (p + 12)) (get32 m (q + 12))
     = Some (bytes_cmp m (p + 12) (q + 12) (4 + (4 + (4 + 4 * (4 * k + 2)))))" for x y by (simp add: diff_add_eq add.assoc add.commute)
  then have "common_loop m Do1 p q (of_nat (4 * Suc (Suc k))) (get32 m (p + 8)) (get32 m (q + 8)) x y
     = Some (bytes_cmp m (p + 8) (q + 8) (4 + (4 + (4 + (4 + 4 * (4 * k + 2))))))"
    by (intro common_Do1) (simp only: len nz not_False_eq_True if_True simp_thms)
  then show ?case by (simp add: algebra_simps)
qed

lemmas common_run = common_Do1_run common_Do2 [OF common_Do1_run] common_Do3 [OF common_Do2 [OF common_Do1_run]]
  common_Top [OF common_Do3 [OF common_Do2 [OF common_Do1_run]]]

lemma quads:
  assumes "n < 2 ^ 32"
  obtains k r where "n = 4 * k + r" "r = 0 \<or> r = 1 \<or> r = 2 \<or> r = 3" "(of_nat n :: u32) mod 4 = of_nat r"
proof
  show "n = 4 * (n div 4) + n mod 4" by simp
  have "n mod 4 < 4" by simp
  then show "n mod 4 = 0 \<or> n mod 4 = 1 \<or> n mod 4 = 2 \<or> n mod 4 = 3" by arith
  have "unat (of_nat n :: u32) = n" using assms by (simp add: unat_of_nat)
  then show "(of_nat n :: u32) mod 4 = of_nat (n mod 4)" by (simp add: word_arith_nat_mod)
qed

lemma memcmp_common_alignment_run:
  assumes "3 \<le> n" "n + 2 < 2 ^ 32"
  shows "memcmp_common_alignment m s t (of_nat n) = Some (bytes_cmp m s t (4 * n))"
proof -
  obtain k r where n: "n = 4 * k + r" and r: "r = 0 \<or> r = 1 \<or> r = 2 \<or> r = 3" and md: "(of_nat n :: u32) mod 4 = of_nat r"
    by (rule quads [of n]) (use assms(2) in simp, blast)
  from r consider "r = 0" | "r = 1" | "r = 2" | "r = 3" by blast
  then show ?thesis
  proof cases
    case 1
    then obtain j where "k = Suc j" using assms(1) n by (cases k) auto
    with common_run(3) [of j m s t 0 0] show ?thesis using assms(2) n 1 md
      by (simp add: memcmp_common_alignment_def OPSIZ_def OP_T_THRES_def)
  next
    case 2
    then obtain j where "k = Suc j" using assms(1) n by (cases k) auto
    with common_run(4) [of j m "s + 4" "t + 4" 0 0] show ?thesis using assms(2) n 2 md
      by (simp add: memcmp_common_alignment_def OPSIZ_def OP_T_THRES_def)
  next
    case 3
    with common_run(1) [of k m "s - 8" "t - 8" 0 0] show ?thesis using assms(2) n md
      by (simp add: memcmp_common_alignment_def OPSIZ_def OP_T_THRES_def)
  next
    case 4
    with common_run(2) [of k m "s - 4" "t - 4" 0 0] show ?thesis using assms(2) n md
      by (simp add: add.commute memcmp_common_alignment_def OPSIZ_def OP_T_THRES_def)
  qed
qed

lemma bit_get32: "bit (get32 m a) n \<longleftrightarrow> n < 32 \<and> bit (m (a + of_nat (n div 8))) (n mod 8)"
proof (cases "n < 32")
  case True
  have beyond: "bit (m x) k \<Longrightarrow> k < 8" for x k using bit_imp_le_length by fastforce
  obtain i r where n: "n = 8 * i + r" "r < 8" "i = 0 \<or> i = 1 \<or> i = 2 \<or> i = 3"
  proof
    show "n = 8 * (n div 8) + n mod 8" "n mod 8 < 8" by simp_all
    have "n div 8 < 4" using True by simp
    then show "n div 8 = 0 \<or> n div 8 = 1 \<or> n div 8 = 2 \<or> n div 8 = 3" by arith
  qed
  have "n div 8 = i" "n mod 8 = r" using n(1,2) by simp_all
  moreover from n(3) have "bit (get32 m a) (8 * i + r) \<longleftrightarrow> bit (m (a + of_nat i)) r"
    using n(2) by (elim disjE) (auto simp: get32_def bit_simps dest: beyond)
  ultimately show ?thesis using True n(1) by simp
qed (use bit_imp_le_length [of "get32 m a" n] in auto)

lemma MERGE_get32:
  assumes "0 < i" "i < 4"
  shows "MERGE (get32 m p) (8 * i) (get32 m (p + 4)) (32 - 8 * i) = get32 m (p + of_nat i)"
proof (rule bit_word_eqI)
  fix n assume "n < LENGTH(32)"
  then have n: "n < 32" by simp
  show "bit (MERGE (get32 m p) (8 * i) (get32 m (p + 4)) (32 - 8 * i)) n = bit (get32 m (p + of_nat i)) n"
  proof (cases "n < 32 - 8 * i")
    case True
    then show ?thesis using n assms by (auto simp: MERGE_def bit_simps bit_get32 ac_simps)
  next
    case False
    then have "n = (n - (32 - 8 * i)) + 8 * (4 - i)" using assms by simp
    then obtain j where j: "n = j + 8 * (4 - i)" by metis
    have "n - (32 - 8 * i) = j" "n div 8 = j div 8 + (4 - i)" "n mod 8 = j mod 8" "j < 32" "\<not> n + 8 * i < 32" using j n assms False by simp_all
    note 1 = this
    have "(of_nat (4 - i) :: u32) + of_nat i = 4" using assms by (simp flip: of_nat_add)
    then have ad: "p + of_nat i + of_nat (n div 8) = p + 4 + of_nat (j div 8)" by (simp add: 1(2) algebra_simps)
    have "bit (MERGE (get32 m p) (8 * i) (get32 m (p + 4)) (32 - 8 * i)) n = bit (get32 m (p + 4)) j"
      using False n 1(5) by (simp add: MERGE_def bit_simps bit_get32 add.commute [of "8 * i"] 1(1))
    then show ?thesis using n by (simp only: bit_get32 ad 1(3)) (simp add: 1(4))
  qed
qed
text \<open>The loop for blocks aligned differently: \<open>i\<close> is the offset of the first block in its words.\<close>

definition shifted :: "bytes \<Rightarrow> nat \<Rightarrow> cmp_label \<Rightarrow> u32 \<Rightarrow> u32 \<Rightarrow> u32 \<Rightarrow> cmp_words \<Rightarrow> int option" where
  "shifted m i = shifted_loop m (8 * i) (32 - 8 * i)"

lemma shifted_Do0:
  assumes "0 < i" "i < 4" "a2 w = get32 m s" "a3 w = get32 m (s + 4)" "b3 w = get32 m t"
  shows "shifted m i Do0 p q len w = Some (bytes_cmp m (s + of_nat i) t 4)"
  unfolding shifted_def by (simp add: shifted_loop.simps [of m _ _ Do0] Let_def assms MERGE_get32 memcmp_bytes_get32 word_cmp_zero)

lemma shifted_Do1:
  assumes "0 < i" "i < 4" "a1 w = get32 m (p + 4)" "a2 w = get32 m (p + 8)" "b2 w = get32 m (q + 8)"
    and "\<And>w. a2 w = get32 m (p + 8) \<Longrightarrow> a3 w = get32 m (p + 12) \<Longrightarrow> b3 w = get32 m (q + 12) \<Longrightarrow>
      shifted m i (if len - 4 \<noteq> 0 then Top else Do0) (p + 16) (q + 16) (len - 4) w = Some (bytes_cmp m (p + of_nat i + 8) (q + 12) n)"
  shows "shifted m i Do1 p q len w = Some (bytes_cmp m (p + of_nat i + 4) (q + 8) (4 + n))"
  using assms MERGE_get32 [of i m "p + 4"] bytes_cmp_word [of m "p + of_nat i + 4" "q + 8" n] unfolding shifted_def
  by (simp add: shifted_loop.simps [of m _ _ Do1] Let_def OPSIZ_def memcmp_bytes_get32 ac_simps del: right_minus_eq)

lemma shifted_Do2:
  assumes "0 < i" "i < 4" "a0 w = get32 m p" "a1 w = get32 m (p + 4)" "b1 w = get32 m (q + 4)"
    and "\<And>w. a1 w = get32 m (p + 4) \<Longrightarrow> a2 w = get32 m (p + 8) \<Longrightarrow> b2 w = get32 m (q + 8) \<Longrightarrow>
      shifted m i Do1 p q len w = Some (bytes_cmp m (p + of_nat i + 4) (q + 8) n)"
  shows "shifted m i Do2 p q len w = Some (bytes_cmp m (p + of_nat i) (q + 4) (4 + n))"
  using assms MERGE_get32 [of i m p] unfolding shifted_def
  by (simp add: shifted_loop.simps [of m _ _ Do2] Let_def memcmp_bytes_get32 bytes_cmp_word add.assoc)

lemma shifted_Do3:
  assumes "0 < i" "i < 4" "a3 w = get32 m (p - 4)" "a0 w = get32 m p" "b0 w = get32 m q"
    and "\<And>w. a0 w = get32 m p \<Longrightarrow> a1 w = get32 m (p + 4) \<Longrightarrow> b1 w = get32 m (q + 4) \<Longrightarrow>
      shifted m i Do2 p q len w = Some (bytes_cmp m (p + of_nat i) (q + 4) n)"
  shows "shifted m i Do3 p q len w = Some (bytes_cmp m (p + of_nat i - 4) q (4 + n))"
  using assms MERGE_get32 [of i m "p - 4"] unfolding shifted_def
  by (simp add: shifted_loop.simps [of m _ _ Do3] Let_def memcmp_bytes_get32 bytes_cmp_word diff_add_eq)

lemma shifted_Top:
  assumes "0 < i" "i < 4" "a2 w = get32 m (p - 8)" "a3 w = get32 m (p - 4)" "b3 w = get32 m (q - 4)"
    and "\<And>w. a3 w = get32 m (p - 4) \<Longrightarrow> a0 w = get32 m p \<Longrightarrow> b0 w = get32 m q \<Longrightarrow>
      shifted m i Do3 p q len w = Some (bytes_cmp m (p + of_nat i - 4) q n)"
  shows "shifted m i Top p q len w = Some (bytes_cmp m (p + of_nat i - 8) (q - 4) (4 + n))"
  using assms MERGE_get32 [of i m "p - 8"] unfolding shifted_def
  by (simp add: shifted_loop.simps [of m _ _ Top] Let_def memcmp_bytes_get32 bytes_cmp_word diff_add_eq)

lemma shifted_Do1_run:
  assumes "0 < i" "i < 4" "4 * Suc k < 2 ^ 32" "a1 w = get32 m (p + 4)" "a2 w = get32 m (p + 8)" "b2 w = get32 m (q + 8)"
  shows "shifted m i Do1 p q (of_nat (4 * Suc k)) w = Some (bytes_cmp m (p + of_nat i + 4) (q + 8) (4 * (4 * k + 2)))"
  using assms
proof (induction k arbitrary: p q w)
  case 0
  show ?case using shifted_Do1 [of i w m p q 4 4] shifted_Do0 [of i _ m "p + 8" "q + 12"] 0 by (simp add: ac_simps)
next
  case (Suc k)
  have len: "of_nat (4 * Suc (Suc k)) - 4 = (of_nat (4 * Suc k) :: u32)" by simp
  have nz: "(of_nat (4 * Suc k) :: u32) \<noteq> 0" using Suc.prems by (intro of_nat_small_nz) simp_all
  have k: "4 * Suc k < 2 ^ 32" using Suc.prems by simp
  let ?p = "p + 16" and ?q = "q + 16"
  have p: "?p - 8 = p + 8" "?p - 4 = p + 12" "?q - 4 = q + 12" "?p + of_nat i - 8 = p + of_nat i + 8" by simp_all
  note chain = shifted_Top [OF Suc.prems(1,2) _ _ _ shifted_Do3 [OF Suc.prems(1,2) _ _ _ shifted_Do2 [OF Suc.prems(1,2) _ _ _
      Suc.IH [OF Suc.prems(1,2) k, of _ ?p ?q]]], unfolded p]
  have "shifted m i Do1 p q (of_nat (4 * Suc (Suc k))) w = Some (bytes_cmp m (p + of_nat i + 4) (q + 8) (4 + (4 + (4 + (4 + 4 * (4 * k + 2))))))"
    by (rule shifted_Do1 [OF Suc.prems(1,2,4-6)]) (simp only: len nz not_False_eq_True if_True simp_thms chain)
  then show ?case by (simp add: algebra_simps)
qed

lemma word_parts: "s = (s AND - 4) + s mod 4" for s :: u32
proof -
  have m: "- 4 = (NOT (mask 2) :: u32)" by (simp add: mask_eq_exp_minus_1 not_eq_complement)
  have t: "s mod 4 = take_bit 2 s" by (simp add: take_bit_eq_mod)
  have "(s AND - 4) + s mod 4 = (s AND - 4) OR s mod 4"
    unfolding m t by (rule disjunctive_add_eq_or, rule bit_word_eqI) (auto simp: bit_simps)
  also have "\<dots> = s" unfolding m t by (rule bit_word_eqI) (auto simp: bit_simps)
  finally show ?thesis by simp
qed

lemma not_common_start:
  assumes r: "r = 0 \<or> r = 1 \<or> r = 2 \<or> r = 3" and md: "(of_nat n :: u32) mod 4 = of_nat r"
    and i_def: "i = unat (s mod 4)" and p_def: "p = s AND - 4"
  shows "memcmp_not_common_alignment m s t (of_nat n) =
     (if r = 3 then shifted m i Do2 p (t - 4) (of_nat n + 1) (no_words\<lparr>a0 := get32 m p, a1 := get32 m (p + 4), b1 := get32 m t\<rparr>)
      else if r = 0 then shifted m i Do3 (p + 4) t (of_nat n) (no_words\<lparr>a3 := get32 m p, a0 := get32 m (p + 4), b0 := get32 m t\<rparr>)
      else if r = 1 then shifted m i Top (p + 8) (t + 4) (of_nat n - 1) (no_words\<lparr>a2 := get32 m p, a3 := get32 m (p + 4), b3 := get32 m t\<rparr>)
      else shifted m i Do1 (p - 4) (t - 8) (of_nat n + 2) (no_words\<lparr>a1 := get32 m p, a2 := get32 m (p + 4), b2 := get32 m t\<rparr>))"
proof -
  have "(of_nat r = (3 :: u32)) = (r = 3)" "(of_nat r = (0 :: u32)) = (r = 0)" "(of_nat r = (1 :: u32)) = (r = 1)" using r by auto
  moreover have "\<not> OP_T_THRES \<le> 3 * OPSIZ" "8 * unat OPSIZ = 32" "2 * OPSIZ = 8" by (simp_all add: OPSIZ_def OP_T_THRES_def)
  ultimately show ?thesis unfolding memcmp_not_common_alignment_def shifted_def i_def p_def
    by (simp only: Let_def md OPSIZ_def [symmetric] simp_thms if_False) (simp only: OPSIZ_def md)
qed

lemma memcmp_not_common_alignment_run:
  assumes "3 \<le> n" "n + 2 < 2 ^ 32" "s mod 4 \<noteq> 0"
  shows "memcmp_not_common_alignment m s t (of_nat n) = Some (bytes_cmp m s t (4 * n))"
proof -
  define i where "i = unat (s mod 4)"
  define p where "p = s AND - 4"
  have "i \<noteq> 0" using assms(3) unat_eq_zero [of "s mod 4"] by (simp add: i_def)
  then have i: "0 < i" "i < 4" by (simp_all add: i_def unat_mod)
  have s: "s = p + of_nat i" using word_parts [of s] by (simp add: i_def p_def)
  obtain k r where n: "n = 4 * k + r" and r: "r = 0 \<or> r = 1 \<or> r = 2 \<or> r = 3" and md: "(of_nat n :: u32) mod 4 = of_nat r"
    by (rule quads [of n]) (use assms(2) in simp, blast)
  note run1 = shifted_Do1_run [OF i] and run2 = shifted_Do2 [OF i _ _ _ shifted_Do1_run [OF i]]
    and run3 = shifted_Do3 [OF i _ _ _ shifted_Do2 [OF i _ _ _ shifted_Do1_run [OF i]]]
    and run0 = shifted_Top [OF i _ _ _ shifted_Do3 [OF i _ _ _ shifted_Do2 [OF i _ _ _ shifted_Do1_run [OF i]]]]
  note main = not_common_start [OF r md i_def p_def]
  from r consider "r = 0" | "r = 1" | "r = 2" | "r = 3" by blast
  then show ?thesis
  proof cases
    case 1
    then obtain j where j: "n = 4 * Suc j" using assms(1) n by (cases k) auto
    have "shifted m i Do3 (p + 4) t (of_nat (4 * Suc j)) (no_words\<lparr>a3 := get32 m p, a0 := get32 m (p + 4), b0 := get32 m t\<rparr>)
       = Some (bytes_cmp m (p + 4 + of_nat i - 4) t (4 + (4 + 4 * (4 * j + 2))))"
      by (rule run3) (use assms(2) j in simp_all)
    moreover have "4 + (4 + 4 * (4 * j + 2)) = 4 * n" "p + 4 + of_nat i - 4 = s" using j s by simp_all
    ultimately show ?thesis unfolding main using 1 by (simp only: j simp_thms if_True if_False) simp
  next
    case 2
    then obtain j where j: "n = 4 * Suc j + 1" using assms(1) n by (cases k) auto
    have "shifted m i Top (p + 8) (t + 4) (of_nat (4 * Suc j)) (no_words\<lparr>a2 := get32 m p, a3 := get32 m (p + 4), b3 := get32 m t\<rparr>)
       = Some (bytes_cmp m (p + 8 + of_nat i - 8) (t + 4 - 4) (4 + (4 + (4 + 4 * (4 * j + 2)))))"
      by (rule run0) (use assms(2) j in \<open>simp_all add: add.commute\<close>)
    moreover have "4 + (4 + (4 + 4 * (4 * j + 2))) = 4 * n" "p + 8 + of_nat i - 8 = s" "of_nat n - 1 = (of_nat (4 * Suc j) :: u32)"
      using j s by simp_all
    ultimately show ?thesis unfolding main using 2 by simp
  next
    case 3
    have "shifted m i Do1 (p - 4) (t - 8) (of_nat (4 * Suc k)) (no_words\<lparr>a1 := get32 m p, a2 := get32 m (p + 4), b2 := get32 m t\<rparr>)
       = Some (bytes_cmp m (p - 4 + of_nat i + 4) (t - 8 + 8) (4 * (4 * k + 2)))"
      by (rule run1) (use assms(2) 3 n in \<open>simp_all add: add.commute\<close>)
    moreover have "4 * (4 * k + 2) = 4 * n" "p - 4 + of_nat i + 4 = s" "of_nat n + 2 = (of_nat (4 * Suc k) :: u32)"
      using 3 n s by simp_all
    ultimately show ?thesis unfolding main using 3 by simp
  next
    case 4
    have "shifted m i Do2 p (t - 4) (of_nat (4 * Suc k)) (no_words\<lparr>a0 := get32 m p, a1 := get32 m (p + 4), b1 := get32 m t\<rparr>)
       = Some (bytes_cmp m (p + of_nat i) (t - 4 + 4) (4 + 4 * (4 * k + 2)))"
      by (rule run2) (use assms(2) 4 n in \<open>simp_all add: add.commute\<close>)
    moreover have "4 + 4 * (4 * k + 2) = 4 * n" "p + of_nat i = s" "of_nat n + 1 = (of_nat (4 * Suc k) :: u32)"
      using 4 n s by simp_all
    ultimately show ?thesis unfolding main using 4 by simp
  qed
qed

lemma ucast_byte_same [simp]: "(ucast a :: u32) = ucast b \<longleftrightarrow> a = (b :: u8)"
  using byte_diff_zero [of a b] by simp

lemma tail_loop_run: "tail_loop m s t n = bytes_cmp m s t (unat n)"
proof (induction "unat n" arbitrary: s t n)
  case 0
  then show ?case by (simp add: tail_loop.simps [of m s t 0] unat_eq_zero)
next
  case (Suc k)
  then have n: "n \<noteq> 0" by auto
  then have k: "unat (n - 1) = k" using Suc.hyps(2) by (simp add: unat_minus_one)
  show ?case unfolding tail_loop.simps [of m s t n] Suc.hyps(2) [symmetric] using n k Suc.hyps(1) [of "n - 1"]
    by (simp add: Let_def sint_byte_diff)
qed

lemma align_loop_run:
  assumes "(t + of_nat k) mod 4 = 0" "\<And>j. j < k \<Longrightarrow> (t + of_nat j) mod 4 \<noteq> 0"
  shows "align_loop m s t n = Some (if bytes_cmp m s t k \<noteq> 0 then Inl (bytes_cmp m s t k) else Inr (s + of_nat k, t + of_nat k, n - of_nat k))"
  using assms
proof (induction k arbitrary: s t n)
  case 0
  then show ?case by (simp add: align_loop.simps [of m s t] OPSIZ_def)
next
  case (Suc k)
  have "align_loop m (s + 1) (t + 1) (n - 1) = Some (if bytes_cmp m (s + 1) (t + 1) k \<noteq> 0 then Inl (bytes_cmp m (s + 1) (t + 1) k)
     else Inr (s + 1 + of_nat k, t + 1 + of_nat k, n - 1 - of_nat k))"
    using Suc.prems(1) Suc.prems(2) [of "Suc _"] by (intro Suc.IH) (simp_all add: add.assoc)
  moreover have "t mod 4 \<noteq> 0" using Suc.prems(2) [of 0] by simp
  ultimately show ?case
    by (simp add: align_loop.simps [of m s t] OPSIZ_def Let_def sint_byte_diff add.assoc diff_diff_eq)
qed

lemma align_steps:
  fixes t :: u32
  obtains k where "k < 4" "(t + of_nat k) mod 4 = 0" "\<And>j. j < k \<Longrightarrow> (t + of_nat j) mod 4 \<noteq> 0"
proof -
  have add: "(t + x) mod 4 = (t mod 4 + x) mod 4" for x :: u32
    by (simp add: word_unat_eq_iff unat_mod unat_word_ariths mod_mod_cancel mod_add_left_eq)
  define r where "r = unat t mod 4"
  have "t mod 4 = of_nat r" by (simp add: r_def word_arith_nat_mod)
  moreover have "r = 0 \<or> r = 1 \<or> r = 2 \<or> r = 3" unfolding r_def by presburger
  ultimately have "t mod 4 = 0 \<or> t mod 4 = 1 \<or> t mod 4 = 2 \<or> t mod 4 = 3" by auto
  then have "(t + of_nat 0) mod 4 = 0 \<or> (t + of_nat 3) mod 4 = 0 \<or> (t + of_nat 2) mod 4 = 0 \<or> (t + of_nat 1) mod 4 = 0"
    unfolding add by (elim disjE) simp_all
  then have "\<exists>k. k < 4 \<and> (t + of_nat k) mod 4 = 0"
    by (metis (no_types) one_less_numeral_iff numeral_less_iff semiring_norm(76,78,81) zero_less_numeral)
  then show thesis using that unfolding exists_least_iff [of "\<lambda>k. k < 4 \<and> (t + of_nat k) mod 4 = 0"] by (metis (no_types, lifting) order.strict_trans)
qed

lemma memcmp_run: "memcmp m s t n = Some (bytes_cmp m s t (unat n))"
proof (cases "OP_T_THRES \<le> n")
  case True
  then have n: "16 \<le> unat n" by (simp add: OP_T_THRES_def word_le_nat_alt)
  obtain k where k: "k < 4" "(t + of_nat k) mod 4 = 0" "\<And>j. j < k \<Longrightarrow> (t + of_nat j) mod 4 \<noteq> 0" 
    by (rule align_steps [of t]) (rule that)
  define l where "l = n - of_nat k"
  have l: "unat l = unat n - k" using n k(1) by (simp add: l_def unat_sub word_le_nat_alt unat_of_nat)
  define q where "q = unat l div 4"
  have q: "l div 4 = of_nat q" "3 \<le> q" "q + 2 < 2 ^ 32" "l AND - 4 = of_nat (4 * q)" "unat l = 4 * q + unat (l mod 4)"
  proof -
    show "l div 4 = of_nat q" by (simp add: q_def word_arith_nat_div)
    show "3 \<le> q" using l n k(1) by (simp add: q_def)
    show "q + 2 < 2 ^ 32" using unat_lt32 [of l] by (simp add: q_def)
    show u: "unat l = 4 * q + unat (l mod 4)" by (simp add: q_def unat_mod)
    have "l = of_nat (4 * q) + l mod 4" using arg_cong [OF u, of "of_nat :: nat \<Rightarrow> u32"] by simp
    with word_parts [of l] show "l AND - 4 = of_nat (4 * q)" by (metis add_right_cancel)
  qed
  let ?s = "s + of_nat k" and ?t = "t + of_nat k"
  have words: "(if ?s mod 4 = 0 then memcmp_common_alignment m ?s ?t (l div 4) else memcmp_not_common_alignment m ?s ?t (l div 4))
     = Some (bytes_cmp m ?s ?t (4 * q))"
    using memcmp_common_alignment_run [OF q(2,3)] memcmp_not_common_alignment_run [OF q(2,3)] by (simp add: q(1))
  have "unat n = k + (4 * q + unat (l mod 4))" using q(5) l n k(1) by linarith
  then have "bytes_cmp m s t (unat n) = bytes_cmp m s t (k + (4 * q + unat (l mod 4)))" by (simp only:)
  also have "\<dots> = (if bytes_cmp m s t k = 0 then if bytes_cmp m ?s ?t (4 * q) = 0
     then bytes_cmp m (?s + of_nat (4 * q)) (?t + of_nat (4 * q)) (unat (l mod 4)) else bytes_cmp m ?s ?t (4 * q) else bytes_cmp m s t k)"
    by (simp only: bytes_cmp_add)
  finally have spec: "bytes_cmp m s t (unat n) = \<dots>" .
  have align: "align_loop m s t n = Some (if bytes_cmp m s t k \<noteq> 0 then Inl (bytes_cmp m s t k) else Inr (?s, ?t, l))"
    unfolding l_def by (rule align_loop_run) (use k in auto)
  show ?thesis unfolding memcmp_def spec align OPSIZ_def
    using True words by (simp add: q(4) tail_loop_run del: of_nat_mult)
next
  case False
  then show ?thesis by (simp add: memcmp_def tail_loop_run)
qed
text \<open>C26: \<^verbatim>\<open>memcmp\<close> always returns, and its result is the difference of the first two bytes that differ, or 0 when the blocks are equal:
  aligning the second block, the two unrolled loops over words (the one that merges shifted words included) and the last bytes together
  compute what a comparison byte by byte computes, for every alignment and length.\<close>

theorem memcmp_bytewise: "memcmp m s1 s2 len = Some (bytes_cmp m s1 s2 (unat len))"
  by (rule memcmp_run)

definition occurs_at :: "bytes \<Rightarrow> u32 \<Rightarrow> nat \<Rightarrow> u32 \<Rightarrow> bool" where
  "occurs_at m needle n a \<longleftrightarrow> list_all (\<lambda>k. m (a + of_nat k) = m (needle + of_nat k)) [0..<n]"

lemma occurs_at_iff: "occurs_at m needle n a \<longleftrightarrow> (\<forall>k < n. m (a + of_nat k) = m (needle + of_nat k))"
  by (auto simp: occurs_at_def list_all_iff)

lemma bytes_cmp_zero: "bytes_cmp m s t n = 0 \<longleftrightarrow> (\<forall>k < n. m (s + of_nat k) = m (t + of_nat k))"
  by (induction n arbitrary: s t) (auto simp: less_Suc_eq_0_disj add.assoc)

lemma memmem_loop_step:
  assumes "begin \<le> lastp" "nl \<noteq> 0"
  shows "memmem_loop m begin lastp needle nl =
    (if occurs_at m needle (unat nl) begin then Some begin else memmem_loop m (begin + 1) lastp needle nl)"
proof -
  obtain k where k: "unat nl = Suc k" "unat (nl - 1) = k" using assms(2) by (cases "unat nl") (auto simp: unat_minus_one unat_eq_zero)
  have "occurs_at m needle (unat nl) begin \<longleftrightarrow> bytes_cmp m begin needle (Suc k) = 0"
    unfolding occurs_at_iff bytes_cmp_zero k(1) ..
  also have "\<dots> \<longleftrightarrow> m begin = m needle \<and> bytes_cmp m (begin + 1) (needle + 1) k = 0" by simp
  finally show ?thesis using assms(1) by (simp add: memmem_loop.simps [of m "begin"] memcmp_run k(2))
qed

lemma memmem_loop_run:
  assumes "nl \<noteq> 0" "unat h + n + 1 < 2 ^ 32"
  shows "\<exists>r. memmem_loop m h (h + of_nat n) needle nl = Some r \<and>
    ((\<exists>i \<le> n. r = h + of_nat i \<and> occurs_at m needle (unat nl) (h + of_nat i) \<and> (\<forall>j < i. \<not> occurs_at m needle (unat nl) (h + of_nat j)))
     \<or> r = NULL \<and> (\<forall>j \<le> n. \<not> occurs_at m needle (unat nl) (h + of_nat j)))"
  using assms(2)
proof (induction n arbitrary: h)
  case 0
  have "\<not> h + 1 \<le> h" using 0 by (simp add: word_le_nat_alt unat_word_ariths)
  then show ?case using memmem_loop_step [OF order_refl assms(1), of m h] by (simp add: memmem_loop.simps [of m "h + 1"])
next
  case (Suc n)
  let ?occ = "occurs_at m needle (unat nl)"
  have last_eq: "h + of_nat (Suc n) = h + 1 + of_nat n" by simp
  have "unat (h + of_nat (Suc n)) = unat h + Suc n" using Suc.prems by (simp only: unat_word_ariths unat_of_nat) (simp add: mod_simps)
  then have le: "h \<le> h + of_nat (Suc n)" by (simp only: word_le_nat_alt)
  show ?case
  proof (cases "?occ h")
    case True
    then show ?thesis using memmem_loop_step [OF le assms(1), of m needle] by (auto intro!: exI [of _ "0 :: nat"])
  next
    case False
    have "unat (h + 1) + n + 1 < 2 ^ 32" using Suc.prems by (simp add: unat_word_ariths)
    from Suc.IH [OF this] obtain r where r: "memmem_loop m (h + 1) (h + of_nat (Suc n)) needle nl = Some r"
      "(\<exists>i \<le> n. r = h + of_nat (Suc i) \<and> ?occ (h + of_nat (Suc i)) \<and> (\<forall>j < i. \<not> ?occ (h + of_nat (Suc j))))
       \<or> r = NULL \<and> (\<forall>j \<le> n. \<not> ?occ (h + of_nat (Suc j)))" unfolding last_eq by (auto simp: add.assoc)
    have r0: "memmem_loop m h (h + of_nat (Suc n)) needle nl = Some r"
      using memmem_loop_step [OF le assms(1), of m needle] False r(1) by simp
    have no: "\<not> ?occ (h + of_nat j)" if "j = 0 \<or> (\<exists>j'. j = Suc j' \<and> \<not> ?occ (h + of_nat (Suc j')))" for j using that False by auto
    from r(2) have "(\<exists>i \<le> Suc n. r = h + of_nat i \<and> ?occ (h + of_nat i) \<and> (\<forall>j < i. \<not> ?occ (h + of_nat j)))
       \<or> r = NULL \<and> (\<forall>j \<le> Suc n. \<not> ?occ (h + of_nat j))"
    proof (elim disjE exE conjE)
      fix i assume "i \<le> n" "r = h + of_nat (Suc i)" "?occ (h + of_nat (Suc i))" "\<forall>j < i. \<not> ?occ (h + of_nat (Suc j))"
      with False show ?thesis by (intro disjI1 exI [of _ "Suc i"]) (auto simp: less_Suc_eq_0_disj simp del: of_nat_Suc)
    next
      assume "r = NULL" "\<forall>j \<le> n. \<not> ?occ (h + of_nat (Suc j))"
      then show ?thesis by (intro disjI2) (metis no not0_implies_Suc Suc_le_mono)
    qed
    with r0 show ?thesis by blast
  qed
qed

text \<open>C28: \<^verbatim>\<open>memmem\<close> returns for every block that does not wrap around the address space: with the address of the first occurrence of the
  bytes of the second block in the first, or with NULL when there is none.\<close>

theorem memmem_finds_first:
  assumes "unat haystack + unat haystack_len < 2 ^ 32"
  shows "\<exists>r. memmem m haystack haystack_len needle needle_len = Some r \<and>
    (if \<exists>i. i + unat needle_len \<le> unat haystack_len \<and> occurs_at m needle (unat needle_len) (haystack + of_nat i)
     then \<exists>i. i + unat needle_len \<le> unat haystack_len \<and> r = haystack + of_nat i \<and> occurs_at m needle (unat needle_len) r \<and>
       (\<forall>j < i. \<not> occurs_at m needle (unat needle_len) (haystack + of_nat j))
     else r = NULL)"
proof -
  let ?occ = "occurs_at m needle (unat needle_len)"
  consider (none) "needle_len = 0" | (long) "needle_len \<noteq> 0" "haystack_len < needle_len" | (scan) "needle_len \<noteq> 0" "needle_len \<le> haystack_len" 
    by (metis linorder_not_less)
  then show ?thesis
  proof cases
    case none
    then have "?occ (haystack + of_nat 0)" by (simp add: occurs_at_def)
    then show ?thesis using none by (auto simp: memmem_def intro!: exI [of _ "0 :: nat"])
  next
    case long
    then show ?thesis by (simp add: memmem_def word_less_nat_alt)
  next
    case scan
    define n where "n = unat haystack_len - unat needle_len"
    have len: "unat needle_len + n = unat haystack_len" using scan(2) by (simp add: n_def word_le_nat_alt)
    then have "haystack_len - needle_len = of_nat n" using scan(2) by (metis diff_add_inverse of_nat_unat unat_sub ucast_id unat_of_nat)
    then have eq: "haystack + haystack_len - needle_len = haystack + of_nat n" by (metis add_diff_eq)
    have "memmem m haystack haystack_len needle needle_len = memmem_loop m haystack (haystack + of_nat n) needle needle_len"
      using scan by (simp add: memmem_def leD eq)
    moreover have "0 < unat needle_len" using scan(1) by (simp add: unat_gt_0)
    then have "unat haystack + n + 1 < 2 ^ 32" using assms len by linarith
    from memmem_loop_run [OF scan(1) this, of m needle] obtain r where
      "memmem_loop m haystack (haystack + of_nat n) needle needle_len = Some r"
      "(\<exists>i \<le> n. r = haystack + of_nat i \<and> ?occ (haystack + of_nat i) \<and> (\<forall>j < i. \<not> ?occ (haystack + of_nat j)))
       \<or> r = NULL \<and> (\<forall>j \<le> n. \<not> ?occ (haystack + of_nat j))" by blast
    moreover have "i + unat needle_len \<le> unat haystack_len \<longleftrightarrow> i \<le> n" for i using len by auto
    ultimately show ?thesis by auto
  qed
qed

theorem memmem_finds_first_witness:
  "\<exists>r. memmem ucast 100 16 361 3 = Some r \<and> occurs_at ucast 361 3 r"
proof -
  have u: "unat (3 :: u32) = 3" "unat (16 :: u32) = 16" "unat (100 :: u32) + unat (16 :: u32) < 2 ^ 32" by simp_all
  have "occurs_at ucast 361 3 (100 + of_nat 5)" by (simp add: occurs_at_def upt_rec)
  then have "\<exists>i. i + 3 \<le> 16 \<and> occurs_at ucast 361 3 (100 + of_nat i)" by (intro exI [of _ 5]) simp
  then show ?thesis using memmem_finds_first [of 100 16 ucast 361 3, OF u(3), unfolded u(1,2)] by (simp only: if_True) blast
qed

subsection \<open>The test for a zero byte\<close>

lemma bit_unat: "bit (unat w) n \<longleftrightarrow> bit w n" for w :: u32
  by (simp add: bit_unsigned_iff)

lemma bit_add_unchanged:
  fixes x y :: u32
  assumes "k < 32" "unat x mod 2 ^ k + unat y mod 2 ^ k < 2 ^ k" "\<not> bit y k"
  shows "bit (x + y) k \<longleftrightarrow> bit x k"
proof -
  have "unat (x + y) = take_bit 32 (unat x + unat y)" by (simp add: unat_word_ariths take_bit_eq_mod)
  then have "bit (x + y) k \<longleftrightarrow> bit (unat x + unat y) k" using assms(1) bit_unat [of "x + y" k] by (simp add: bit_take_bit_iff)
  also have "\<dots> \<longleftrightarrow> odd (unat x div 2 ^ k + unat y div 2 ^ k)"
    using assms(2) by (simp add: bit_iff_odd div_add1_eq [of "unat x" "unat y"])
  also have "\<dots> \<longleftrightarrow> bit (unat x) k" using assms(3) bit_unat [of y k] by (simp add: bit_iff_odd)
  finally show ?thesis by (simp add: bit_unat)
qed

lemma magic_hole:
  assumes "k < 32" "\<not> bit magic_bits k" "unat w mod 2 ^ k + unat magic_bits mod 2 ^ k < 2 ^ k"
  shows "maybe_byte w"
proof -
  have "bit (((w + magic_bits) XOR NOT w) AND NOT magic_bits) k"
    using assms bit_add_unchanged [OF assms(1,3,2)] by (simp add: bit_simps)
  then show ?thesis unfolding maybe_byte_def by (metis bit_0_eq bot_apply bot_bool_def)
qed

lemma zero_byte_small:
  fixes w :: u32
  assumes "\<And>b. b < 8 \<Longrightarrow> \<not> bit w (8 * i + b)"
  shows "unat w mod 2 ^ (8 * i + 8) < 2 ^ (8 * i)"
proof -
  have "take_bit (8 * i + 8) (unat w) = take_bit (8 * i) (unat w)"
  proof (rule bit_eqI)
    fix n
    show "bit (take_bit (8 * i + 8) (unat w)) n = bit (take_bit (8 * i) (unat w)) n"
      using assms [of "n - 8 * i"] by (cases "n < 8 * i") (auto simp: bit_take_bit_iff bit_unat)
  qed
  then show ?thesis by (metis take_bit_eq_mod take_bit_nat_less_exp)
qed

lemma maybe_byte_zero:
  assumes "i < 4" "\<And>b. b < 8 \<Longrightarrow> \<not> bit w (8 * i + b)"
  shows "maybe_byte w"
proof -
  have mb: "unat magic_bits = 0x7EFEFEFF" by (simp add: magic_bits_def)
  have small: "unat w mod 2 ^ (8 * i + 8) < 2 ^ (8 * i)" using assms(2) by (rule zero_byte_small)
  have "i = 0 \<or> i = 1 \<or> i = 2 \<or> i = 3" using assms(1) by arith
  then show ?thesis
  proof (elim disjE)
    assume "i = 0"
    then show ?thesis using small by (intro magic_hole [of 8]) (simp_all add: mb magic_bits_def)
  next
    assume "i = 1"
    then show ?thesis using small by (intro magic_hole [of 16]) (simp_all add: mb magic_bits_def)
  next
    assume "i = 2"
    then show ?thesis using small by (intro magic_hole [of 24]) (simp_all add: mb magic_bits_def)
  next
    assume "i = 3"
    then have "unat w < 2 ^ 24" using small unat_lt32 [of w] by simp
    then show ?thesis by (intro magic_hole [of 31]) (simp_all add: mb magic_bits_def)
  qed
qed
primrec last_byte :: "bytes \<Rightarrow> u8 \<Rightarrow> u32 \<Rightarrow> nat \<Rightarrow> u32" where
  "last_byte m c s 0 = NULL"
| "last_byte m c s (Suc n) = (if m (s + of_nat n) = c then s + of_nat n else last_byte m c s n)"

lemma charmask_bytes: "charmask c = get32 (\<lambda>_. c) 0"
  by (rule bit_word_eqI) (auto simp: charmask_def get32_def bit_simps)

lemma word_of_byte_c:
  assumes "i < 4" "m (p + of_nat i) = c"
  shows "maybe_byte (get32 m p XOR charmask c)"
proof (rule maybe_byte_zero [OF assms(1)])
  fix b :: nat assume "b < 8"
  then show "\<not> bit (get32 m p XOR charmask c) (8 * i + b)" using assms by (simp add: charmask_bytes bit_xor_iff bit_get32)
qed

lemma memrchr_tail_run: "n < 2 ^ 32 \<Longrightarrow> memrchr_tail m c (s + of_nat n) (of_nat n) = last_byte m c s n"
proof (induction n)
  case (Suc n)
  have "(of_nat (Suc n) :: u32) \<noteq> 0" using Suc.prems by (intro of_nat_small_nz) simp_all
  then show ?case using Suc by (simp add: memrchr_tail.simps [of m c "s + _"] word_gt_0)
qed (simp add: memrchr_tail.simps)

lemma memrchr_words_step:
  assumes "n + 4 < 2 ^ 32"
  shows "memrchr_words m c (s + of_nat (n + 4)) (of_nat (n + 4)) =
    (if m (s + of_nat n + 3) = c then Inl (s + of_nat n + 3) else if m (s + of_nat n + 2) = c then Inl (s + of_nat n + 2)
     else if m (s + of_nat n + 1) = c then Inl (s + of_nat n + 1) else if m (s + of_nat n) = c then Inl (s + of_nat n)
     else memrchr_words m c (s + of_nat n) (of_nat n))"
proof -
  have ge: "4 \<le> (of_nat (n + 4) :: u32)" using assms by (simp only: word_le_nat_alt unat_of_nat) simp
  have eq: "s + of_nat (n + 4) - 4 = s + of_nat n" "of_nat (n + 4) - 4 = (of_nat n :: u32)" by simp_all
  have hit: "maybe_byte (get32 m p XOR charmask c) \<and> m (p + x) = c \<longleftrightarrow> m (p + x) = c" if "x \<in> {0, 1, 2, 3}" for p x
    using that word_of_byte_c [of 3 m p c] word_of_byte_c [of 2 m p c] word_of_byte_c [of 1 m p c] word_of_byte_c [of 0 m p c] by auto
  note hits = hit [of 3] hit [of 2] hit [of 1] hit [of 0, simplified]
  show ?thesis unfolding memrchr_words.simps [of m c "s + of_nat (n + 4)"] Let_def eq using ge hits by (simp only: if_True) simp
qed

lemma last_byte_four:
  "last_byte m c s (n + 4) =
    (if m (s + of_nat n + 3) = c then s + of_nat n + 3 else if m (s + of_nat n + 2) = c then s + of_nat n + 2
     else if m (s + of_nat n + 1) = c then s + of_nat n + 1 else if m (s + of_nat n) = c then s + of_nat n else last_byte m c s n)"
proof -
  have four: "n + 4 = Suc (Suc (Suc (Suc n)))" by simp
  show ?thesis unfolding four by (simp add: ac_simps)
qed

lemma memrchr_words_run:
  "n < 2 ^ 32 \<Longrightarrow> (case memrchr_words m c (s + of_nat n) (of_nat n) of Inl a \<Rightarrow> a | Inr (p, n) \<Rightarrow> memrchr_tail m c p n) = last_byte m c s n"
proof (induction n rule: less_induct)
  case (less n)
  show ?case
  proof (cases "n < 4")
    case True
    then have "\<not> 4 \<le> (of_nat n :: u32)" by (simp add: word_le_nat_alt unat_of_nat)
    then show ?thesis using less.prems by (simp add: memrchr_words.simps memrchr_tail_run)
  next
    case False
    then obtain k where k: "n = k + 4" by (metis add.commute le_Suc_ex linorder_not_less)
    show ?thesis using less.IH [of k] less.prems memrchr_words_step [of k m c s] unfolding k last_byte_four by (simp split: if_split del: of_nat_add)
  qed
qed

lemma memrchr_align_run:
  "n < 2 ^ 32 \<Longrightarrow> (case memrchr_align m c (s + of_nat n) (of_nat n) of Inl a \<Rightarrow> a
     | Inr (p, n) \<Rightarrow> (case memrchr_words m c p n of Inl a \<Rightarrow> a | Inr (p, n) \<Rightarrow> memrchr_tail m c p n)) = last_byte m c s n"
proof (induction n)
  case 0
  then show ?case using memrchr_words_run [of 0 m c s] by (simp add: memrchr_align.simps)
next
  case (Suc n)
  have nz: "(of_nat (Suc n) :: u32) \<noteq> 0" using Suc.prems by (intro of_nat_small_nz) simp_all
  show ?case
  proof (cases "(s + of_nat (Suc n)) AND 3 = 0")
    case True
    then show ?thesis using memrchr_words_run [OF Suc.prems, of m c s] by (simp add: memrchr_align.simps [of m c "s + _"])
  next
    case False
    then show ?thesis using Suc nz by (simp add: memrchr_align.simps [of m c "s + _"] word_gt_0)
  qed
qed

text \<open>C27: \<^verbatim>\<open>memrchr\<close> returns the last address of the block whose byte is the one looked for, or NULL, as a loop over single bytes
  does: the test of a whole word by adding the magic number never passes over a word that holds the byte, and a misfire of the test is
  sorted out byte by byte.\<close>

theorem memrchr_finds_last: "memrchr m s c n = last_byte m (ucast c) s (unat n)"
  using memrchr_align_run [of "unat n" m "ucast c" s] unat_lt32 [of n] by (simp add: memrchr_def)

end
