(* ===== verification/Csort.thy ===== *)
theory Csort
  imports Cwords "HOL-Library.Multiset" "HOL-Library.List_Lexorder"
begin

text \<open>
  The sorting and searching of arrays in \<^verbatim>\<open>uClibc/libc/stdlib/stdlib.c\<close> and \<^verbatim>\<open>uClibc/libc/misc/search/_lsearch.c\<close>: the Shell sort
  \<^verbatim>\<open>qsort\<close>, the binary search \<^verbatim>\<open>bsearch\<close> and the linear searches. The comparison function is an argument; it may read memory. What the
  routines need of it is the locale \<open>comparison\<close>: it orders the records at two addresses by a rank of their bytes. The theorems say that
  the sort ends with the same records in order and that the binary search finds a record that compares equal if there is one. \<open>None\<close>
  means that a routine does not return: an assertion fails or a loop does not end.
\<close>

type_synonym compar_fn = "bytes \<Rightarrow> u32 \<Rightarrow> u32 \<Rightarrow> int"

subsection \<open>Binary search\<close>

partial_function (option) bsearch_loop :: "compar_fn \<Rightarrow> bytes \<Rightarrow> u32 \<Rightarrow> u32 \<Rightarrow> u32 \<Rightarrow> u32 \<Rightarrow> u32 \<Rightarrow> u32 option" where
  "bsearch_loop compar m key base width low high =
     (if low < high then
        let mid = low + drop_bit 1 (high - low); p = base + mid * width; r = compar m key p in
        if r > 0 then bsearch_loop compar m key base width (mid + 1) high
        else if r < 0 then bsearch_loop compar m key base width low mid
        else Some p
      else Some NULL)"

definition bsearch :: "compar_fn \<Rightarrow> bytes \<Rightarrow> u32 \<Rightarrow> u32 \<Rightarrow> u32 \<Rightarrow> u32 \<Rightarrow> u32 option" where
  "bsearch compar m key base high width =
     (if width > 0 then bsearch_loop compar m key base width 0 high else Some NULL)"

subsection \<open>Shell sort\<close>

text \<open>The exchange of two records, a loop that runs at least once.\<close>

function swap_bytes :: "u32 \<Rightarrow> u32 \<Rightarrow> u32 \<Rightarrow> bytes \<Rightarrow> bytes" where
  "swap_bytes k a b m =
     (let tmp = m a; m = m(a := m b); m = m(b := tmp); k = k - 1 in
      if k \<noteq> 0 then swap_bytes k (a + 1) (b + 1) m else m)"
  by pat_completeness auto
termination
proof (relation "measure (\<lambda>(k, _, _, _). unat (k - 1))")
  fix k a b :: u32 and tmp :: u8 and m m1 m2 :: bytes and k' :: u32
  assume "k' = k - 1" "k' \<noteq> 0"
  then have "unat (k' - 1) < unat (k - 1)" by (simp add: unat_minus_one [of "k - 1", simplified] unat_gt_0)
  then show "((k', a + 1, b + 1, m2), k, a, b, m) \<in> measure (\<lambda>(k, _, _, _). unat (k - 1))" by simp
qed simp

declare swap_bytes.simps [simp del]

partial_function (option) gap_loop :: "u32 \<Rightarrow> u32 \<Rightarrow> u32 option" where
  "gap_loop nel wgap =
     (let wgap = 3 * wgap + 1 in if wgap < (nel - 1) div 3 then gap_loop nel wgap else Some wgap)"

partial_function (option) sort_j :: "compar_fn \<Rightarrow> u32 \<Rightarrow> u32 \<Rightarrow> u32 \<Rightarrow> u32 \<Rightarrow> bytes \<Rightarrow> bytes option" where
  "sort_j cmp base width wgap j m =
     (let j = j - wgap; a = j + base; b = a + wgap in
      if cmp m a b \<le> 0 then Some m
      else let m = swap_bytes width a b m in
        if j \<ge> wgap then sort_j cmp base width wgap j m else Some m)"

partial_function (option) sort_i :: "compar_fn \<Rightarrow> u32 \<Rightarrow> u32 \<Rightarrow> u32 \<Rightarrow> u32 \<Rightarrow> u32 \<Rightarrow> bytes \<Rightarrow> bytes option" where
  "sort_i cmp base nel width wgap i m =
     Option.bind (sort_j cmp base width wgap i m) (\<lambda>m.
     let i = i + width in if i < nel then sort_i cmp base nel width wgap i m else Some m)"

partial_function (option) sort_gap :: "compar_fn \<Rightarrow> u32 \<Rightarrow> u32 \<Rightarrow> u32 \<Rightarrow> u32 \<Rightarrow> bytes \<Rightarrow> bytes option" where
  "sort_gap cmp base nel width wgap m =
     Option.bind (sort_i cmp base nel width wgap wgap m) (\<lambda>m.
     let wgap = (wgap - width) div 3 in if wgap \<noteq> 0 then sort_gap cmp base nel width wgap m else Some m)"

text \<open>\<open>asserts\<close> is whether the library is built with its assertions (\<^verbatim>\<open>DOASSERTS\<close>); without them an array that is too large is not noticed.\<close>

definition qsort_r :: "bool \<Rightarrow> bytes \<Rightarrow> u32 \<Rightarrow> u32 \<Rightarrow> u32 \<Rightarrow> (u32 \<Rightarrow> compar_fn) \<Rightarrow> u32 \<Rightarrow> bytes option" where
  "qsort_r asserts m base nel width cmp arg =
     (if nel > 1 \<and> width > 0 then
        if asserts \<and> \<not> nel \<le> (- 1) div width then None
        else Option.bind (gap_loop nel 0) (\<lambda>wgap. sort_gap (cmp arg) base (nel * width) width (wgap * width) m)
      else Some m)"

definition qsort :: "bool \<Rightarrow> bytes \<Rightarrow> u32 \<Rightarrow> u32 \<Rightarrow> u32 \<Rightarrow> compar_fn \<Rightarrow> bytes option" where
  "qsort asserts m base nel width cmp = qsort_r asserts m base nel width (\<lambda>_. cmp) NULL"

subsection \<open>Linear search\<close>

text \<open>The counter \<^verbatim>\<open>n\<close> is a signed copy of the number of elements; the loop ends when it is 0 before it is decremented.\<close>

function lfind_loop :: "compar_fn \<Rightarrow> bytes \<Rightarrow> u32 \<Rightarrow> u32 \<Rightarrow> u32 \<Rightarrow> u32 \<Rightarrow> u32" where
  "lfind_loop compar m key base width n =
     (if n \<noteq> 0 then if compar m key base = 0 then base else lfind_loop compar m key (base + width) width (n - 1) else NULL)"
  by pat_completeness auto
termination by (relation "measure (\<lambda>(_, _, _, _, _, n). unat n)") (auto simp: unat_minus_one unat_gt_0)

declare lfind_loop.simps [simp del]

definition lfind :: "compar_fn \<Rightarrow> bytes \<Rightarrow> u32 \<Rightarrow> u32 \<Rightarrow> u32 \<Rightarrow> u32 \<Rightarrow> u32" where
  "lfind compar m key base nmemb width = lfind_loop compar m key base width (get32 m nmemb)"

definition lsearch :: "compar_fn \<Rightarrow> bytes \<Rightarrow> u32 \<Rightarrow> u32 \<Rightarrow> u32 \<Rightarrow> u32 \<Rightarrow> u32 \<times> bytes" where
  "lsearch compar m key base nmemb width =
     (let p = lfind compar m key base nmemb width in
      if p = NULL then
        let (p, m) = memcpy m (base + width * get32 m nmemb) key width in (p, set32 m nmemb (get32 m nmemb + 1))
      else (p, m))"

subsection \<open>Records\<close>

lemma of_nat_inj32: "i < 2 ^ 32 \<Longrightarrow> j < 2 ^ 32 \<Longrightarrow> (of_nat i :: u32) = of_nat j \<longleftrightarrow> i = j"
  by (simp add: word_of_nat_eq_iff take_bit_nat_eq_self)

definition recs :: "bytes \<Rightarrow> u32 \<Rightarrow> nat \<Rightarrow> nat \<Rightarrow> u8 list list" where
  "recs m base w n = map (\<lambda>i. buf_bytes m (base + of_nat (i * w)) w) [0..<n]"

lemma recs_length [simp]: "length (recs m base w n) = n"
  by (simp add: recs_def)

lemma recs_nth: "i < n \<Longrightarrow> recs m base w n ! i = buf_bytes m (base + of_nat (i * w)) w"
  by (simp add: recs_def)

lemma swap_bytes_run:
  assumes "k < 2 ^ 32" "\<And>i j. i < Suc k \<Longrightarrow> j < Suc k \<Longrightarrow> a + of_nat i \<noteq> b + of_nat j"
  shows "(\<forall>i < Suc k. swap_bytes (of_nat (Suc k)) a b m (a + of_nat i) = m (b + of_nat i)
       \<and> swap_bytes (of_nat (Suc k)) a b m (b + of_nat i) = m (a + of_nat i))
     \<and> (\<forall>x. (\<forall>i < Suc k. x \<noteq> a + of_nat i \<and> x \<noteq> b + of_nat i) \<longrightarrow> swap_bytes (of_nat (Suc k)) a b m x = m x)"
  using assms
proof (induction k arbitrary: a b m)
  case 0
  then have "a \<noteq> b" by force
  then show ?case by (simp add: swap_bytes.simps Let_def)
next
  case (Suc k)
  define m' where "m' = m(a := m b, b := m a)"
  let ?r = "swap_bytes (of_nat (Suc (Suc k))) a b m"
  have ne: "a + of_nat i \<noteq> b + of_nat j" if "i < Suc (Suc k)" "j < Suc (Suc k)" for i j using Suc.prems(2) that by blast
  have nz: "(of_nat (Suc i) :: u32) \<noteq> 0" if "i < Suc k" for i using that Suc.prems(1) by (intro of_nat_small_nz) simp_all
  have r: "?r = swap_bytes (of_nat (Suc k)) (a + 1) (b + 1) m'"
  proof -
    have "of_nat (Suc (Suc k)) - 1 = (of_nat (Suc k) :: u32)" by simp
    then show ?thesis using nz [of k] by (subst swap_bytes.simps) (simp only: Let_def m'_def if_True simp_thms lessI fun_upd_apply)
  qed
  have IH: "(\<forall>i < Suc k. ?r (a + of_nat (Suc i)) = m' (b + of_nat (Suc i)) \<and> ?r (b + of_nat (Suc i)) = m' (a + of_nat (Suc i)))
     \<and> (\<forall>x. (\<forall>i < Suc k. x \<noteq> a + of_nat (Suc i) \<and> x \<noteq> b + of_nat (Suc i)) \<longrightarrow> ?r x = m' x)"
  proof -
    have step: "x + 1 + of_nat i = x + of_nat (Suc i)" for x :: u32 and i by simp
    show ?thesis unfolding r by (rule Suc.IH [of "a + 1" "b + 1" m', unfolded step]) (use Suc.prems(1) ne in auto)
  qed
  have far: "a + of_nat (Suc i) \<noteq> b" "b + of_nat (Suc i) \<noteq> a" "a \<noteq> b" if "i < Suc k" for i
    using ne [of "Suc i" 0] ne [of 0 "Suc i"] ne [of 0 0] that by auto
  have off: "a + of_nat (Suc i) \<noteq> a" "b + of_nat (Suc i) \<noteq> b" if "i < Suc k" for i using nz [OF that] by simp_all
  show ?case
  proof (intro conjI allI impI)
    fix i assume i: "i < Suc (Suc k)"
    show "?r (a + of_nat i) = m (b + of_nat i)" "?r (b + of_nat i) = m (a + of_nat i)"
    proof (atomize(full), cases i)
      case 0
      have "?r a = m' a" "?r b = m' b" using IH far off by (metis (no_types))+
      with 0 far(3) [of 0] m'_def show "?r (a + of_nat i) = m (b + of_nat i) \<and> ?r (b + of_nat i) = m (a + of_nat i)" by simp
    next
      case (Suc j)
      with i IH far [of j] off [of j] m'_def show "?r (a + of_nat i) = m (b + of_nat i) \<and> ?r (b + of_nat i) = m (a + of_nat i)" by simp
    qed
  next
    fix x assume x: "\<forall>i < Suc (Suc k). x \<noteq> a + of_nat i \<and> x \<noteq> b + of_nat i"
    then have "x \<noteq> a" "x \<noteq> b" by force+
    moreover from x IH have "?r x = m' x" by (metis Suc_less_eq)
    ultimately show "?r x = m x" by (simp add: m'_def)
  qed
qed

lemma rec_offset:
  assumes "i < n" "k < (w :: nat)"
  shows "i * w + k < n * w"
proof -
  have "Suc i * w \<le> n * w" using assms(1) by (intro mult_le_mono1) simp
  then show ?thesis using assms(2) by simp
qed

lemma rec_offset_eq: "k < w \<Longrightarrow> l < w \<Longrightarrow> i * w + k = j * w + l \<longleftrightarrow> i = j \<and> k = (l :: nat)"
  by (metis div_mult_self3 div_less mod_less mod_mult_self3 add.right_neutral add.commute less_nat_zero_code)

lemma rec_addr_eq:
  assumes "n * w < 2 ^ 32" "i < n" "j < n" "k < w" "l < w"
  shows "base + of_nat (i * w) + of_nat k = base + of_nat (j * w) + (of_nat l :: u32) \<longleftrightarrow> i = j \<and> k = l"
proof -
  have "i * w + k < 2 ^ 32" "j * w + l < 2 ^ 32" using rec_offset [OF assms(2,4)] rec_offset [OF assms(3,5)] assms(1) by linarith+
  then show ?thesis using of_nat_inj32 [of "i * w + k" "j * w + l"] rec_offset_eq [OF assms(4,5), of i j] by (simp add: add.assoc)
qed

definition same_outside :: "bytes \<Rightarrow> bytes \<Rightarrow> u32 \<Rightarrow> nat \<Rightarrow> bool" where
  "same_outside m m' base n \<longleftrightarrow> (\<forall>x. n \<le> unat (x - base) \<longrightarrow> m' x = m x)"

lemma same_outside_refl [simp]: "same_outside m m base n"
  by (simp add: same_outside_def)

lemma same_outside_trans: "same_outside m m1 base n \<Longrightarrow> same_outside m1 m2 base n \<Longrightarrow> same_outside m m2 base n"
  by (simp add: same_outside_def)

lemma recs_swap:
  fixes base :: u32
  assumes "0 < w" "n * w < 2 ^ 32" "i < n" "j < n" "i \<noteq> j"
  shows "recs (swap_bytes (of_nat w) (base + of_nat (i * w)) (base + of_nat (j * w)) m) base w n
       = (recs m base w n)[i := recs m base w n ! j, j := recs m base w n ! i]" (is "recs ?m base w n = _")
    and "same_outside m (swap_bytes (of_nat w) (base + of_nat (i * w)) (base + of_nat (j * w)) m) base (n * w)"
proof -
  let ?a = "base + of_nat (i * w)" and ?b = "base + of_nat (j * w)"
  obtain v where w: "w = Suc v" using assms(1) by (cases w) auto
  have "w \<le> n * w" using assms(3) by (cases n) auto
  then have v: "v < 2 ^ 32" using assms(2) w by linarith
  have ne: "?a + of_nat k \<noteq> ?b + of_nat l" if "k < Suc v" "l < Suc v" for k l
    using rec_addr_eq [OF assms(2-4), of k l base] that assms(5) w by simp
  note run = swap_bytes_run [OF v ne, where m = m, folded w]
  have same: "?m x = m x" if "\<And>k. k < w \<Longrightarrow> x \<noteq> ?a + of_nat k" "\<And>k. k < w \<Longrightarrow> x \<noteq> ?b + of_nat k" for x using run that by blast
  show "same_outside m ?m base (n * w)" unfolding same_outside_def
  proof (intro allI impI same)
    fix x k assume x: "n * w \<le> unat (x - base)" and k: "k < w"
    have "unat (base + of_nat (l * w) + of_nat k - base) < n * w" if "l < n" for l
    proof -
      have "l * w + k < n * w" using rec_offset [OF that k] .
      moreover have "unat (of_nat (l * w + k) :: u32) = l * w + k" using calculation assms(2) by (simp only: unat_of_nat) simp
      ultimately show ?thesis by (simp add: algebra_simps)
    qed
    with x assms(3,4) show "x \<noteq> ?a + of_nat k" "x \<noteq> ?b + of_nat k" by (metis linorder_not_less)+
  qed
  show "recs ?m base w n = (recs m base w n)[i := recs m base w n ! j, j := recs m base w n ! i]"
  proof (rule nth_equalityI)
    fix l assume "l < length (recs ?m base w n)"
    then have l: "l < n" by simp
    have "buf_bytes ?m (base + of_nat (l * w)) w = buf_bytes m (base + of_nat ((if l = i then j else if l = j then i else l) * w)) w"
    proof (cases "l = i \<or> l = j")
      case True
      then show ?thesis using run assms(5) by (auto simp: buf_bytes_def)
    next
      case False
      have "?m (base + of_nat (l * w) + of_nat k) = m (base + of_nat (l * w) + of_nat k)" if "k < w" for k
        using rec_addr_eq [OF assms(2) l assms(3) that] rec_addr_eq [OF assms(2) l assms(4) that] False by (intro same) blast+
      with False show ?thesis by (simp add: buf_bytes_def)
    qed
    then show "recs ?m base w n ! l = (recs m base w n)[i := recs m base w n ! j, j := recs m base w n ! i] ! l"
      using l assms(3-5) by (simp add: recs_nth nth_list_update)
  qed simp
qed

subsection \<open>The sort on lists\<close>

function sift :: "('a \<Rightarrow> 'k :: linorder) \<Rightarrow> nat \<Rightarrow> nat \<Rightarrow> 'a list \<Rightarrow> 'a list" where
  "sift rank g j xs =
     (if 0 < g \<and> g \<le> j \<and> rank (xs ! j) < rank (xs ! (j - g)) then sift rank g (j - g) (xs[j - g := xs ! j, j := xs ! (j - g)]) else xs)"
  by pat_completeness auto
termination by (relation "measure (\<lambda>(_, _, j, _). j)") auto

declare sift.simps [simp del]

lemma sift_keeps: "j < length xs \<Longrightarrow> length (sift rank g j xs) = length xs \<and> mset (sift rank g j xs) = mset xs"
  by (induction rank g j xs rule: sift.induct) (subst (1 2) sift.simps, auto simp: mset_swap)

text \<open>An element that sinks by steps of one: without it the first elements are in order, and it is not above those it has passed.\<close>

lemma sift_one:
  assumes "j \<le> J" "J < length xs"
    and "\<And>a b. a < b \<Longrightarrow> b \<le> J \<Longrightarrow> a \<noteq> j \<Longrightarrow> b \<noteq> j \<Longrightarrow> rank (xs ! a) \<le> rank (xs ! b)"
    and "\<And>b. j < b \<Longrightarrow> b \<le> J \<Longrightarrow> rank (xs ! j) \<le> rank (xs ! b)"
    and "a < b" "b \<le> J"
  shows "rank (sift rank 1 j xs ! a) \<le> rank (sift rank 1 j xs ! b)"
  using assms
proof (induction j arbitrary: xs a b)
  case 0
  then show ?case by (cases "a = 0") (simp_all add: sift.simps [of rank "Suc 0" 0])
next
  case (Suc j)
  show ?case
  proof (cases "rank (xs ! Suc j) < rank (xs ! j)")
    case True
    let ?ys = "xs[j := xs ! Suc j, Suc j := xs ! j]"
    have nth: "?ys ! j = xs ! Suc j" "?ys ! Suc j = xs ! j" "\<And>c. c \<noteq> j \<Longrightarrow> c \<noteq> Suc j \<Longrightarrow> ?ys ! c = xs ! c"
      using Suc.prems(1,2) by (simp_all add: nth_list_update)
    have "rank (?ys ! c) \<le> rank (?ys ! d)" if "c < d" "d \<le> J" "c \<noteq> j" "d \<noteq> j" for c d
      using that Suc.prems(3) [of c d] Suc.prems(3) [of c j] Suc.prems(3) [of j d] nth by (cases "d = Suc j"; cases "c = Suc j") auto
    moreover have "rank (?ys ! j) \<le> rank (?ys ! d)" if "j < d" "d \<le> J" for d
      using that Suc.prems(4) [of d] True nth by (cases "d = Suc j") auto
    ultimately have "rank (sift rank 1 j ?ys ! a) \<le> rank (sift rank 1 j ?ys ! b)"
      using Suc.prems(1,2,5,6) by (intro Suc.IH) simp_all
    then show ?thesis using True by (simp add: sift.simps [of rank "Suc 0" "Suc j"])
  next
    case False
    then have "sift rank 1 (Suc j) xs = xs" by (simp add: sift.simps)
    moreover have "rank (xs ! a) \<le> rank (xs ! b)"
    proof (cases "b = Suc j")
      case True
      then have "rank (xs ! a) \<le> rank (xs ! j)" using Suc.prems(1,5) Suc.prems(3) [of a j] by (cases "a = j") auto
      then show ?thesis using False True by simp
    next
      case False
      then show ?thesis using Suc.prems(3-6) by (cases "a = Suc j") auto
    qed
    ultimately show ?thesis by simp
  qed
qed

definition shell_pass :: "('a \<Rightarrow> 'k :: linorder) \<Rightarrow> nat \<Rightarrow> 'a list \<Rightarrow> 'a list" where
  "shell_pass rank g xs = fold (sift rank g) [g..<length xs] xs"

lemma fold_sift_keeps:
  "n \<le> length xs \<Longrightarrow> length (fold (sift rank g) [i..<n] xs) = length xs \<and> mset (fold (sift rank g) [i..<n] xs) = mset xs"
proof (induction n)
  case (Suc n)
  then show ?case using sift_keeps [of n "fold (sift rank g) [i..<n] xs" rank g] by (cases "i \<le> n") auto
qed simp

lemma shell_pass_keeps: "length (shell_pass rank g xs) = length xs" "mset (shell_pass rank g xs) = mset xs"
  using fold_sift_keeps [of "length xs" xs rank g g] by (simp_all add: shell_pass_def)

lemma shell_pass_sorts: "sorted (map rank (shell_pass rank 1 xs))"
proof -
  have "\<forall>a b. a < b \<longrightarrow> b < n \<longrightarrow> rank (fold (sift rank 1) [1..<n] xs ! a) \<le> rank (fold (sift rank 1) [1..<n] xs ! b)"
    if "n \<le> length xs" for n
    using that
  proof (induction n)
    case (Suc n)
    let ?ys = "fold (sift rank 1) [1..<n] xs"
    have len: "n < length ?ys" using fold_sift_keeps [of n xs rank 1 1] Suc.prems by simp
    have IH: "rank (?ys ! a) \<le> rank (?ys ! b)" if "a < b" "b < n" for a b using Suc.IH Suc.prems that by simp
    have "rank (sift rank 1 n ?ys ! a) \<le> rank (sift rank 1 n ?ys ! b)" if "a < b" "b < Suc n" for a b
      by (rule sift_one [of n n]) (use len IH that in auto)
    then show ?case by (cases "1 \<le> n") auto
  qed simp
  from this [of "length xs"] show ?thesis using shell_pass_keeps(1) [of rank 1 xs]
    by (simp add: sorted_iff_nth_mono_less shell_pass_def)
qed

inductive gaps :: "nat \<Rightarrow> bool" where
  gaps_zero: "gaps 0"
| gaps_next: "gaps g \<Longrightarrow> gaps (3 * g + 1)"

subsection \<open>The comparison function\<close>

lemma idx_small: "i \<le> n \<Longrightarrow> n * w < 2 ^ 32 \<Longrightarrow> i * w < (2 :: nat) ^ 32"
  by (meson le_less_trans mult_le_mono1)

locale comparison =
  fixes compar :: compar_fn and w :: nat and rank :: "u8 list \<Rightarrow> 'k :: linorder"
  assumes compar_neg: "compar m a b < 0 \<longleftrightarrow> rank (buf_bytes m a w) < rank (buf_bytes m b w)"
    and compar_zero: "compar m a b = 0 \<longleftrightarrow> rank (buf_bytes m a w) = rank (buf_bytes m b w)"
begin

lemma compar_le: "compar m a b \<le> 0 \<longleftrightarrow> rank (buf_bytes m a w) \<le> rank (buf_bytes m b w)"
  using compar_neg [of m a b] compar_zero [of m a b] by (auto simp: le_less)

lemma compar_pos: "compar m a b > 0 \<longleftrightarrow> rank (buf_bytes m b w) < rank (buf_bytes m a w)"
  using compar_le [of m a b] by (simp add: linorder_not_less [symmetric])

lemma sort_j_run:
  assumes "0 < w" "n * w < 2 ^ 32" "0 < g" "g \<le> j" "j < n"
  shows "\<exists>m'. sort_j compar base (of_nat w) (of_nat (g * w)) (of_nat (j * w)) m = Some m'
    \<and> recs m' base w n = sift rank g j (recs m base w n) \<and> same_outside m m' base (n * w)"
  using assms(4,5)
proof (induction j arbitrary: m rule: less_induct)
  case (less j)
  let ?i = "j - g" and ?xs = "recs m base w n"
  let ?a = "base + of_nat (?i * w)" and ?b = "base + of_nat (j * w)"
  have split: "j * w = ?i * w + g * w" using less.prems(1) by (simp flip: add_mult_distrib)
  then have diff: "(of_nat (j * w) :: u32) - of_nat (g * w) = of_nat (?i * w)"
    by (metis add_diff_cancel_right' of_nat_add)
  have b: "of_nat (?i * w) + base + of_nat (g * w) = ?b" using split by (simp only: of_nat_add) (simp add: ac_simps)
  have i: "?i < n" "?i \<noteq> j" using less.prems assms(3) by simp_all
  have unfold: "sort_j compar base (of_nat w) (of_nat (g * w)) (of_nat (j * w)) m =
     (if rank (?xs ! ?i) \<le> rank (?xs ! j) then Some m
      else if g \<le> ?i then sort_j compar base (of_nat w) (of_nat (g * w)) (of_nat (?i * w)) (swap_bytes (of_nat w) ?a ?b m)
      else Some (swap_bytes (of_nat w) ?a ?b m))"
  proof -
    have "?i * w < 2 ^ 32" "g * w < 2 ^ 32" using less.prems by (intro idx_small [OF _ assms(2)]; simp)+
    then have le: "(of_nat (g * w) :: u32) \<le> of_nat (?i * w) \<longleftrightarrow> g \<le> ?i"
      using assms(1) by (simp only: word_le_nat_alt unat_of_nat) simp
    show ?thesis by (subst sort_j.simps) (simp only: Let_def diff b le add.commute [of "of_nat (?i * w)" base] compar_le recs_nth [OF i(1)] recs_nth [OF less.prems(2)] b [unfolded add.commute [of "of_nat (?i * w)" base]])
  qed
  show ?case
  proof (cases "rank (?xs ! ?i) \<le> rank (?xs ! j)")
    case True
    then have "sift rank g j ?xs = ?xs" by (subst sift.simps) (auto simp: linorder_not_less [symmetric])
    then show ?thesis unfolding unfold using True by simp
  next
    case False
    let ?m = "swap_bytes (of_nat w) ?a ?b m"
    note swap = recs_swap [OF assms(1,2) i(1) less.prems(2) i(2), where base = base and m = m]
    have step: "sift rank g j ?xs = sift rank g ?i (recs ?m base w n)"
      using False less.prems(1) assms(3) by (subst sift.simps) (simp only: swap(1) linorder_not_le simp_thms if_True)
    show ?thesis
    proof (cases "g \<le> ?i")
      case True
      with less.IH [of ?i ?m] less.prems(1) assms(3) i(1) obtain m' where
        "sort_j compar base (of_nat w) (of_nat (g * w)) (of_nat (?i * w)) ?m = Some m'"
        "recs m' base w n = sift rank g ?i (recs ?m base w n)" "same_outside ?m m' base (n * w)" by auto
      then show ?thesis unfolding unfold using False True step same_outside_trans [OF swap(2)] by auto
    next
      case F: False
      then have "sift rank g ?i (recs ?m base w n) = recs ?m base w n" by (simp add: sift.simps)
      then show ?thesis unfolding unfold using False F step swap(2) by simp
    qed
  qed
qed

lemma sort_i_run:
  assumes "0 < w" "n * w < 2 ^ 32" "0 < g" "g \<le> i" "i < n"
  shows "\<exists>m'. sort_i compar base (of_nat (n * w)) (of_nat w) (of_nat (g * w)) (of_nat (i * w)) m = Some m'
    \<and> recs m' base w n = fold (sift rank g) [i..<n] (recs m base w n) \<and> same_outside m m' base (n * w)"
  using assms(4,5)
proof (induction "n - i" arbitrary: i m)
  case (Suc k)
  obtain m1 where m1: "sort_j compar base (of_nat w) (of_nat (g * w)) (of_nat (i * w)) m = Some m1"
    "recs m1 base w n = sift rank g i (recs m base w n)" "same_outside m m1 base (n * w)"
    using sort_j_run [OF assms(1-3) Suc.prems] by blast
  have next_i: "of_nat (i * w) + of_nat w = (of_nat (Suc i * w) :: u32)" by simp
  have "Suc i * w < 2 ^ 32" using Suc.prems by (intro idx_small [OF _ assms(2)]) simp
  then have lt: "(of_nat (Suc i * w) :: u32) < of_nat (n * w) \<longleftrightarrow> Suc i < n"
    using assms(1,2) by (simp only: word_less_nat_alt unat_of_nat) (simp del: mult_Suc)
  have upt: "[i..<n] = i # [Suc i..<n]" using Suc.prems by (simp add: upt_conv_Cons)
  show ?case
  proof (cases "Suc i < n")
    case True
    have "k = n - Suc i" "g \<le> Suc i" using Suc.hyps(2) Suc.prems(1) by simp_all
    from Suc.hyps(1) [OF this True, of m1] obtain m' where
      "sort_i compar base (of_nat (n * w)) (of_nat w) (of_nat (g * w)) (of_nat (Suc i * w)) m1 = Some m'"
      "recs m' base w n = fold (sift rank g) [Suc i..<n] (recs m1 base w n)" "same_outside m1 m' base (n * w)" by blast
    then show ?thesis using m1 True same_outside_trans [OF m1(3)] unfolding upt sort_i.simps [of compar base _ _ _ "of_nat (i * w)"]
      by (simp only: bind.bind_lunit Let_def next_i lt if_True) simp
  next
    case False
    then have "[Suc i..<n] = []" by simp
    with False m1 show ?thesis unfolding upt sort_i.simps [of compar base _ _ _ "of_nat (i * w)"]
      by (simp only: bind.bind_lunit Let_def next_i lt if_False) simp
  qed
qed simp

lemma sort_gap_run:
  assumes "0 < w" "n * w < 2 ^ 32" "gaps g" "0 < g" "g < n"
  shows "\<exists>m'. sort_gap compar base (of_nat (n * w)) (of_nat w) (of_nat (g * w)) m = Some m'
    \<and> sorted (map rank (recs m' base w n)) \<and> mset (recs m' base w n) = mset (recs m base w n) \<and> same_outside m m' base (n * w)"
  using assms(3-5)
proof (induction g arbitrary: m)
  case (gaps_next g)
  let ?g = "3 * g + 1"
  obtain m1 where m1: "sort_i compar base (of_nat (n * w)) (of_nat w) (of_nat (?g * w)) (of_nat (?g * w)) m = Some m1"
    "recs m1 base w n = shell_pass rank ?g (recs m base w n)" "same_outside m m1 base (n * w)"
    using sort_i_run [OF assms(1,2) gaps_next.prems(1) order_refl gaps_next.prems(2)] unfolding shell_pass_def recs_length by blast
  have next_gap: "(of_nat (?g * w) - of_nat w) div 3 = (of_nat (g * w) :: u32)"
  proof -
    have "of_nat (?g * w) - of_nat w = (of_nat (3 * (g * w)) :: u32)" by (simp add: algebra_simps)
    moreover have "3 * (g * w) < 2 ^ 32" using idx_small [of "3 * g" n w] gaps_next.prems assms(2) by (simp add: mult.assoc)
    then have "unat (of_nat (3 * (g * w)) :: u32) = 3 * (g * w)" by (simp only: unat_of_nat) simp
    ultimately show ?thesis by (simp only: word_arith_nat_div) simp
  qed
  show ?case
  proof (cases "g = 0")
    case True
    with m1 shell_pass_sorts [of rank "recs m base w n"] shell_pass_keeps [of rank 1 "recs m base w n"] show ?thesis
      by (subst sort_gap.simps) (simp add: Let_def next_gap [unfolded True])
  next
    case False
    have "g * w < 2 ^ 32" using gaps_next.prems by (intro idx_small [OF _ assms(2)]) simp
    then have nz: "(of_nat (g * w) :: u32) \<noteq> 0" using False assms(1) by (intro of_nat_small_nz) simp_all
    from gaps_next.IH [of m1] False gaps_next.prems obtain m' where
      "sort_gap compar base (of_nat (n * w)) (of_nat w) (of_nat (g * w)) m1 = Some m'"
      "sorted (map rank (recs m' base w n))" "mset (recs m' base w n) = mset (recs m1 base w n)" "same_outside m1 m' base (n * w)" by auto
    then show ?thesis using m1 same_outside_trans [OF m1(3)] nz unfolding sort_gap.simps [of compar base _ _ "of_nat (?g * w)"]
      by (simp only: bind.bind_lunit Let_def next_gap simp_thms if_True) (simp add: shell_pass_keeps)
  qed
qed simp

end

lemma gap_loop_run:
  assumes "gaps g" "g = 0 \<or> g < (n - 1) div 3" "1 < n" "n < 2 ^ 32"
  shows "\<exists>g'. gap_loop (of_nat n) (of_nat g) = Some (of_nat g') \<and> gaps g' \<and> 0 < g' \<and> g' < n"
  using assms(1,2)
proof (induction "n - g" arbitrary: g rule: less_induct)
  case less
  let ?g = "3 * g + 1"
  have g: "?g < n" using less.prems(2) assms(3) by auto
  have "3 * of_nat g + 1 = (of_nat ?g :: u32)" "of_nat n - 1 = (of_nat (n - 1) :: u32)" using assms(3) by (simp_all add: of_nat_diff)
  moreover have "unat (of_nat ?g :: u32) = ?g" "unat (of_nat (n - 1) :: u32) = n - 1" using g assms(4) by (simp_all only: unat_of_nat) simp_all
  moreover have "unat (3 :: u32) = 3" by simp
  ultimately have unfold: "gap_loop (of_nat n) (of_nat g) = (if ?g < (n - 1) div 3 then gap_loop (of_nat n) (of_nat ?g) else Some (of_nat ?g))"
    by (subst gap_loop.simps) (simp only: Let_def word_less_nat_alt unat_div)
  show ?case
  proof (cases "?g < (n - 1) div 3")
    case True
    with less.hyps [of ?g] gaps_next [OF less.prems(1)] g show ?thesis unfolding unfold by simp
  next
    case False
    with gaps_next [OF less.prems(1)] g show ?thesis unfolding unfold by (intro exI [of _ ?g]) simp
  qed
qed

text \<open>\<^verbatim>\<open>memcmp\<close> is such a comparison function; its rank is the order of byte lists.\<close>

lemma bytes_cmp_lex:
  "bytes_cmp m a b n < 0 \<longleftrightarrow> buf_bytes m a n < buf_bytes m b n" "bytes_cmp m a b n = 0 \<longleftrightarrow> buf_bytes m a n = buf_bytes m b n"
proof (induction n arbitrary: a b)
  case 0
  { case 1 show ?case by (simp add: buf_bytes_def) next case 2 show ?case by (simp add: buf_bytes_def) }
next
  case (Suc n)
  { case 1 show ?case using Suc.IH(1) [of "a + 1" "b + 1"] by (auto simp: buf_bytes_Suc word_less_def)
  next case 2 show ?case using Suc.IH(2) [of "a + 1" "b + 1"] by (simp add: buf_bytes_Suc) }
qed

interpretation memcmp_order: comparison "\<lambda>m a b. the (memcmp m a b width)" "unat width" "\<lambda>bs. bs" for width :: u32
  by unfold_locales (simp_all add: memcmp_run bytes_cmp_lex)

subsection \<open>Sorting\<close>

lemma assert_fits:
  fixes nel width :: u32
  assumes "0 < width"
  shows "nel \<le> (- 1) div width \<longleftrightarrow> unat nel * unat width < 2 ^ 32"
proof -
  have "unat (- 1 :: u32) = 2 ^ 32 - 1" by (simp add: unsigned_minus_1_eq_mask mask_eq_exp_minus_1)
  then have "nel \<le> (- 1) div width \<longleftrightarrow> unat nel \<le> (2 ^ 32 - 1) div unat width" by (simp only: word_le_nat_alt unat_div)
  also have "\<dots> \<longleftrightarrow> unat nel * unat width \<le> 2 ^ 32 - 1" using assms by (simp add: less_eq_div_iff_mult_less_eq word_less_nat_alt)
  finally show ?thesis by auto
qed

text \<open>C30: \<^verbatim>\<open>qsort\<close> sorts. For every comparison function that orders the records by a rank of their bytes, it returns with the same
  records in the array, in the order of their ranks, and with every byte outside the array unchanged. When the array would not fit the
  address space, the assertion fails if there is one.\<close>

theorem qsort_sorts:
  assumes "comparison compar (unat width) rank"
  shows "if unat nel * unat width < 2 ^ 32
    then \<exists>m'. qsort asserts m base nel width compar = Some m' \<and> sorted (map rank (recs m' base (unat width) (unat nel)))
      \<and> mset (recs m' base (unat width) (unat nel)) = mset (recs m base (unat width) (unat nel))
      \<and> same_outside m m' base (unat nel * unat width)
    else qsort True m base nel width compar = None"
proof (cases "nel > 1 \<and> width > 0")
  case True
  let ?n = "unat nel" and ?w = "unat width"
  have n: "1 < ?n" "?n < 2 ^ 32" "0 < ?w" using True unat_lt32 [of nel] by (simp_all add: word_less_nat_alt)
  show ?thesis
  proof (cases "?n * ?w < 2 ^ 32")
    case fits: True
    obtain g where g: "gap_loop nel 0 = Some (of_nat g)" "gaps g" "0 < g" "g < ?n"
      using gap_loop_run [OF gaps_zero _ n(1,2)] by auto
    have "of_nat (?n * ?w) = nel * width" "of_nat (g * ?w) = of_nat g * width" by simp_all
    with comparison.sort_gap_run [OF assms n(3) fits g(2-4), of base m] True fits g(1) assert_fits [of width nel]
    show ?thesis by (simp add: qsort_def qsort_r_def)
  next
    case False
    then show ?thesis using True assert_fits [of width nel] by (simp add: qsort_def qsort_r_def)
  qed
next
  case False
  then have small: "unat nel \<le> 1 \<or> unat width = 0" by (auto simp: word_less_nat_alt)
  have "unat nel * unat width < 2 ^ 32" using small unat_lt32 [of width] by (cases "unat nel") auto
  moreover have "map rank (recs m base (unat width) (unat nel)) = replicate (unat nel) (rank (buf_bytes m base (unat width)))"
  proof (cases "unat width = 0")
    case True
    then show ?thesis by (simp add: recs_def buf_bytes_def map_replicate_const comp_def)
  next
    case False
    with small have "unat nel = 0 \<or> unat nel = 1" by linarith
    then show ?thesis by (auto simp: recs_def)
  qed
  moreover have "qsort asserts m base nel width compar = Some m" using False by (auto simp: qsort_def qsort_r_def)
  ultimately show ?thesis by simp
qed

theorem qsort_sorts_witness:
  "\<exists>m'. qsort False ((\<lambda>_. 0)(100 := 7, 101 := 9, 102 := 3)) 100 3 1 (\<lambda>m a b. the (memcmp m a b 1)) = Some m' \<and> sorted (recs m' 100 1 3)"
proof -
  let ?m = "(\<lambda>_. 0)(100 := 7, 101 := 9, 102 := 3) :: bytes"
  have "comparison (\<lambda>m a b. the (memcmp m a b 1)) (unat (1 :: u32)) (\<lambda>bs. bs)" by (rule memcmp_order.comparison_axioms)
  from qsort_sorts [OF this, of 3 False ?m 100] show ?thesis by auto
qed

subsection \<open>Searching\<close>

context comparison
begin

lemma bsearch_loop_run:
  assumes "lo \<le> hi" "hi \<le> n" "n < 2 ^ 32" "sorted (map rank (recs m base w n))"
    and "\<And>i. i < lo \<Longrightarrow> rank (recs m base w n ! i) < rank (buf_bytes m key w)"
    and "\<And>i. hi \<le> i \<Longrightarrow> i < n \<Longrightarrow> rank (buf_bytes m key w) < rank (recs m base w n ! i)"
  shows "if \<exists>i < n. rank (recs m base w n ! i) = rank (buf_bytes m key w)
    then \<exists>i < n. rank (recs m base w n ! i) = rank (buf_bytes m key w)
      \<and> bsearch_loop compar m key base (of_nat w) (of_nat lo) (of_nat hi) = Some (base + of_nat (i * w))
    else bsearch_loop compar m key base (of_nat w) (of_nat lo) (of_nat hi) = Some NULL"
  using assms(1,2,5,6)
proof (induction "hi - lo" arbitrary: lo hi rule: less_induct)
  case less
  let ?xs = "recs m base w n" and ?k = "rank (buf_bytes m key w)" and ?mid = "lo + (hi - lo) div 2"
  have sorted: "rank (?xs ! a) \<le> rank (?xs ! b)" if "a \<le> b" "b < n" for a b
    using sorted_nth_mono [OF assms(4), of a b] that by simp
  have u: "unat (of_nat lo :: u32) = lo" "unat (of_nat hi :: u32) = hi" using less.prems(1,2) assms(3) by (simp_all add: unat_of_nat)
  have lt: "(of_nat lo :: u32) < of_nat hi \<longleftrightarrow> lo < hi" by (simp add: word_less_nat_alt u)
  show ?case
  proof (cases "lo < hi")
    case False
    with less.prems have "rank (?xs ! i) \<noteq> ?k" if "i < n" for i using that by (metis less_irrefl linorder_not_less order.trans)
    then show ?thesis using False lt by (subst (1 2) bsearch_loop.simps) auto
  next
    case True
    have mid: "lo \<le> ?mid" "?mid < hi" "?mid < n" using True less.prems(2) by linarith+
    have half: "of_nat lo + drop_bit 1 (of_nat hi - of_nat lo) = (of_nat ?mid :: u32)"
    proof -
      have "unat (of_nat (hi - lo) :: u32) = hi - lo" using less.prems(2) assms(3) by (simp only: unat_of_nat) simp
      then have "drop_bit 1 (of_nat (hi - lo) :: u32) = of_nat ((hi - lo) div 2)" by (simp add: drop_bit_eq_div word_arith_nat_div)
      then show ?thesis using True by (simp add: of_nat_diff)
    qed
    let ?p = "base + of_nat (?mid * w)"
    have unfold: "bsearch_loop compar m key base (of_nat w) (of_nat lo) (of_nat hi) =
       (if rank (?xs ! ?mid) < ?k then bsearch_loop compar m key base (of_nat w) (of_nat (Suc ?mid)) (of_nat hi)
        else if ?k < rank (?xs ! ?mid) then bsearch_loop compar m key base (of_nat w) (of_nat lo) (of_nat ?mid) else Some ?p)"
      using True lt half by (subst bsearch_loop.simps)
        (simp only: Let_def if_True compar_pos compar_neg recs_nth [OF mid(3)] of_nat_mult of_nat_Suc add.commute [of 1])
    consider "rank (?xs ! ?mid) < ?k" | "?k < rank (?xs ! ?mid)" | "rank (?xs ! ?mid) = ?k" by (rule linorder_cases)
    then show ?thesis
    proof cases
      case 1
      have "rank (?xs ! i) < ?k" if "i < Suc ?mid" for i using sorted [of i ?mid] 1 that mid(3) by (simp add: less_Suc_eq_le order.strict_trans1)
      then show ?thesis unfolding unfold if_P [OF 1] using less.prems(2,4) mid by (intro less.hyps) auto
    next
      case 2
      have "?k < rank (?xs ! i)" if "?mid \<le> i" "i < n" for i using sorted [of ?mid i] 2 that by (simp add: order.strict_trans2)
      then show ?thesis unfolding unfold if_P [OF 2] if_not_P [OF less_not_sym [OF 2]] using less.prems(3) mid by (intro less.hyps) auto
    next
      case 3
      then show ?thesis using mid(3) unfolding unfold by auto
    qed
  qed
qed

end

text \<open>C36: \<^verbatim>\<open>bsearch\<close> finds. On an array whose records are in the order of the comparison function, it returns the address of a record
  that compares equal to the key if there is one and NULL if there is none.\<close>

theorem bsearch_finds:
  assumes "comparison compar (unat width) rank" "0 < width" "sorted (map rank (recs m base (unat width) (unat nel)))"
  shows "if \<exists>i < unat nel. rank (recs m base (unat width) (unat nel) ! i) = rank (buf_bytes m key (unat width))
    then \<exists>i < unat nel. rank (recs m base (unat width) (unat nel) ! i) = rank (buf_bytes m key (unat width))
      \<and> bsearch compar m key base nel width = Some (base + of_nat i * width)
    else bsearch compar m key base nel width = Some NULL"
proof -
  have eq: "of_nat 0 = (0 :: u32)" "of_nat (unat nel) = nel" "of_nat (unat width) = width"
    "\<And>i. of_nat (i * unat width) = of_nat i * width" by simp_all
  show ?thesis unfolding bsearch_def if_P [OF assms(2)]
    using comparison.bsearch_loop_run [OF assms(1) le0 order_refl unat_lt32 assms(3), of key, unfolded eq] by simp
qed

theorem bsearch_finds_witness:
  "bsearch (\<lambda>m a b. the (memcmp m a b 1)) ((\<lambda>_. 0)(100 := 3, 101 := 7, 102 := 9, 200 := 9)) 200 100 3 1 = Some 102"
proof -
  let ?m = "(\<lambda>_. 0)(100 := 3, 101 := 7, 102 := 9, 200 := 9) :: bytes"
  have cmp: "comparison (\<lambda>m a b. the (memcmp m a b 1)) (unat (1 :: u32)) (\<lambda>bs. bs)" by (rule memcmp_order.comparison_axioms)
  have recs: "recs ?m 100 1 3 = [[3], [7], [9]]" "buf_bytes ?m 200 1 = [9]" by (simp_all add: recs_def buf_bytes_def upt_rec)
  have "\<exists>i < 3. [[3], [7], [9 :: u8]] ! i = [9 :: u8]" by (intro exI [of _ 2]) simp
  with bsearch_finds [OF cmp, of ?m 100 3 200] recs obtain i where
    "i < 3" "[[3], [7], [9 :: u8]] ! i = [9 :: u8]" "bsearch (\<lambda>m a b. the (memcmp m a b 1)) ?m 200 100 3 1 = Some (100 + of_nat i * 1)" by auto
  moreover then have "i = 2" by (auto simp: less_Suc_eq numeral_3_eq_3 nth_Cons')
  ultimately show ?thesis by simp
qed

end
