(* ===== verification/Cnum.thy ===== *)
theory Cnum
  imports Csort
begin

text \<open>
  The conversion of numbers in \<^verbatim>\<open>uClibc/libc/stdlib/stdlib.c\<close>: the work functions \<^verbatim>\<open>_stdlib_strto_l\<close> for 32 bits and \<^verbatim>\<open>_stdlib_strto_ll\<close> for 64
  bits, and the entry points over them. The result of a conversion is the number, the end of what was read and whether \<^verbatim>\<open>errno\<close> was set to
  \<^verbatim>\<open>ERANGE\<close>; the entry points store the end at \<^verbatim>\<open>endptr\<close> if it is not NULL. The theorems say that the value is that of the digits, cut off at
  the bounds of the type, and that \<^verbatim>\<open>ERANGE\<close> is set exactly then. \<open>None\<close> means that the string of spaces or digits does not end.
\<close>

type_synonym u64 = "64 word"

text \<open>The row of \<^verbatim>\<open>__C_ctype_b\<close> for white space: tabulator to carriage return, and the space.\<close>

definition isspace :: "u8 \<Rightarrow> bool" where
  "isspace c \<longleftrightarrow> 9 \<le> c \<and> c \<le> 13 \<or> c = 32"

partial_function (option) skip_space :: "bytes \<Rightarrow> u32 \<Rightarrow> u32 option" where
  "skip_space m str = (if isspace (m str) then skip_space m (str + 1) else Some str)"

definition strto_sign :: "bytes \<Rightarrow> u32 \<Rightarrow> u32 \<times> bool" where
  "strto_sign m str = (if m str = 0x2D then (str + 1, True) else if m str = 0x2B then (str + 1, False) else (str, False))"

text \<open>A base of 0 or 16 is settled by the prefix: the base, where the digits begin, and the end of what was read if no digit follows.\<close>

definition strto_base :: "bytes \<Rightarrow> u32 \<Rightarrow> int \<Rightarrow> u32 \<Rightarrow> int \<times> u32 \<times> u32" where
  "strto_base m str base fail_char =
     (if base = 0 \<or> base = 16 then
        let base = base + 10;
            (base, str, fail_char) =
              (if m str = 0x30 then
                 let str = str + 1; fail_char = str; base = base - 2 in
                 if 0x20 OR m str = 0x78 then (base + base, str + 1, fail_char) else (base, str, fail_char)
               else (base, str, fail_char))
        in (if base > 16 then 16 else base, str, fail_char)
      else (base, str, fail_char))"

definition strto_digit :: "u8 \<Rightarrow> u8" where
  "strto_digit c = (if c - 0x30 \<le> 9 then c - 0x30 else if 0x20 OR c \<ge> 0x61 then (0x20 OR c) - 87 else 40)"

text \<open>One more digit: \<open>None\<close> if the number leaves the type. The 32-bit version compares with the cut-off; the 64-bit version computes the
  product in two parts.\<close>

definition strto_l_step :: "int \<Rightarrow> u32 \<Rightarrow> u8 \<Rightarrow> u32 option" where
  "strto_l_step base number digit =
     (let cutoff_digit = ucast ((- 1 :: u32) mod of_int base) :: u8; cutoff = (- 1) div of_int base in
      if number > cutoff \<or> number = cutoff \<and> digit > cutoff_digit then None
      else Some (number * of_int base + ucast digit))"

definition strto_ll_step :: "int \<Rightarrow> u64 \<Rightarrow> u8 \<Rightarrow> u64 option" where
  "strto_ll_step base number digit =
     (if number \<le> drop_bit 6 (- 1) then Some (number * of_int base + ucast digit)
      else let n1 = ucast (ucast number :: u8) * of_int base + ucast digit :: u32; number = drop_bit 8 number * of_int base in
        if number + ucast (drop_bit 8 n1) \<le> drop_bit 8 (- 1) then Some (push_bit 8 number + ucast n1) else None)"

text \<open>The loop over the digits and the frame around it are the same in the two functions.\<close>

partial_function (option) strto_loop ::
  "(int \<Rightarrow> 'w :: len word \<Rightarrow> u8 \<Rightarrow> 'w word option) \<Rightarrow> bytes \<Rightarrow> int \<Rightarrow> bool \<Rightarrow> u32 \<Rightarrow> u32 \<Rightarrow> 'w word \<Rightarrow> bool \<Rightarrow> bool
    \<Rightarrow> ('w word \<times> u32 \<times> bool \<times> bool) option" where
  "strto_loop step m base sflag str fail_char number negative erange =
     (let digit = strto_digit (m str) in
      if uint digit \<ge> base then Some (number, fail_char, negative, erange)
      else let str = str + 1 in
        case step base number digit of
          None \<Rightarrow> strto_loop step m base sflag str str (- 1) (negative \<and> sflag) True
        | Some number \<Rightarrow> strto_loop step m base sflag str str number negative erange)"

definition strto_with ::
  "(int \<Rightarrow> 'w :: len word \<Rightarrow> u8 \<Rightarrow> 'w word option) \<Rightarrow> bytes \<Rightarrow> u32 \<Rightarrow> int \<Rightarrow> bool \<Rightarrow> ('w word \<times> u32 \<times> bool) option" where
  "strto_with step m str base sflag =
     Option.bind (skip_space m str) (\<lambda>str0.
     let (str1, negative) = strto_sign m str0; (base, str2, fail_char) = strto_base m str1 base str in
     Option.bind (if 2 \<le> base \<and> base < 37 then strto_loop step m base sflag str2 fail_char 0 negative False
                  else Some (0, fail_char, negative, False)) (\<lambda>(number, fail_char, negative, erange).
     let tmp = (if negative then push_bit (LENGTH('w) - 1) 1 else mask (LENGTH('w) - 1));
         (number, erange) = (if sflag \<and> number > tmp then (tmp, True) else (number, erange)) in
     Some (if negative then - number else number, fail_char, erange)))"

definition stdlib_strto_l :: "bytes \<Rightarrow> u32 \<Rightarrow> int \<Rightarrow> bool \<Rightarrow> (u32 \<times> u32 \<times> bool) option" where
  "stdlib_strto_l = strto_with strto_l_step"

definition stdlib_strto_ll :: "bytes \<Rightarrow> u32 \<Rightarrow> int \<Rightarrow> bool \<Rightarrow> (u64 \<times> u32 \<times> bool) option" where
  "stdlib_strto_ll = strto_with strto_ll_step"

text \<open>The entry points: the number, the memory with the end stored, and whether the range was left.\<close>

definition put_end :: "bytes \<Rightarrow> u32 \<Rightarrow> ('a \<times> u32 \<times> bool) option \<Rightarrow> ('a \<times> bytes \<times> bool) option" where
  "put_end m endptr r = map_option (\<lambda>(number, fail_char, erange). (number, if endptr \<noteq> NULL then set32 m endptr fail_char else m, erange)) r"

definition strtol :: "bytes \<Rightarrow> u32 \<Rightarrow> u32 \<Rightarrow> int \<Rightarrow> (u32 \<times> bytes \<times> bool) option" where
  "strtol m str endptr base = put_end m endptr (stdlib_strto_l m str base True)"

definition strtoul :: "bytes \<Rightarrow> u32 \<Rightarrow> u32 \<Rightarrow> int \<Rightarrow> (u32 \<times> bytes \<times> bool) option" where
  "strtoul m str endptr base = put_end m endptr (stdlib_strto_l m str base False)"

definition strtoll :: "bytes \<Rightarrow> u32 \<Rightarrow> u32 \<Rightarrow> int \<Rightarrow> (u64 \<times> bytes \<times> bool) option" where
  "strtoll m str endptr base = put_end m endptr (stdlib_strto_ll m str base True)"

definition strtoull :: "bytes \<Rightarrow> u32 \<Rightarrow> u32 \<Rightarrow> int \<Rightarrow> (u64 \<times> bytes \<times> bool) option" where
  "strtoull m str endptr base = put_end m endptr (stdlib_strto_ll m str base False)"

definition atol :: "bytes \<Rightarrow> u32 \<Rightarrow> u32 option" where
  "atol m nptr = map_option fst (strtol m nptr NULL 10)"

definition atoll :: "bytes \<Rightarrow> u32 \<Rightarrow> u64 option" where
  "atoll m nptr = map_option fst (strtoll m nptr NULL 10)"

definition labs :: "u32 \<Rightarrow> u32" where
  "labs j = (if 0 \<le> sint j then j else - j)"

definition llabs :: "u64 \<Rightarrow> u64" where
  "llabs j = (if 0 \<le> sint j then j else - j)"

subsection \<open>Digits\<close>

text \<open>What the loop needs of the step: it is the exact next number, or \<open>None\<close> if that does not fit.\<close>

locale digit_step =
  fixes step :: "int \<Rightarrow> 'w :: len word \<Rightarrow> u8 \<Rightarrow> 'w word option"
  assumes step_exact: "2 \<le> b \<Longrightarrow> b < 37 \<Longrightarrow> uint d < b \<Longrightarrow>
    step b n d = (if uint n * b + uint d < 2 ^ LENGTH('w) then Some (of_int (uint n * b + uint d)) else None)"

lemma cutoff_int:
  fixes n b d M :: int
  assumes "0 \<le> n" "2 \<le> b" "0 \<le> d" "d < b"
  shows "M div b < n \<or> n = M div b \<and> M mod b < d \<longleftrightarrow> M < n * b + d"
proof -
  define q r where "q = M div b" and "r = M mod b"
  have M: "M = q * b + r" "0 \<le> r" "r < b" using assms(2) by (simp_all add: q_def r_def)
  consider "q < n" | "n = q" | "n < q" by linarith
  then have "q < n \<or> n = q \<and> r < d \<longleftrightarrow> M < n * b + d"
  proof cases
    case 1
    then have "(q + 1) * b \<le> n * b" using assms(2) by (intro mult_right_mono) simp_all
    with 1 M assms(3) show ?thesis by (simp add: algebra_simps)
  next
    case 2
    with M(1) show ?thesis by auto
  next
    case 3
    then have "(n + 1) * b \<le> q * b" using assms(2) by (intro mult_right_mono) simp_all
    with 3 M assms(4) show ?thesis by (simp add: algebra_simps)
  qed
  then show ?thesis by (simp only: q_def r_def)
qed

lemma strto_l_step_exact:
  assumes "2 \<le> b" "b < 37" "uint d < b"
  shows "strto_l_step b n d = (if uint n * b + uint d < 2 ^ 32 then Some (of_int (uint n * b + uint d)) else None)"
proof -
  have b: "uint (of_int b :: u32) = b" using assms(1,2) by (simp add: take_bit_int_eq_self unsigned_of_int)
  have M: "uint (- 1 :: u32) = 2 ^ 32 - 1" by (simp add: unsigned_minus_1_eq_mask mask_eq_exp_minus_1)
  have q: "uint ((- 1) div of_int b :: u32) = (2 ^ 32 - 1) div b" by (simp only: uint_div b M)
  have "uint ((- 1) mod of_int b :: u32) = (2 ^ 32 - 1) mod b" by (simp only: uint_mod b M)
  moreover have "(2 ^ 32 - 1) mod b < 256" "0 \<le> (2 ^ 32 - 1) mod b" using pos_mod_bound [of b "2 ^ 32 - 1"] pos_mod_sign [of b "2 ^ 32 - 1"] assms(1,2) by linarith+
  ultimately have r: "uint (ucast ((- 1) mod of_int b :: u32) :: u8) = (2 ^ 32 - 1) mod b"
    by (simp add: unsigned_ucast_eq take_bit_int_eq_self)
  have "(n > (- 1) div of_int b \<or> n = (- 1) div of_int b \<and> d > ucast ((- 1 :: u32) mod of_int b)) \<longleftrightarrow> 2 ^ 32 - 1 < uint n * b + uint d"
    unfolding word_less_def word_uint_eq_iff q r using cutoff_int [of "uint n" b "uint d" "2 ^ 32 - 1"] assms by auto
  then show ?thesis unfolding strto_l_step_def Let_def by auto
qed

lemma two_part_sum: "n * b + d = 256 * (n div 256 * b) + (n mod 256 * b + d)" for n b d :: int
proof -
  have "n * b = (n div 256 * 256 + n mod 256) * b" by simp
  then show ?thesis by (simp only: distrib_right)
qed

lemma two_part_product: "n div 256 * b + (n mod 256 * b + d) div 256 < 2 ^ 56 \<longleftrightarrow> n * b + d < 2 ^ 64" for n b d :: int
proof -
  have "256 * x + e < 2 ^ 64 \<longleftrightarrow> x + e div 256 < 2 ^ 56" for x e :: int
  proof -
    have "e = 256 * (e div 256) + e mod 256" "0 \<le> e mod 256" "e mod 256 < 256" by simp_all
    then show ?thesis by (simp, linarith)
  qed
  then show ?thesis unfolding two_part_sum [of n b d] by (simp only:)
qed

lemma mult36:
  fixes x b :: int
  assumes "0 \<le> x" "x \<le> X" "2 \<le> b" "b < 37"
  shows "0 \<le> x * b" "x * b \<le> X * 36"
  using assms mult_mono [of x X b 36] by simp_all

lemma strto_ll_step_exact:
  assumes "2 \<le> b" "b < 37" "uint d < b"
  shows "strto_ll_step b n d = (if uint n * b + uint d < 2 ^ 64 then Some (of_int (uint n * b + uint d)) else None)"
proof -
  let ?N = "uint n" and ?d = "uint d"
  have val: "n * of_int b + ucast d = of_int (?N * b + ?d)" by simp
  have M: "uint (- 1 :: u64) = 2 ^ 64 - 1" by (simp add: unsigned_minus_1_eq_mask mask_eq_exp_minus_1)
  have shift: "uint (drop_bit k w) = uint w div 2 ^ k" for k and w :: "'a :: len word" 
    by (simp only: unsigned_drop_bit_eq) (simp add: drop_bit_eq_div take_bit_int_eq_self)
  have small: "n \<le> drop_bit 6 (- 1) \<longleftrightarrow> ?N < 2 ^ 58" unfolding word_le_def shift M by auto
  have fits: "?N * b + ?d < 2 ^ 64" if "?N < 2 ^ 58" using that mult36 [of ?N "2 ^ 58 - 1" b] assms by simp
  let ?n1 = "ucast (ucast n :: u8) * of_int b + ucast d :: u32" and ?h = "drop_bit 8 n * of_int b"
  have N: "0 \<le> ?N" "?N < 2 ^ 64" using uint_lt2p [of n] by simp_all
  have d: "0 \<le> ?d" by simp
  have "0 \<le> ?N div 256" "?N div 256 \<le> 2 ^ 56 - 1" using N by (simp_all add: pos_imp_zdiv_nonneg_iff)
  note hb = mult36 [OF this assms(1,2)]
  have "0 \<le> ?N mod 256" "?N mod 256 \<le> 255" by simp_all
  note lb = mult36 [OF this assms(1,2)]
  have h: "?h = of_int (?N div 256 * b)" by (simp add: drop_bit_eq_div word_div_def)
  have low: "uint (ucast n :: u8) = ?N mod 256" by (simp add: unsigned_ucast_eq take_bit_eq_mod)
  have n1: "?n1 = of_int (?N mod 256 * b + ?d)" 
  proof -
    have "(ucast (ucast n :: u8) :: u32) = of_int (?N mod 256)" "(ucast d :: u32) = of_int ?d" unfolding low [symmetric] by (rule ucast_eq)+
    then show ?thesis by (simp only: of_int_add of_int_mult)
  qed
  let ?e = "?N mod 256 * b + ?d"
  have e: "0 \<le> ?e" "?e < 2 ^ 32" "0 \<le> ?e div 256" "?e div 256 \<le> 36" using lb assms d by (simp_all add: pos_imp_zdiv_nonneg_iff)
  have un: "uint ?n1 = ?e" unfolding n1 using e by (simp only: unsigned_of_int) (simp add: take_bit_int_eq_self)
  have "?h + ucast (drop_bit 8 ?n1) = of_int (?N div 256 * b + ?e div 256)" 
    using ucast_eq [of "drop_bit 8 ?n1"] by (simp only: h shift un) simp
  moreover have "?N div 256 * b + ?e div 256 < 2 ^ 64" "0 \<le> ?N div 256 * b + ?e div 256" using hb e by simp_all
  ultimately have us: "uint (?h + ucast (drop_bit 8 ?n1)) = ?N div 256 * b + ?e div 256"
    by (simp only: unsigned_of_int) (simp add: take_bit_int_eq_self)
  have cond: "?h + ucast (drop_bit 8 ?n1) \<le> drop_bit 8 (- 1) \<longleftrightarrow> ?N * b + ?d < 2 ^ 64"
    unfolding word_le_def us shift M using two_part_product [of ?N b ?d] by auto
  have "push_bit 8 ?h + ucast ?n1 = of_int (256 * (?N div 256 * b) + ?e)" 
    using ucast_eq [of ?n1] by (simp only: h un push_bit_eq_mult) simp
  then have "push_bit 8 ?h + ucast ?n1 = of_int (?N * b + ?d)" by (simp only: two_part_sum [symmetric])
  then show ?thesis unfolding strto_ll_step_def Let_def cond small val using fits by auto
qed

interpretation l_step: digit_step strto_l_step
  by unfold_locales (simp add: strto_l_step_exact)

interpretation ll_step: digit_step strto_ll_step
  by unfold_locales (simp add: strto_ll_step_exact)

subsection \<open>The value of a numeral\<close>

primrec digits_from :: "int \<Rightarrow> int \<Rightarrow> u8 list \<Rightarrow> int" where
  "digits_from b n [] = n"
| "digits_from b n (d # ds) = digits_from b (n * b + uint (strto_digit d)) ds"

lemma digits_from_mono: "2 \<le> b \<Longrightarrow> 0 \<le> n \<Longrightarrow> n \<le> digits_from b n ds"
proof (induction ds arbitrary: n)
  case (Cons d ds)
  have "n \<le> n * b" using Cons.prems mult_mono [of n n 1 b] by simp
  then have "n \<le> n * b + uint (strto_digit d)" by (simp add: add_increasing2)
  then show ?case using Cons.IH [of "n * b + uint (strto_digit d)"] Cons.prems by simp
qed simp

context digit_step
begin

lemma step_saturated:
  assumes "2 \<le> b" "b < 37" "uint d < b" "0 \<le> n"
  shows "step b (of_int (min n (2 ^ LENGTH('w) - 1))) d =
    (if n * b + uint d < 2 ^ LENGTH('w) then Some (of_int (n * b + uint d)) else None)"
proof (cases "n < 2 ^ LENGTH('w)")
  case True
  then have "uint (of_int n :: 'w word) = n" using assms(4) by (simp add: unsigned_of_int take_bit_int_eq_self)
  then show ?thesis using True step_exact [OF assms(1-3), of "of_int n"] by (simp add: min_def)
next
  case False
  have "n \<le> n * b" using assms(1,4) mult_mono [of n n 1 b] by simp
  then have big: "\<not> n * b + uint d < 2 ^ LENGTH('w)" using False by (simp add: add_increasing2 linorder_not_less)
  have d0: "0 \<le> uint d" by simp
  define M where "M = (2 :: int) ^ LENGTH('w) - 1"
  have M: "1 \<le> M" "2 ^ LENGTH('w) = M + 1" using self_le_power [of "2 :: int" "LENGTH('w)"] by (simp_all add: M_def)
  then have "uint (of_int M :: 'w word) = M" by (simp add: unsigned_of_int take_bit_int_eq_self)
  moreover have "M * 2 \<le> M * b" using M(1) assms(1) by (intro mult_left_mono) simp_all
  then have "\<not> M * b + uint d < 2 ^ LENGTH('w)" using M d0 by linarith
  ultimately have "step b (of_int M) d = None" using step_exact [OF assms(1-3), of "of_int M"] by (simp only: if_False)
  then show ?thesis using big False by (simp add: M_def [symmetric] min_def M(2))
qed

lemma strto_loop_run:
  assumes "2 \<le> b" "b < 37" "buf_bytes m s (Suc (length ds)) = ds @ [c]" "list_all (\<lambda>d. uint (strto_digit d) < b) ds"
    "b \<le> uint (strto_digit c)" "0 \<le> n"
  shows "strto_loop step m b sflag s f (of_int (min n (2 ^ LENGTH('w) - 1))) (neg \<and> (sflag \<or> n < 2 ^ LENGTH('w))) (2 ^ LENGTH('w) \<le> n)
    = (let v = digits_from b n ds in Some (of_int (min v (2 ^ LENGTH('w) - 1)), if ds = [] then f else s + of_nat (length ds),
        neg \<and> (sflag \<or> v < 2 ^ LENGTH('w)), 2 ^ LENGTH('w) \<le> v))"
  using assms(3,4,6)
proof (induction ds arbitrary: s f n)
  case Nil
  then show ?case using assms(5) by (simp add: strto_loop.simps buf_bytes_Suc)
next
  case (Cons d ds)
  from Cons.prems(1) have ms: "m s = d" and bs: "buf_bytes m (s + 1) (Suc (length ds)) = ds @ [c]"
    by (simp_all add: buf_bytes_Suc [of m s])
  from Cons.prems(2) have d: "uint (strto_digit d) < b" and ds: "list_all (\<lambda>d. uint (strto_digit d) < b) ds" by simp_all
  let ?v = "n * b + uint (strto_digit d)"
  have "n \<le> n * b" using assms(1) Cons.prems(3) mult_mono [of n n 1 b] by simp
  then have v: "0 \<le> ?v" "n \<le> ?v" using Cons.prems(3) by (simp_all add: add_increasing2)
  note IH = Cons.IH [OF bs ds v(1), of "s + 1"]
  have absorb: "(neg \<and> (sflag \<or> x) \<and> sflag) = (neg \<and> sflag)" for x by blast
  show ?case
    by (subst strto_loop.simps) (use IH d v step_saturated [OF assms(1,2) d Cons.prems(3)] in \<open>auto simp: ms Let_def add.assoc absorb split: if_splits\<close>)
qed

end

lemma buf_bytes_append: "buf_bytes m s (a + b) = buf_bytes m s a @ buf_bytes m (s + of_nat a) b"
  by (induction a arbitrary: s) (simp_all add: buf_bytes_Suc add.assoc)

lemma skip_space_run:
  "buf_bytes m s (length ws) = ws \<Longrightarrow> list_all isspace ws \<Longrightarrow> \<not> isspace (m (s + of_nat (length ws))) \<Longrightarrow>
   skip_space m s = Some (s + of_nat (length ws))"
  by (induction ws arbitrary: s) (simp_all add: skip_space.simps [of m] buf_bytes_Suc add.assoc)

lemma no_digit:
  "isspace c \<Longrightarrow> strto_digit c = 40" "strto_digit 0x2D = 40" "strto_digit 0x2B = 40"
proof -
  assume "isspace c"
  then have "c \<in> {9, 10, 11, 12, 13, 32}" by (auto simp: isspace_def word_le_nat_alt word_unat_eq_iff)
  then show "strto_digit c = 40" by (auto simp: strto_digit_def)
qed (simp_all add: strto_digit_def)

definition clamp :: "nat \<Rightarrow> int \<Rightarrow> int" where
  "clamp w v = max (- (2 ^ (w - 1))) (min (2 ^ (w - 1) - 1) v)"

text \<open>White space, a sign, digits of the base and the byte that ends them.\<close>

definition numeral_at :: "bytes \<Rightarrow> u32 \<Rightarrow> int \<Rightarrow> u8 list \<Rightarrow> u8 list \<Rightarrow> u8 list \<Rightarrow> bool" where
  "numeral_at m s b ws sg ds \<longleftrightarrow> list_all isspace ws \<and> (sg = [] \<or> sg = [0x2D] \<or> sg = [0x2B])
     \<and> ds \<noteq> [] \<and> list_all (\<lambda>d. uint (strto_digit d) < b) ds
     \<and> buf_bytes m s (length (ws @ sg @ ds)) = ws @ sg @ ds \<and> b \<le> uint (strto_digit (m (s + of_nat (length (ws @ sg @ ds)))))"

definition numeral_value :: "int \<Rightarrow> u8 list \<Rightarrow> u8 list \<Rightarrow> int" where
  "numeral_value b sg ds = (if sg = [0x2D] then - digits_from b 0 ds else digits_from b 0 ds)"

lemma numeral_at_parts:
  assumes "numeral_at m s b ws sg ds" "b < 37"
  defines "p \<equiv> s + of_nat (length ws)" and "q \<equiv> s + of_nat (length (ws @ sg))"
  shows "skip_space m s = Some p" "strto_sign m p = (q, sg = [0x2D])"
    "buf_bytes m q (Suc (length ds)) = ds @ [m (s + of_nat (length (ws @ sg @ ds)))]"
proof -
  from assms(1) have ws: "buf_bytes m s (length ws) = ws" and rest: "buf_bytes m p (length (sg @ ds)) = sg @ ds"
    unfolding numeral_at_def p_def by (simp_all add: buf_bytes_append)
  from rest have sg: "buf_bytes m p (length sg) = sg" and ds: "buf_bytes m q (length ds) = ds"
    by (simp_all add: buf_bytes_append p_def q_def add.assoc)
  show "buf_bytes m q (Suc (length ds)) = ds @ [m (s + of_nat (length (ws @ sg @ ds)))]"
    using ds buf_bytes_append [of m q "length ds" 1] by (simp add: buf_bytes_Suc q_def add.assoc)
  from assms(1) obtain d ds' where d: "ds = d # ds'" "uint (strto_digit d) < b" unfolding numeral_at_def by (cases ds) auto
  then have nd: "d \<noteq> 0x2D" "d \<noteq> 0x2B" "\<not> isspace d" using no_digit assms(2) by fastforce+
  from sg ds d(1) have first: "sg = [] \<longrightarrow> m p = d" "\<forall>x. sg = [x] \<longrightarrow> m p = x"
    by (auto simp: buf_bytes_Suc p_def q_def)
  have sign: "sg = [] \<or> sg = [0x2D] \<or> sg = [0x2B]" "list_all isspace ws" using assms(1) by (simp_all add: numeral_at_def)
  then have "\<not> isspace (m p)" using first nd by (auto simp: isspace_def)
  then show "skip_space m s = Some p" using skip_space_run [OF ws sign(2)] by (simp add: p_def)
  show "strto_sign m p = (q, sg = [0x2D])" using sign(1) first nd by (auto simp: strto_sign_def p_def q_def add.assoc)
qed

context digit_step
begin

lemma strto_with_run:
  assumes "numeral_at m s b ws sg ds" "2 \<le> b" "b < 37" "b \<noteq> 16" "1 < LENGTH('w)"
  defines "v \<equiv> numeral_value b sg ds"
  shows "strto_with step m s b True = Some (of_int (clamp LENGTH('w) v), s + of_nat (length (ws @ sg @ ds)), v \<noteq> clamp LENGTH('w) v)"
proof -
  let ?W = "LENGTH('w)" and ?q = "s + of_nat (length (ws @ sg))" and ?e = "s + of_nat (length (ws @ sg @ ds))"
  define n neg where "n = digits_from b 0 ds" and "neg = (sg = [0x2D])"
  have n: "0 \<le> n" using digits_from_mono [of b 0 ds] assms(2) by (simp add: n_def)
  from assms(1) have ds: "ds \<noteq> []" "list_all (\<lambda>d. uint (strto_digit d) < b) ds" "b \<le> uint (strto_digit (m ?e))"
    unfolding numeral_at_def by blast+
  have end_eq: "?q + of_nat (length ds) = ?e" by (simp add: add.assoc)
  have loop: "strto_loop step m b True ?q s 0 neg False = Some (of_int (min n (2 ^ ?W - 1)), ?e, neg, 2 ^ ?W \<le> n)"
    using strto_loop_run [OF assms(2,3) numeral_at_parts(3) [OF assms(1,3)] ds(2,3) order_refl, of True s neg] ds(1)
    by (simp add: Let_def n_def end_eq)
  define H where "H = (2 :: int) ^ (?W - 1)"
  have H: "2 \<le> H" "2 ^ ?W = 2 * H" using assms(5) power_increasing [of 1 "?W - 1" "2 :: int"] by (simp_all add: H_def flip: power_Suc)
  have tmp: "uint (push_bit (?W - 1) 1 :: 'w word) = H" "uint (mask (?W - 1) :: 'w word) = H - 1"
  proof -
    have "push_bit (?W - 1) 1 = (of_int H :: 'w word)" "mask (?W - 1) = (of_int (H - 1) :: 'w word)"
      by (simp_all add: H_def push_bit_eq_mult mask_eq_exp_minus_1)
    then show "uint (push_bit (?W - 1) 1 :: 'w word) = H" "uint (mask (?W - 1) :: 'w word) = H - 1"
      using H by (simp_all only: unsigned_of_int) (simp_all add: take_bit_int_eq_self)
  qed
  let ?tmp = "if neg then push_bit (?W - 1) 1 else mask (?W - 1) :: 'w word" and ?lim = "if neg then H else H - 1"
  have num: "uint (of_int (min n (2 ^ ?W - 1)) :: 'w word) = min n (2 ^ ?W - 1)" using n H by (simp add: unsigned_of_int take_bit_int_eq_self)
  have over: "of_int (min n (2 ^ ?W - 1)) > ?tmp \<longleftrightarrow> n > ?lim" unfolding word_less_def num using tmp H by auto
  have tmp_val: "?tmp = of_int ?lim" using tmp by (metis of_int_uint ucast_id)
  have "strto_with step m s b True = Some (if n > ?lim then if neg then - ?tmp else ?tmp else if neg then - of_int n else of_int n, ?e, n > ?lim)"
    using numeral_at_parts(1,2) [OF assms(1,3)] loop over assms(2-4) H
    by (auto simp: strto_with_def strto_base_def neg_def [symmetric] Let_def)
  also have "\<dots> = Some (of_int (clamp ?W v), ?e, v \<noteq> clamp ?W v)"
    unfolding v_def numeral_value_def clamp_def H_def [symmetric] neg_def [symmetric] n_def [symmetric] tmp_val using n H by auto
  finally show ?thesis .
qed

end



end
