(* ===== verification/Ctree.thy ===== *)
theory Ctree
  imports Cnum "HOL-Library.Tree"
begin

text \<open>
  The search trees of \<^verbatim>\<open>uClibc/libc/misc/search/_tsearch.c\<close>: \<^verbatim>\<open>tsearch\<close>, \<^verbatim>\<open>tfind\<close>, \<^verbatim>\<open>tdelete\<close>, \<^verbatim>\<open>twalk\<close> and \<^verbatim>\<open>tdestroy\<close> over a heap of nodes. A
  pointer to a pointer, with which the code walks down the tree, is the slot it points to. The theorems say that a tree in the heap stays
  a search tree of the comparison function: \<^verbatim>\<open>tsearch\<close> finds the node of a key or puts a new one in its place, \<^verbatim>\<open>tdelete\<close> takes out exactly
  one node, and \<^verbatim>\<open>twalk\<close> visits the nodes in order. \<open>None\<close> means that a loop does not end. \<^verbatim>\<open>malloc\<close> is an argument; the freed nodes are
  recorded.
\<close>

record tnode =
  t_key :: u32
  t_left :: u32
  t_right :: u32

record tstate =
  t_root :: u32
  t_node :: "u32 \<Rightarrow> tnode"
  t_freed :: "u32 list"

datatype slot = Root_slot | Left_slot u32 | Right_slot u32

definition rd :: "tstate \<Rightarrow> slot \<Rightarrow> u32" where
  "rd h s = (case s of Root_slot \<Rightarrow> t_root h | Left_slot p \<Rightarrow> t_left (t_node h p) | Right_slot p \<Rightarrow> t_right (t_node h p))"

definition upd_node :: "u32 \<Rightarrow> (tnode \<Rightarrow> tnode) \<Rightarrow> tstate \<Rightarrow> tstate" where
  "upd_node p f h = h\<lparr>t_node := (t_node h)(p := f (t_node h p))\<rparr>"

definition wr :: "slot \<Rightarrow> u32 \<Rightarrow> tstate \<Rightarrow> tstate" where
  "wr s v h = (case s of Root_slot \<Rightarrow> h\<lparr>t_root := v\<rparr>
     | Left_slot p \<Rightarrow> upd_node p (\<lambda>n. n\<lparr>t_left := v\<rparr>) h | Right_slot p \<Rightarrow> upd_node p (\<lambda>n. n\<lparr>t_right := v\<rparr>) h)"

text \<open>The way down: the node with the key, or the empty slot.\<close>

partial_function (option) tree_walk :: "(u32 \<Rightarrow> u32 \<Rightarrow> int) \<Rightarrow> u32 \<Rightarrow> tstate \<Rightarrow> slot \<Rightarrow> (u32 + slot) option" where
  "tree_walk compar key h rootp =
     (if rd h rootp \<noteq> NULL then
        let r = compar key (t_key (t_node h (rd h rootp))) in
        if r = 0 then Some (Inl (rd h rootp))
        else tree_walk compar key h (if r < 0 then Left_slot (rd h rootp) else Right_slot (rd h rootp))
      else Some (Inr rootp))"

definition tsearch :: "(u32 \<Rightarrow> tstate \<Rightarrow> u32) \<Rightarrow> (u32 \<Rightarrow> u32 \<Rightarrow> int) \<Rightarrow> u32 \<Rightarrow> slot option \<Rightarrow> tstate \<Rightarrow> (u32 \<times> tstate) option" where
  "tsearch malloc compar key vrootp h =
     (case vrootp of None \<Rightarrow> Some (NULL, h)
      | Some rootp \<Rightarrow> Option.bind (tree_walk compar key h rootp) (\<lambda>found. case found of
          Inl p \<Rightarrow> Some (p, h)
        | Inr rootp \<Rightarrow>
            let q = malloc 12 h in
            if q \<noteq> NULL then Some (q, upd_node q (\<lambda>n. n\<lparr>t_key := key, t_right := NULL, t_left := NULL\<rparr>) (wr rootp q h))
            else Some (q, h)))"

definition tfind :: "(u32 \<Rightarrow> u32 \<Rightarrow> int) \<Rightarrow> u32 \<Rightarrow> slot option \<Rightarrow> tstate \<Rightarrow> u32 option" where
  "tfind compar key vrootp h =
     (case vrootp of None \<Rightarrow> Some NULL
      | Some rootp \<Rightarrow> map_option (\<lambda>found. case found of Inl p \<Rightarrow> p | Inr _ \<Rightarrow> NULL) (tree_walk compar key h rootp))"

text \<open>The way down to a node that is to be deleted: its parent (or itself at the root) and its slot.\<close>

partial_function (option) tdelete_walk :: "(u32 \<Rightarrow> u32 \<Rightarrow> int) \<Rightarrow> u32 \<Rightarrow> tstate \<Rightarrow> u32 \<Rightarrow> slot \<Rightarrow> (u32 \<times> slot) option option" where
  "tdelete_walk compar key h p rootp =
     (let c = compar key (t_key (t_node h (rd h rootp))) in
      if c \<noteq> 0 then
        let p = rd h rootp; rootp = (if c < 0 then Left_slot p else Right_slot p) in
        if rd h rootp = NULL then Some None else tdelete_walk compar key h p rootp
      else Some (Some (p, rootp)))"

partial_function (option) leftmost :: "tstate \<Rightarrow> u32 \<Rightarrow> u32 \<Rightarrow> (u32 \<times> u32) option" where
  "leftmost h r q = (if t_left (t_node h q) \<noteq> NULL then leftmost h q (t_left (t_node h q)) else Some (r, q))"

definition tdelete_node :: "slot \<Rightarrow> tstate \<Rightarrow> tstate option" where
  "tdelete_node rootp h =
     (let n = rd h rootp; r = t_right (t_node h n); q = t_left (t_node h n) in
      Option.bind
        (if q = NULL then Some (r, h)
         else if r \<noteq> NULL then
           if t_left (t_node h r) = NULL then Some (r, upd_node r (\<lambda>x. x\<lparr>t_left := q\<rparr>) h)
           else Option.bind (leftmost h r (t_left (t_node h r))) (\<lambda>(r, q).
             let h = upd_node r (\<lambda>x. x\<lparr>t_left := t_right (t_node h q)\<rparr>) h;
                 h = upd_node q (\<lambda>x. x\<lparr>t_left := t_left (t_node h (rd h rootp))\<rparr>) h;
                 h = upd_node q (\<lambda>x. x\<lparr>t_right := t_right (t_node h (rd h rootp))\<rparr>) h in
             Some (q, h))
         else Some (q, h))
        (\<lambda>(q, h). Some (wr rootp q (h\<lparr>t_freed := rd h rootp # t_freed h\<rparr>))))"

definition tdelete :: "(u32 \<Rightarrow> u32 \<Rightarrow> int) \<Rightarrow> u32 \<Rightarrow> slot option \<Rightarrow> tstate \<Rightarrow> (u32 \<times> tstate) option" where
  "tdelete compar key vrootp h =
     (case vrootp of None \<Rightarrow> Some (NULL, h)
      | Some rootp \<Rightarrow>
          if rd h rootp = NULL then Some (NULL, h)
          else Option.bind (tdelete_walk compar key h (rd h rootp) rootp) (\<lambda>found. case found of
            None \<Rightarrow> Some (NULL, h)
          | Some (p, rootp) \<Rightarrow> map_option (\<lambda>h. (p, h)) (tdelete_node rootp h)))"

text \<open>The calls that \<^verbatim>\<open>twalk\<close> makes, in order.\<close>

datatype visit = Preorder | Postorder | Endorder | Leaf_visit

partial_function (option) trecurse :: "tstate \<Rightarrow> u32 \<Rightarrow> int \<Rightarrow> (u32 \<times> visit \<times> int) list option" where
  "trecurse h root level =
     (let l = t_left (t_node h root); r = t_right (t_node h root) in
      if l = NULL \<and> r = NULL then Some [(root, Leaf_visit, level)]
      else Option.bind (if l \<noteq> NULL then trecurse h l (level + 1) else Some []) (\<lambda>ls.
           Option.bind (if r \<noteq> NULL then trecurse h r (level + 1) else Some []) (\<lambda>rs.
           Some ([(root, Preorder, level)] @ ls @ [(root, Postorder, level)] @ rs @ [(root, Endorder, level)]))))"

definition twalk :: "tstate \<Rightarrow> u32 \<Rightarrow> bool \<Rightarrow> (u32 \<times> visit \<times> int) list option" where
  "twalk h root action = (if root \<noteq> NULL \<and> action then trecurse h root 0 else Some [])"

text \<open>\<^verbatim>\<open>tdestroy\<close>: the nodes in the order in which their keys and they themselves are freed.\<close>

partial_function (option) tdestroy_recurse :: "tstate \<Rightarrow> u32 \<Rightarrow> u32 list option" where
  "tdestroy_recurse h root =
     Option.bind (if t_left (t_node h root) \<noteq> NULL then tdestroy_recurse h (t_left (t_node h root)) else Some []) (\<lambda>ls.
     Option.bind (if t_right (t_node h root) \<noteq> NULL then tdestroy_recurse h (t_right (t_node h root)) else Some []) (\<lambda>rs.
     Some (ls @ rs @ [root])))"

definition tdestroy :: "tstate \<Rightarrow> u32 \<Rightarrow> u32 list option" where
  "tdestroy h root = (if root \<noteq> NULL then tdestroy_recurse h root else Some [])"

subsection \<open>Trees in the heap\<close>

fun tree_at :: "tstate \<Rightarrow> u32 \<Rightarrow> u32 tree \<Rightarrow> bool" where
  "tree_at h p Leaf \<longleftrightarrow> p = NULL"
| "tree_at h p (Node l a r) \<longleftrightarrow> p = a \<and> a \<noteq> NULL \<and> tree_at h (t_left (t_node h a)) l \<and> tree_at h (t_right (t_node h a)) r"

lemma tree_at_cong:
  "(\<And>a. a \<in> set_tree t \<Longrightarrow> t_left (t_node h' a) = t_left (t_node h a) \<and> t_right (t_node h' a) = t_right (t_node h a)) \<Longrightarrow>
   tree_at h' p t = tree_at h p t"
  by (induction t arbitrary: p) auto

lemma tree_at_NULL: "tree_at h NULL t \<longleftrightarrow> t = Leaf"
  by (cases t) auto

fun owner :: "slot \<Rightarrow> u32 set" where
  "owner Root_slot = {}"
| "owner (Left_slot p) = {p}"
| "owner (Right_slot p) = {p}"

lemma upd_node_simps [simp]:
  "t_root (upd_node p f h) = t_root h" "t_freed (upd_node p f h) = t_freed h"
  "t_node (upd_node p f h) p = f (t_node h p)" "a \<noteq> p \<Longrightarrow> t_node (upd_node p f h) a = t_node h a"
  by (simp_all add: upd_node_def)

lemma wr_simps [simp]: "rd (wr s v h) s = v" "t_freed (wr s v h) = t_freed h"
  "a \<notin> owner s \<Longrightarrow> t_node (wr s v h) a = t_node h a" "t_key (t_node (wr s v h) a) = t_key (t_node h a)"
  by (cases s; simp add: rd_def wr_def upd_node_def)+

lemma rd_cong: "t_root h' = t_root h \<Longrightarrow> (\<And>a. a \<in> owner s \<Longrightarrow> t_node h' a = t_node h a) \<Longrightarrow> rd h' s = rd h s"
  by (cases s) (simp_all add: rd_def)

subsection \<open>The comparison of keys\<close>

locale key_order =
  fixes compar :: "u32 \<Rightarrow> u32 \<Rightarrow> int" and K :: "u32 set" and rank :: "u32 \<Rightarrow> 'k :: linorder"
  assumes compar_neg: "a \<in> K \<Longrightarrow> b \<in> K \<Longrightarrow> compar a b < 0 \<longleftrightarrow> rank a < rank b"
    and compar_zero: "a \<in> K \<Longrightarrow> b \<in> K \<Longrightarrow> compar a b = 0 \<longleftrightarrow> rank a = rank b"

definition tree_keys :: "tstate \<Rightarrow> u32 tree \<Rightarrow> u32 list" where
  "tree_keys h t = map (\<lambda>a. t_key (t_node h a)) (inorder t)"

text \<open>A search tree at a slot: its nodes are distinct, and their keys are in strictly ascending order of rank.\<close>

definition search_tree :: "u32 set \<Rightarrow> (u32 \<Rightarrow> 'k :: linorder) \<Rightarrow> tstate \<Rightarrow> slot \<Rightarrow> u32 tree \<Rightarrow> bool" where
  "search_tree K rank h s t \<longleftrightarrow> tree_at h (rd h s) t \<and> distinct (inorder t) \<and> owner s \<inter> set_tree t = {}
     \<and> set (tree_keys h t) \<subseteq> K \<and> sorted_wrt (<) (map rank (tree_keys h t))"

lemma search_tree_sub:
  assumes "search_tree K rank h s (Node l a r)"
  shows "search_tree K rank h (Left_slot a) l" "search_tree K rank h (Right_slot a) r" "rd h s = a" "a \<noteq> NULL"
    "t_key (t_node h a) \<in> K"
    "\<And>b. b \<in> set_tree l \<Longrightarrow> rank (t_key (t_node h b)) < rank (t_key (t_node h a))"
    "\<And>b. b \<in> set_tree r \<Longrightarrow> rank (t_key (t_node h a)) < rank (t_key (t_node h b))"
  using assms by (auto simp: search_tree_def tree_keys_def rd_def sorted_wrt_append)

context key_order
begin

text \<open>The way down a search tree ends: at the node with the key, or at an empty slot where the key belongs.\<close>

lemma tree_walk_found:
  assumes "search_tree K rank h s t" "key \<in> K" "a \<in> set_tree t" "rank (t_key (t_node h a)) = rank key"
  shows "tree_walk compar key h s = Some (Inl a)"
  using assms(1,3)
proof (induction t arbitrary: s)
  case (Node l b r)
  note sub = search_tree_sub [OF Node.prems(1)]
  have walk: "tree_walk compar key h s = (if rank key = rank (t_key (t_node h b)) then Some (Inl b)
     else tree_walk compar key h (if rank key < rank (t_key (t_node h b)) then Left_slot b else Right_slot b))"
    using sub(3-5) assms(2) by (simp add: tree_walk.simps [of compar key h s] Let_def compar_neg compar_zero)
  from Node.prems(2) consider "a = b" | "a \<in> set_tree l" | "a \<in> set_tree r" by auto
  then show ?case
  proof cases
    case 1
    then show ?thesis using walk assms(4) by simp
  next
    case 2
    then show ?thesis using walk assms(4) sub(6) [OF 2] Node.IH(1) [OF sub(1) 2] by auto
  next
    case 3
    then show ?thesis using walk assms(4) sub(7) [OF 3] Node.IH(2) [OF sub(2) 3] by (auto dest: less_not_sym)
  qed
qed simp

end

definition put_new :: "u32 \<Rightarrow> u32 \<Rightarrow> slot \<Rightarrow> tstate \<Rightarrow> tstate" where
  "put_new q key s h = upd_node q (\<lambda>n. n\<lparr>t_key := key, t_right := NULL, t_left := NULL\<rparr>) (wr s q h)"

lemma put_new_at:
  "t_left (t_node (put_new q key s h) q) = NULL" "t_right (t_node (put_new q key s h) q) = NULL"
  "t_key (t_node (put_new q key s h) q) = key" "t_freed (put_new q key s h) = t_freed h"
  by (simp_all add: put_new_def)

lemma put_new_else:
  assumes "a \<noteq> q"
  shows "a \<notin> owner s \<Longrightarrow> t_node (put_new q key s h) a = t_node h a" "t_key (t_node (put_new q key s h) a) = t_key (t_node h a)"
    "t_right (t_node (put_new q key (Left_slot a) h) a) = t_right (t_node h a)"
    "t_left (t_node (put_new q key (Right_slot a) h) a) = t_left (t_node h a)"
  using assms by (simp_all add: put_new_def) (simp_all add: wr_def)

lemma put_new_slot:
  "q \<notin> owner s \<Longrightarrow> rd (put_new q key s h) s = q" "owner s \<noteq> {} \<Longrightarrow> t_root (put_new q key s h) = t_root h"
  by (cases s; simp add: put_new_def wr_def rd_def)+

lemma put_new_apart:
  assumes "owner s \<inter> set_tree t = {}" "q \<notin> set_tree t"
  shows "tree_at (put_new q key s h) p t = tree_at h p t"
proof (rule tree_at_cong)
  fix a assume "a \<in> set_tree t"
  then have "t_node (put_new q key s h) a = t_node h a" using assms by (intro put_new_else(1)) auto
  then show "t_left (t_node (put_new q key s h) a) = t_left (t_node h a) \<and> t_right (t_node (put_new q key s h) a) = t_right (t_node h a)" by simp
qed

lemmas put_new_simps = put_new_at put_new_else put_new_slot

context key_order
begin

lemma tree_walk_missing:
  assumes "search_tree K rank h s t" "key \<in> K" "\<And>a. a \<in> set_tree t \<Longrightarrow> rank (t_key (t_node h a)) \<noteq> rank key"
    "q \<noteq> NULL" "q \<notin> set_tree t" "q \<notin> owner s"
  shows "\<exists>s' t' xs ys. tree_walk compar key h s = Some (Inr s') \<and> (s' = s \<or> owner s' \<subseteq> set_tree t \<and> owner s' \<noteq> {})
    \<and> tree_at (put_new q key s' h) (rd (put_new q key s' h) s) t' \<and> inorder t = xs @ ys \<and> inorder t' = xs @ q # ys
    \<and> (\<forall>x \<in> set xs. rank (t_key (t_node h x)) < rank key) \<and> (\<forall>y \<in> set ys. rank key < rank (t_key (t_node h y)))"
  using assms(1,3,5,6)
proof (induction t arbitrary: s)
  case Leaf
  then have "rd h s = NULL" by (simp add: search_tree_def)
  then have "tree_walk compar key h s = Some (Inr s)" by (simp add: tree_walk.simps)
  moreover have "tree_at (put_new q key s h) (rd (put_new q key s h) s) (Node Leaf q Leaf)"
    using assms(4) Leaf.prems(4) by (simp add: put_new_simps)
  moreover have "inorder (Node Leaf q Leaf) = [] @ q # []" by simp
  ultimately show ?case by fastforce
next
  case (Node l b r)
  note sub = search_tree_sub [OF Node.prems(1)]
  have disj: "b \<notin> set_tree l" "b \<notin> set_tree r" "set_tree l \<inter> set_tree r = {}" "owner s \<inter> set_tree (Node l b r) = {}"
    using Node.prems(1) by (auto simp: search_tree_def)
  have ne: "rank key \<noteq> rank (t_key (t_node h b))" using Node.prems(2) [of b] by auto
  have walk: "tree_walk compar key h s = tree_walk compar key h (if rank key < rank (t_key (t_node h b)) then Left_slot b else Right_slot b)"
    using sub(3-5) assms(2) ne by (simp add: tree_walk.simps [of compar key h s] Let_def compar_neg compar_zero)
  have root: "rd (put_new q key s' h) s = b" if "owner s' \<subseteq> set_tree (Node l b r)" "owner s' \<noteq> {}" for s'
  proof -
    have "t_node (put_new q key s' h) a = t_node h a" if "a \<in> owner s" for a
      by (rule put_new_else(1)) (use that \<open>owner s' \<subseteq> _\<close> Node.prems(4) disj(4) in blast)+
    then have "rd (put_new q key s' h) s = rd h s" using that(2) by (intro rd_cong) (simp_all add: put_new_simps)
    then show ?thesis using sub(3) by simp
  qed
  show ?case
  proof (cases "rank key < rank (t_key (t_node h b))")
    case True
    have "\<And>a. a \<in> set_tree l \<Longrightarrow> rank (t_key (t_node h a)) \<noteq> rank key" "q \<notin> set_tree l" "q \<notin> owner (Left_slot b)"
      using Node.prems(2,3) by auto
    from Node.IH(1) [OF sub(1) this] obtain s' t' xs ys where IH: "tree_walk compar key h (Left_slot b) = Some (Inr s')"
      "s' = Left_slot b \<or> owner s' \<subseteq> set_tree l \<and> owner s' \<noteq> {}" "tree_at (put_new q key s' h) (rd (put_new q key s' h) (Left_slot b)) t'"
      "inorder l = xs @ ys" "inorder t' = xs @ q # ys" "\<forall>x \<in> set xs. rank (t_key (t_node h x)) < rank key"
      "\<forall>y \<in> set ys. rank key < rank (t_key (t_node h y))" by blast
    let ?h = "put_new q key s' h"
    have s': "owner s' \<subseteq> set_tree (Node l b r)" "owner s' \<noteq> {}" "owner s' \<inter> set_tree r = {}" "b \<notin> owner s' \<or> s' = Left_slot b"
      using IH(2) disj by auto
    have "t_right (t_node ?h b) = t_right (t_node h b)" using s'(4) Node.prems(3) by (auto simp: put_new_simps)
    moreover have "tree_at ?h p r = tree_at h p r" for p using s'(3) Node.prems(3) by (intro put_new_apart) auto
    ultimately have "tree_at ?h (rd ?h s) (Node t' b r)" using IH(3) root [OF s'(1,2)] sub(2,4) by (simp add: search_tree_def rd_def)
    moreover have "inorder (Node t' b r) = xs @ q # (ys @ b # inorder r)" "inorder (Node l b r) = xs @ (ys @ b # inorder r)" using IH(4,5) by simp_all
    moreover have "\<forall>y \<in> set (ys @ b # inorder r). rank key < rank (t_key (t_node h y))"
      using IH(7) True sub(7) by (auto intro: order.strict_trans)
    moreover have "tree_walk compar key h s = Some (Inr s')" using walk True IH(1) by simp
    ultimately show ?thesis using IH(6) s'(1,2) by blast
  next
    case False
    then have gt: "rank (t_key (t_node h b)) < rank key" using ne by (simp add: not_less_iff_gr_or_eq)
    have "\<And>a. a \<in> set_tree r \<Longrightarrow> rank (t_key (t_node h a)) \<noteq> rank key" "q \<notin> set_tree r" "q \<notin> owner (Right_slot b)"
      using Node.prems(2,3) by auto
    from Node.IH(2) [OF sub(2) this] obtain s' t' xs ys where IH: "tree_walk compar key h (Right_slot b) = Some (Inr s')"
      "s' = Right_slot b \<or> owner s' \<subseteq> set_tree r \<and> owner s' \<noteq> {}" "tree_at (put_new q key s' h) (rd (put_new q key s' h) (Right_slot b)) t'"
      "inorder r = xs @ ys" "inorder t' = xs @ q # ys" "\<forall>x \<in> set xs. rank (t_key (t_node h x)) < rank key"
      "\<forall>y \<in> set ys. rank key < rank (t_key (t_node h y))" by blast
    let ?h = "put_new q key s' h"
    have s': "owner s' \<subseteq> set_tree (Node l b r)" "owner s' \<noteq> {}" "owner s' \<inter> set_tree l = {}" "b \<notin> owner s' \<or> s' = Right_slot b"
      using IH(2) disj by auto
    have "t_left (t_node ?h b) = t_left (t_node h b)" using s'(4) Node.prems(3) by (auto simp: put_new_simps)
    moreover have "tree_at ?h p l = tree_at h p l" for p using s'(3) Node.prems(3) by (intro put_new_apart) auto
    ultimately have "tree_at ?h (rd ?h s) (Node l b t')" using IH(3) root [OF s'(1,2)] sub(1,4) by (simp add: search_tree_def rd_def)
    moreover have "inorder (Node l b t') = (inorder l @ b # xs) @ q # ys" "inorder (Node l b r) = (inorder l @ b # xs) @ ys" using IH(4,5) by simp_all
    moreover have "\<forall>x \<in> set (inorder l @ b # xs). rank (t_key (t_node h x)) < rank key"
      using IH(6) gt sub(6) by (auto intro: order.strict_trans)
    moreover have "tree_walk compar key h s = Some (Inr s')" using walk False IH(1) by simp
    ultimately show ?thesis using IH(7) s'(1,2) by blast
  qed
qed

end

text \<open>\<^verbatim>\<open>strcmp\<close> on strings in memory is such a comparison; the rank of a pointer is the string it points to.\<close>

definition text_at :: "bytes \<Rightarrow> u32 \<Rightarrow> u8 list" where
  "text_at m a = (THE bs. str_at m a bs)"

lemma str_at_unique: "str_at m a bs \<Longrightarrow> str_at m a cs \<Longrightarrow> bs = cs"
proof (induction bs arbitrary: a cs)
  case Nil
  then show ?case by (cases cs) auto
next
  case (Cons b bs)
  then show ?case by (cases cs) auto
qed

lemma text_at_eq: "str_at m a bs \<Longrightarrow> text_at m a = bs"
  unfolding text_at_def by (rule the_equality) (auto dest: str_at_unique)

lemma strcmp_lex:
  "str_at m a bs \<Longrightarrow> str_at m b cs \<Longrightarrow> \<exists>r. strcmp_asm m a b = Some r \<and> (r < 0 \<longleftrightarrow> bs < cs) \<and> (r = 0 \<longleftrightarrow> bs = cs)"
proof (induction bs arbitrary: a b cs)
  case Nil
  then show ?case by (cases cs) (auto simp: strcmp_asm.simps [of m a] sbb_or_def word_greater_zero_iff)
next
  case (Cons x bs)
  show ?case
  proof (cases cs)
    case Nil
    then show ?thesis using Cons.prems by (auto simp: strcmp_asm.simps [of m a] sbb_or_def)
  next
    case (Cons y ds)
    then show ?thesis using Cons.prems Cons.IH [of "a + 1" "b + 1" ds] by (auto simp: strcmp_asm.simps [of m a] sbb_or_def)
  qed
qed

interpretation strcmp_keys: key_order "\<lambda>a b. the (strcmp_asm m a b)" "{a. \<exists>bs. str_at m a bs}" "text_at m" for m
proof
  fix a b assume "a \<in> {a. \<exists>bs. str_at m a bs}" "b \<in> {a. \<exists>bs. str_at m a bs}"
  then obtain bs cs where s: "str_at m a bs" "str_at m b cs" by auto
  with strcmp_lex [OF s] show "(the (strcmp_asm m a b) < 0) = (text_at m a < text_at m b)"
    "(the (strcmp_asm m a b) = 0) = (text_at m a = text_at m b)" by (auto simp: text_at_eq)
qed

subsection \<open>Search and insertion\<close>

lemma search_tree_insert:
  assumes "search_tree K rank h s t" "tree_at h' (rd h' s) t'" "inorder t = xs @ ys" "inorder t' = xs @ q # ys"
    "tree_keys h' t' = map (\<lambda>a. t_key (t_node h a)) xs @ key # map (\<lambda>a. t_key (t_node h a)) ys" "key \<in> K" "q \<notin> set_tree t \<union> owner s"
    "\<forall>x \<in> set xs. rank (t_key (t_node h x)) < rank key" "\<forall>y \<in> set ys. rank key < rank (t_key (t_node h y))"
  shows "search_tree K rank h' s t'"
proof -
  have "set_tree t = set xs \<union> set ys" "set_tree t' = insert q (set xs \<union> set ys)"
    using arg_cong [OF assms(3), of set] arg_cong [OF assms(4), of set] by auto
  moreover have "tree_keys h t = map (\<lambda>a. t_key (t_node h a)) xs @ map (\<lambda>a. t_key (t_node h a)) ys" by (simp add: tree_keys_def assms(3))
  ultimately show ?thesis using assms(1,2,4-9) by (auto simp: search_tree_def assms(3) sorted_wrt_append)
qed

text \<open>C31: \<^verbatim>\<open>tsearch\<close> keeps the tree a search tree. It returns a node that compares equal to the key: the one in the tree, with the
  heap unchanged, or else the new node that \<^verbatim>\<open>malloc\<close> gave, which is then in the tree with the key, beside the nodes that were there with their keys.
  Afterwards \<^verbatim>\<open>tfind\<close> returns the same node.\<close>

theorem tsearch_keeps_search_tree:
  assumes "key_order compar K rank" "search_tree K rank h s t" "key \<in> K"
    "malloc 12 h \<noteq> NULL" "malloc 12 h \<notin> set_tree t \<union> owner s"
  shows "\<exists>p h' t'. tsearch malloc compar key (Some s) h = Some (p, h') \<and> search_tree K rank h' s t' \<and> p \<in> set_tree t'
    \<and> rank (t_key (t_node h' p)) = rank key \<and> tfind compar key (Some s) h' = Some p
    \<and> (if \<exists>a \<in> set_tree t. rank (t_key (t_node h a)) = rank key then h' = h \<and> t' = t
       else p = malloc 12 h \<and> t_key (t_node h' p) = key \<and> set_tree t' = insert p (set_tree t)
         \<and> (\<forall>a \<in> set_tree t. t_key (t_node h' a) = t_key (t_node h a)))"
proof (cases "\<exists>a \<in> set_tree t. rank (t_key (t_node h a)) = rank key")
  case True
  then obtain a where a: "a \<in> set_tree t" "rank (t_key (t_node h a)) = rank key" by blast
  from key_order.tree_walk_found [OF assms(1-3) a] a True assms(2) show ?thesis
    by (intro exI [of _ a] exI [of _ h] exI [of _ t]) (simp add: tsearch_def tfind_def)
next
  case False
  let ?q = "malloc 12 h"
  obtain s' t' xs ys where w: "tree_walk compar key h s = Some (Inr s')" "s' = s \<or> owner s' \<subseteq> set_tree t \<and> owner s' \<noteq> {}"
    "tree_at (put_new ?q key s' h) (rd (put_new ?q key s' h) s) t'" "inorder t = xs @ ys" "inorder t' = xs @ ?q # ys"
    "\<forall>x \<in> set xs. rank (t_key (t_node h x)) < rank key" "\<forall>y \<in> set ys. rank key < rank (t_key (t_node h y))"
    using key_order.tree_walk_missing [OF assms(1-3), of ?q] False assms(4,5) by blast
  let ?h = "put_new ?q key s' h"
  have set_t: "set_tree t = set xs \<union> set ys" "set_tree t' = insert ?q (set_tree t)"
    using arg_cong [OF w(4), of set] arg_cong [OF w(5), of set] by auto
  have keys: "t_key (t_node ?h a) = t_key (t_node h a)" if "a \<in> set_tree t" for a
    using that assms(5) by (intro put_new_else(2)) auto
  have q: "t_key (t_node ?h ?q) = key" by (rule put_new_at(3))
  have "tree_keys ?h t' = map (\<lambda>a. t_key (t_node h a)) xs @ key # map (\<lambda>a. t_key (t_node h a)) ys"
    using keys set_t(1) by (simp add: tree_keys_def w(5) q)
  then have st: "search_tree K rank ?h s t'" by (rule search_tree_insert [OF assms(2) w(3-5)]) (use assms(3,5) w(6,7) in auto)
  have "tree_walk compar key ?h s = Some (Inl ?q)" by (rule key_order.tree_walk_found [OF assms(1) st assms(3)]) (simp_all add: set_t q)
  moreover have "tsearch malloc compar key (Some s) h = Some (?q, ?h)" using w(1) assms(4) by (simp add: tsearch_def put_new_def Let_def)
  ultimately show ?thesis using False st q keys set_t(2) by (intro exI [of _ ?q] exI [of _ ?h] exI [of _ t']) (simp add: tfind_def)
qed

definition demo_texts :: bytes where
  "demo_texts = (\<lambda>_. 0)(100 := 98, 200 := 97)"

definition demo_tree :: tstate where
  "demo_tree = \<lparr>t_root = 0x1000, t_node = (\<lambda>_. \<lparr>t_key = 0, t_left = 0, t_right = 0\<rparr>)(0x1000 := \<lparr>t_key = 100, t_left = 0, t_right = 0\<rparr>),
     t_freed = []\<rparr>"

lemma demo_tree_search: "search_tree {a. \<exists>bs. str_at demo_texts a bs} (text_at demo_texts) demo_tree Root_slot (Node Leaf 0x1000 Leaf)"
  "str_at demo_texts 100 [98]" "str_at demo_texts 200 [97]"
proof -
  show "str_at demo_texts 100 [98]" "str_at demo_texts 200 [97]" by (simp_all add: demo_texts_def)
  then have "\<exists>bs. str_at demo_texts 100 bs" by blast
  then show "search_tree {a. \<exists>bs. str_at demo_texts a bs} (text_at demo_texts) demo_tree Root_slot (Node Leaf 0x1000 Leaf)"
    by (simp add: search_tree_def demo_tree_def rd_def tree_keys_def)
qed

theorem tsearch_keeps_search_tree_witness:
  "\<exists>p h'. tsearch (\<lambda>_ _. 0x2000) (\<lambda>a b. the (strcmp_asm demo_texts a b)) 200 (Some Root_slot) demo_tree = Some (p, h')
    \<and> tfind (\<lambda>a b. the (strcmp_asm demo_texts a b)) 200 (Some Root_slot) h' = Some p"
proof -
  have "200 \<in> {a. \<exists>bs. str_at demo_texts a bs}" using demo_tree_search(3) by blast
  from tsearch_keeps_search_tree [OF strcmp_keys.key_order_axioms demo_tree_search(1) this, of "\<lambda>_ _. 0x2000"] show ?thesis by auto
qed

subsection \<open>Walking\<close>

lemma trecurse_run:
  "tree_at h p t \<Longrightarrow> p \<noteq> NULL \<Longrightarrow>
   \<exists>vs. trecurse h p level = Some vs \<and> map fst (filter (\<lambda>(_, v, _). v = Postorder \<or> v = Leaf_visit) vs) = inorder t"
proof (induction t arbitrary: p level)
  case (Node l a r)
  let ?sel = "filter (\<lambda>(_, v, _). v = Postorder \<or> v = Leaf_visit)"
  from Node.prems have a: "p = a" "tree_at h (t_left (t_node h a)) l" "tree_at h (t_right (t_node h a)) r" by simp_all
  have sub: "\<exists>vs. (if c \<noteq> NULL then trecurse h c (level + 1) else Some []) = Some vs \<and> map fst (?sel vs) = inorder u"
    if "tree_at h c u" "\<And>p level. tree_at h p u \<Longrightarrow> p \<noteq> NULL \<Longrightarrow> \<exists>vs. trecurse h p level = Some vs \<and> map fst (?sel vs) = inorder u" for c u
    using that by (cases "c = NULL") (auto simp: tree_at_NULL)
  from sub [OF a(2) Node.IH(1)] sub [OF a(3) Node.IH(2)] show ?case
    using a(2,3) by (subst trecurse.simps) (auto simp: a(1) Let_def tree_at_NULL)
qed simp



lemma tdestroy_run:
  "tree_at h p t \<Longrightarrow> p \<noteq> NULL \<Longrightarrow> \<exists>ns. tdestroy_recurse h p = Some ns \<and> ns = postorder t"
proof (induction t arbitrary: p)
  case (Node l a r)
  have sub: "(if c \<noteq> NULL then tdestroy_recurse h c else Some []) = Some (postorder u)"
    if "tree_at h c u" "\<And>p. tree_at h p u \<Longrightarrow> p \<noteq> NULL \<Longrightarrow> \<exists>ns. tdestroy_recurse h p = Some ns \<and> ns = postorder u" for c u
    using that by (cases "c = NULL") (auto simp: tree_at_NULL)
  from Node.prems have "tree_at h (t_left (t_node h a)) l" "tree_at h (t_right (t_node h a)) r" "p = a" by simp_all
  then show ?case using sub [OF _ Node.IH(1)] sub [OF _ Node.IH(2)] by (subst tdestroy_recurse.simps) (simp only: Option.bind.bind_lunit, simp)
qed simp

text \<open>\<^verbatim>\<open>tdestroy\<close> frees every node of the tree, and no node before its children.\<close>

theorem tdestroy_frees_all: "tree_at h (rd h s) t \<Longrightarrow> tdestroy h (rd h s) = Some (postorder t)"
  using tdestroy_run [of h "rd h s" t] by (cases "rd h s = NULL") (auto simp: tdestroy_def tree_at_NULL)

subsection \<open>Deletion\<close>

text \<open>The subtrees of a tree with their slots.\<close>

inductive sub_at :: "slot \<Rightarrow> u32 tree \<Rightarrow> slot \<Rightarrow> u32 tree \<Rightarrow> bool" where
  sub_here: "sub_at s t s t"
| sub_left: "sub_at (Left_slot a) l s' u \<Longrightarrow> sub_at s (Node l a r) s' u"
| sub_right: "sub_at (Right_slot a) r s' u \<Longrightarrow> sub_at s (Node l a r) s' u"

lemma sub_at_owner: "sub_at s t s' u \<Longrightarrow> s' = s \<and> u = t \<or> owner s' \<noteq> {} \<and> owner s' \<subseteq> set_tree t"
  by (induction rule: sub_at.induct) auto

lemma sub_at_nodes: "sub_at s t s' u \<Longrightarrow> set_tree u \<subseteq> set_tree t"
  by (induction rule: sub_at.induct) auto

text \<open>A heap that differs from another only in one slot and in the slots of some nodes.\<close>

definition only_slot :: "tstate \<Rightarrow> tstate \<Rightarrow> slot \<Rightarrow> u32 set \<Rightarrow> bool" where
  "only_slot h h' s N \<longleftrightarrow> (\<forall>s'. s' \<noteq> s \<longrightarrow> owner s' \<inter> N = {} \<longrightarrow> rd h' s' = rd h s')"

lemma only_slot_trans: "only_slot h h1 s N \<Longrightarrow> only_slot h1 h2 s N \<Longrightarrow> only_slot h h2 s N"
  by (simp add: only_slot_def)

lemma rd_upd [simp]: "p \<notin> owner s \<Longrightarrow> rd (upd_node p f h) s = rd h s"
  by (rule rd_cong) (auto simp: upd_node_def)

lemma only_slot_upd: "p \<in> N \<Longrightarrow> only_slot h (upd_node p f h) s N"
  unfolding only_slot_def
proof (intro allI impI)
  fix s' assume "p \<in> N" "owner s' \<inter> N = {}"
  then show "rd (upd_node p f h) s' = rd h s'" by (intro rd_cong) (auto simp: upd_node_def)
qed

lemma only_slot_wr: "only_slot h (wr s v h) s N"
  unfolding only_slot_def by (auto simp: rd_def wr_def upd_node_def split: slot.splits)

lemma tree_at_frame:
  assumes "only_slot h h' s N" "set_tree t \<inter> N = {}" "owner s \<inter> set_tree t = {}"
  shows "tree_at h' p t = tree_at h p t"
proof (rule tree_at_cong)
  fix a assume a: "a \<in> set_tree t"
  have "rd h' (Left_slot a) = rd h (Left_slot a)" "rd h' (Right_slot a) = rd h (Right_slot a)"
    using assms a unfolding only_slot_def by (metis (no_types, lifting) Int_iff disjoint_iff empty_iff insertE owner.simps(2,3) insertI1)+
  then show "t_left (t_node h' a) = t_left (t_node h a) \<and> t_right (t_node h' a) = t_right (t_node h a)" by (simp add: rd_def)
qed

text \<open>Putting another tree in the place of a subtree.\<close>

lemma sub_replace:
  assumes "sub_at s t s' u" "tree_at h (rd h s) t" "distinct (inorder t)" "owner s \<inter> set_tree t = {}"
    "only_slot h h' s' (set_tree u)" "tree_at h' (rd h' s') u'"
  shows "\<exists>t' xs ys. tree_at h' (rd h' s) t' \<and> inorder t = xs @ inorder u @ ys \<and> inorder t' = xs @ inorder u' @ ys"
  using assms
proof (induction rule: sub_at.induct)
  case (sub_here s t)
  then show ?case by (intro exI [of _ u'] exI [of _ "[]"]) simp
next
  case (sub_left a l s' u s r)
  have t: "rd h s = a" "a \<noteq> NULL" "tree_at h (rd h (Left_slot a)) l" "tree_at h (rd h (Right_slot a)) r"
    "distinct (inorder l)" "a \<notin> set_tree l" "a \<notin> set_tree r" "set_tree l \<inter> set_tree r = {}"
    using sub_left.prems(1,2) by (auto simp: rd_def)
  have s': "s' = Left_slot a \<or> owner s' \<subseteq> set_tree l" "owner s' \<noteq> {}" using sub_at_owner [OF sub_left.hyps] by auto
  have u: "set_tree u \<subseteq> set_tree l" by (rule sub_at_nodes [OF sub_left.hyps])
  from sub_left.IH [OF t(3,5) _ sub_left.prems(4,5)] t(6) obtain l' xs ys where
    l': "tree_at h' (rd h' (Left_slot a)) l'" "inorder l = xs @ inorder u @ ys" "inorder l' = xs @ inorder u' @ ys" by auto
  have "s \<noteq> s'" "Right_slot a \<noteq> s'" using s' sub_left.prems(3) t(6) by auto
  then have "rd h' s = a" "rd h' (Right_slot a) = rd h (Right_slot a)"
    using sub_left.prems(3,4) t(1,6) u unfolding only_slot_def by fastforce+
  moreover have "tree_at h' p r = tree_at h p r" for p
    by (rule tree_at_frame [OF sub_left.prems(4)]) (use s' u t(7,8) in auto)
  ultimately have "tree_at h' (rd h' s) (Node l' a r)" using l'(1) t(2,4) by (simp add: rd_def)
  then show ?case using l'(2,3) by (intro exI [of _ "Node l' a r"] exI [of _ xs] exI [of _ "ys @ a # inorder r"]) simp
next
  case (sub_right a r s' u s l)
  have t: "rd h s = a" "a \<noteq> NULL" "tree_at h (rd h (Left_slot a)) l" "tree_at h (rd h (Right_slot a)) r"
    "distinct (inorder r)" "a \<notin> set_tree l" "a \<notin> set_tree r" "set_tree l \<inter> set_tree r = {}"
    using sub_right.prems(1,2) by (auto simp: rd_def)
  have s': "s' = Right_slot a \<or> owner s' \<subseteq> set_tree r" "owner s' \<noteq> {}" using sub_at_owner [OF sub_right.hyps] by auto
  have u: "set_tree u \<subseteq> set_tree r" by (rule sub_at_nodes [OF sub_right.hyps])
  from sub_right.IH [OF t(4,5) _ sub_right.prems(4,5)] t(7) obtain r' xs ys where
    r': "tree_at h' (rd h' (Right_slot a)) r'" "inorder r = xs @ inorder u @ ys" "inorder r' = xs @ inorder u' @ ys" by auto
  have "s \<noteq> s'" "Left_slot a \<noteq> s'" using s' sub_right.prems(3) t(7) by auto
  then have "rd h' s = a" "rd h' (Left_slot a) = rd h (Left_slot a)"
    using sub_right.prems(3,4) t(1,7) u unfolding only_slot_def by fastforce+
  moreover have "tree_at h' p l = tree_at h p l" for p
    by (rule tree_at_frame [OF sub_right.prems(4)]) (use s' u t(6,8) in auto)
  ultimately have "tree_at h' (rd h' s) (Node l a r')" using r'(1) t(2,3) by (simp add: rd_def)
  then show ?case using r'(2,3) by (intro exI [of _ "Node l a r'"] exI [of _ "inorder l @ a # xs"] exI [of _ ys]) simp
qed

lemma leftmost_run:
  "tree_at h q u \<Longrightarrow> q \<noteq> NULL \<Longrightarrow> \<exists>r' q' v ys. leftmost h r q = Some (r', q') \<and> sub_at (Left_slot r) u (Left_slot r') (Node Leaf q' v)
     \<and> inorder u = q' # ys"
proof (induction u arbitrary: q r)
  case (Node l c v)
  show ?case
  proof (cases l)
    case Leaf
    with Node.prems show ?thesis by (subst leftmost.simps) (auto intro: sub_here)
  next
    case (Node l1 d l2)
    with Node.prems have "tree_at h (t_left (t_node h c)) l" "t_left (t_node h c) \<noteq> NULL" "q = c" by auto
    with Node.IH(1) [OF this(1,2), of c] obtain r' q' w ys where "leftmost h r q = Some (r', q')"
      "sub_at (Left_slot c) l (Left_slot r') (Node Leaf q' w)" "inorder l = q' # ys" by (auto simp: leftmost.simps [of h r])
    then show ?thesis using sub_left by fastforce
  qed
qed simp

text \<open>Taking a node out of its slot: by its only child, by the right child that has no left child, or by the leftmost node of the right
  subtree.\<close>

definition free_node :: "slot \<Rightarrow> u32 \<Rightarrow> tstate \<Rightarrow> tstate" where
  "free_node s q h = wr s q (h\<lparr>t_freed := rd h s # t_freed h\<rparr>)"

lemma free_node_simps [simp]:
  "rd (free_node s q h) s = q" "t_freed (free_node s q h) = rd h s # t_freed h" "t_key (t_node (free_node s q h) b) = t_key (t_node h b)"
  by (simp_all add: free_node_def)

lemma only_slot_free: "only_slot h (free_node s q h) s N"
proof -
  have "rd (h\<lparr>t_freed := x\<rparr>) s' = rd h s'" for x s' by (cases s') (simp_all add: rd_def)
  with only_slot_wr [of "h\<lparr>t_freed := rd h s # t_freed h\<rparr>" s q N] show ?thesis by (simp add: only_slot_def free_node_def)
qed

lemma free_node_tree:
  assumes "only_slot h h1 s N" "rd h1 s = a" "t_freed h1 = t_freed h" "\<And>b. t_key (t_node h1 b) = t_key (t_node h b)"
    "tree_at h1 q u" "owner s \<inter> set_tree u = {}"
  shows "tree_at (free_node s q h1) (rd (free_node s q h1) s) u" "t_freed (free_node s q h1) = a # t_freed h"
    "t_key (t_node (free_node s q h1) b) = t_key (t_node h b)" "only_slot h (free_node s q h1) s N"
proof -
  show "tree_at (free_node s q h1) (rd (free_node s q h1) s) u"
    using tree_at_frame [OF only_slot_free [of h1 s q "{}"]] assms(5,6) by simp
  show "only_slot h (free_node s q h1) s N" by (rule only_slot_trans [OF assms(1) only_slot_free])
qed (use assms(2-4) in simp_all)

lemma sub_at_tree:
  assumes "sub_at s t s' u" "tree_at h (rd h s) t" "distinct (inorder t)" "owner s \<inter> set_tree t = {}"
  shows "tree_at h (rd h s') u \<and> distinct (inorder u) \<and> owner s' \<inter> set_tree u = {}"
  using assms by (induction rule: sub_at.induct) (auto simp: rd_def)

lemma inorder_front: "xs @ q # zs = q # ys \<Longrightarrow> distinct (q # ys) \<Longrightarrow> xs = []"
  by (cases xs) auto

text \<open>The last case: the leftmost node is taken out of the right subtree.\<close>

lemma take_leftmost:
  assumes "tree_at h (rd h (Left_slot b)) t" "t \<noteq> Leaf" "distinct (inorder t)" "b \<notin> set_tree t"
  shows "\<exists>r q t'. leftmost h b (rd h (Left_slot b)) = Some (r, q) \<and> r \<in> insert b (set_tree t) \<and> q \<noteq> NULL \<and> r \<noteq> q
    \<and> inorder t = q # inorder t'
    \<and> tree_at (upd_node r (\<lambda>x. x\<lparr>t_left := t_right (t_node h q)\<rparr>) h) (rd (upd_node r (\<lambda>x. x\<lparr>t_left := t_right (t_node h q)\<rparr>) h) (Left_slot b)) t'"
proof -
  have "rd h (Left_slot b) \<noteq> NULL" using assms(1,2) by (cases t) auto
  from leftmost_run [OF assms(1) this, of b] obtain r q w ys where
    lm: "leftmost h b (rd h (Left_slot b)) = Some (r, q)" and sub: "sub_at (Left_slot b) t (Left_slot r) (Node Leaf q w)" and ys: "inorder t = q # ys"
    by blast
  let ?h = "upd_node r (\<lambda>x. x\<lparr>t_left := t_right (t_node h q)\<rparr>) h"
  have wr: "?h = wr (Left_slot r) (t_right (t_node h q)) h" by (simp add: wr_def)
  have u: "tree_at h (rd h (Left_slot r)) (Node Leaf q w)" "r \<noteq> q" "r \<notin> set_tree w" using sub_at_tree [OF sub assms(1,3)] assms(4) by auto
  have "tree_at ?h (rd ?h (Left_slot r)) w"
    using tree_at_frame [OF only_slot_wr [of h "Left_slot r" "t_right (t_node h q)" "{}"]] u(1,3) unfolding wr by simp
  from sub_replace [OF sub assms(1,3) _ _ this] assms(4) only_slot_wr obtain t' xs zs where
    t': "tree_at ?h (rd ?h (Left_slot b)) t'" "inorder t = xs @ q # inorder w @ zs" "inorder t' = xs @ inorder w @ zs" unfolding wr by fastforce
  then have "xs = []" using ys assms(3) inorder_front [of xs q "inorder w @ zs" ys] by simp
  moreover have "r \<in> insert b (set_tree t)" using sub_at_owner [OF sub] by auto
  ultimately show ?thesis using lm u(1,2) t' by (intro exI [of _ r] exI [of _ q] exI [of _ t']) simp
qed

definition unlinks :: "tstate \<Rightarrow> slot \<Rightarrow> u32 tree \<Rightarrow> u32 \<Rightarrow> u32 tree \<Rightarrow> bool" where
  "unlinks h s l a r \<longleftrightarrow> (\<exists>h1 q u. tdelete_node s h = Some (free_node s q h1) \<and> only_slot h h1 s (set_tree (Node l a r)) \<and> rd h1 s = a
     \<and> t_freed h1 = t_freed h \<and> (\<forall>b. t_key (t_node h1 b) = t_key (t_node h b)) \<and> tree_at h1 q u \<and> inorder u = inorder l @ inorder r)"

lemma unlinks_one_child:
  assumes "tree_at h (rd h s) (Node l a r)" "l = Leaf \<or> r = Leaf"
  shows "unlinks h s l a r"
proof (cases "l = Leaf")
  case True
  then show ?thesis unfolding unlinks_def using assms(1) by (intro exI [of _ h] exI [of _ "t_right (t_node h a)"] exI [of _ r])
      (simp add: tdelete_node_def free_node_def only_slot_def)
next
  case False
  then have "t_left (t_node h a) \<noteq> NULL" using assms(1) by (auto simp: tree_at_NULL)
  with False assms show ?thesis unfolding unlinks_def by (intro exI [of _ h] exI [of _ "t_left (t_node h a)"] exI [of _ l])
      (simp add: tdelete_node_def free_node_def only_slot_def)
qed

lemma unlinks_right_child:
  assumes "tree_at h (rd h s) (Node l a (Node Leaf b v))" "l \<noteq> Leaf" "distinct (inorder (Node l a (Node Leaf b v)))"
    "owner s \<inter> set_tree (Node l a (Node Leaf b v)) = {}"
  shows "unlinks h s l a (Node Leaf b v)"
proof -
  let ?h = "upd_node b (\<lambda>x. x\<lparr>t_left := t_left (t_node h a)\<rparr>) h"
  have n: "rd h s = a" "tree_at h (t_left (t_node h a)) l" "t_right (t_node h a) = b" "b \<noteq> NULL" "t_left (t_node h b) = NULL"
    "tree_at h (t_right (t_node h b)) v" "t_left (t_node h a) \<noteq> NULL" using assms(1,2) by (auto simp: tree_at_NULL)
  have "tree_at ?h p l = tree_at h p l" "tree_at ?h p v = tree_at h p v" for p
    using assms(3) by (auto intro!: tree_at_cong simp: upd_node_def)
  then have "tree_at ?h b (Node l b v)" using n by simp
  moreover have "rd ?h s = a" using n(1) assms(4) by simp
  moreover have "t_key (t_node ?h c) = t_key (t_node h c)" for c by (simp add: upd_node_def)
  moreover have "tdelete_node s h = Some (free_node s b ?h)" using n by (simp add: tdelete_node_def free_node_def Let_def)
  ultimately show ?thesis unfolding unlinks_def by (intro exI [of _ ?h] exI [of _ b] exI [of _ "Node l b v"]) (simp add: only_slot_upd)
qed

lemma unlinks_leftmost:
  assumes "tree_at h (rd h s) (Node l a (Node rl b v))" "l \<noteq> Leaf" "rl \<noteq> Leaf" "distinct (inorder (Node l a (Node rl b v)))"
    "owner s \<inter> set_tree (Node l a (Node rl b v)) = {}"
  shows "unlinks h s l a (Node rl b v)"
proof -
  have n: "rd h s = a" "tree_at h (t_left (t_node h a)) l" "t_right (t_node h a) = b" "b \<noteq> NULL" "tree_at h (rd h (Left_slot b)) rl"
    "tree_at h (t_right (t_node h b)) v" "t_left (t_node h a) \<noteq> NULL" "t_left (t_node h b) \<noteq> NULL" "rd h (Left_slot b) = t_left (t_node h b)"
    using assms(1-3) by (auto simp: tree_at_NULL rd_def)
  from take_leftmost [OF n(5) assms(3)] assms(4) obtain r q t' where
    lm: "leftmost h b (rd h (Left_slot b)) = Some (r, q)" "r \<in> insert b (set_tree rl)" "q \<noteq> NULL" "r \<noteq> q" "inorder rl = q # inorder t'"
    and t': "tree_at (upd_node r (\<lambda>x. x\<lparr>t_left := t_right (t_node h q)\<rparr>) h)
      (rd (upd_node r (\<lambda>x. x\<lparr>t_left := t_right (t_node h q)\<rparr>) h) (Left_slot b)) t'" by auto
  define h1 where "h1 = upd_node r (\<lambda>x. x\<lparr>t_left := t_right (t_node h q)\<rparr>) h"
  define h3 where "h3 = upd_node q (\<lambda>x. x\<lparr>t_left := t_left (t_node h a), t_right := b\<rparr>) h1"
  have "set_tree rl = insert q (set_tree t')" using arg_cong [OF lm(5), of set] by simp
  then have q: "q \<in> set_tree rl" "q \<notin> set_tree t'" using lm(5) assms(4) by auto
  have apart: "q \<notin> owner s" "r \<notin> owner s" "q \<notin> set_tree l" "r \<notin> set_tree l" "q \<notin> set_tree v" "r \<notin> set_tree v" "q \<noteq> a" "r \<noteq> a" "q \<noteq> b"
    using q(1) lm(2) assms(4,5) by auto
  have "tree_at h3 p l = tree_at h p l" "tree_at h3 p v = tree_at h p v" "tree_at h3 p t' = tree_at h1 p t'" for p
    using apart q(2) by (auto intro!: tree_at_cong simp: h3_def h1_def upd_node_def)
  moreover have "t_right (t_node h3 b) = t_right (t_node h b)" "t_left (t_node h3 b) = rd h1 (Left_slot b)"
    using apart(9) by (auto simp: h3_def h1_def upd_node_def rd_def)
  moreover have "t_left (t_node h3 q) = t_left (t_node h a)" "t_right (t_node h3 q) = b" by (simp_all add: h3_def)
  ultimately have tree: "tree_at h3 q (Node l q (Node t' b v))" using n lm(3) t' by (simp add: h1_def)
  have root: "rd h1 s = a" "rd h3 s = a" using n(1) apart(1,2) by (simp_all add: h1_def h3_def)
  define h2 where "h2 = upd_node q (\<lambda>x. x\<lparr>t_left := t_left (t_node h a)\<rparr>) h1"
  have h2: "rd h2 s = a" using n(1) apart(1,2) by (simp add: h1_def h2_def)
  have a: "t_node h1 a = t_node h a" "t_node h2 a = t_node h a" using apart(7,8) by (simp_all add: h1_def h2_def)
  have "upd_node q (\<lambda>x. x\<lparr>t_right := b\<rparr>) h2 = h3" by (simp add: h2_def h3_def upd_node_def)
  then have del: "tdelete_node s h = Some (free_node s q h3)"
    using lm(1) n root h2 a by (simp add: tdelete_node_def free_node_def Let_def h1_def [symmetric] h2_def [symmetric])
  have "only_slot h h3 s (set_tree (Node l a (Node rl b v)))" unfolding h3_def h1_def
    by (rule only_slot_trans [OF only_slot_upd only_slot_upd]) (use lm(2) q(1) in auto)
  moreover have "t_freed h3 = t_freed h" "t_key (t_node h3 c) = t_key (t_node h c)" for c by (simp_all add: h3_def h1_def upd_node_def)
  ultimately show ?thesis unfolding unlinks_def using del tree root(2) lm(5)
    by (intro exI [of _ h3] exI [of _ q] exI [of _ "Node l q (Node t' b v)"]) simp
qed

lemma tdelete_node_run:
  assumes "tree_at h (rd h s) (Node l a r)" "distinct (inorder (Node l a r))" "owner s \<inter> set_tree (Node l a r) = {}"
  shows "\<exists>h' t'. tdelete_node s h = Some h' \<and> tree_at h' (rd h' s) t' \<and> inorder t' = inorder l @ inorder r
    \<and> t_freed h' = a # t_freed h \<and> (\<forall>b. t_key (t_node h' b) = t_key (t_node h b)) \<and> only_slot h h' s (set_tree (Node l a r))"
proof -
  consider "l = Leaf \<or> r = Leaf" | b v where "l \<noteq> Leaf" "r = Node Leaf b v" | b v rl where "l \<noteq> Leaf" "r = Node rl b v" "rl \<noteq> Leaf"
    by (metis tree.exhaust)
  then have "unlinks h s l a r" using assms unlinks_one_child unlinks_right_child unlinks_leftmost by cases blast+
  then obtain h1 q u where h1: "tdelete_node s h = Some (free_node s q h1)" "only_slot h h1 s (set_tree (Node l a r))" "rd h1 s = a" "t_freed h1 = t_freed h"
    "\<And>b. t_key (t_node h1 b) = t_key (t_node h b)" "tree_at h1 q u" "inorder u = inorder l @ inorder r" unfolding unlinks_def by blast
  have "owner s \<inter> set_tree u = {}" using assms(3) arg_cong [OF h1(7), of set] by auto
  from free_node_tree [OF h1(2-6) this] h1(1,7) show ?thesis by blast
qed

context key_order
begin

lemma tdelete_walk_step:
  assumes "search_tree K rank h s (Node l b r)" "key \<in> K"
  shows "tdelete_walk compar key h p0 s = (if rank key = rank (t_key (t_node h b)) then Some (Some (p0, s))
    else if rank key < rank (t_key (t_node h b)) then if l = Leaf then Some None else tdelete_walk compar key h b (Left_slot b)
    else if r = Leaf then Some None else tdelete_walk compar key h b (Right_slot b))"
proof -
  note sub = search_tree_sub [OF assms(1)]
  have "rd h (Left_slot b) = NULL \<longleftrightarrow> l = Leaf" "rd h (Right_slot b) = NULL \<longleftrightarrow> r = Leaf"
    using sub(1,2) by (cases l; cases r; auto simp: search_tree_def)+
  then show ?thesis using sub(3-5) assms(2) by (simp add: tdelete_walk.simps [of compar key h p0 s] Let_def compar_neg compar_zero)
qed

lemma tdelete_walk_missing:
  assumes "search_tree K rank h s t" "key \<in> K" "t \<noteq> Leaf" "\<And>a. a \<in> set_tree t \<Longrightarrow> rank (t_key (t_node h a)) \<noteq> rank key"
  shows "tdelete_walk compar key h p0 s = Some None"
  using assms(1,3,4)
proof (induction t arbitrary: s p0)
  case (Node l b r)
  have "rank key \<noteq> rank (t_key (t_node h b))" using Node.prems(3) [of b] by simp
  then show ?case using tdelete_walk_step [OF Node.prems(1) assms(2), of p0] search_tree_sub(1,2) [OF Node.prems(1)] Node.IH Node.prems(3) by simp
qed simp

lemma tdelete_walk_found:
  assumes "search_tree K rank h s t" "key \<in> K" "a \<in> set_tree t" "rank (t_key (t_node h a)) = rank key"
  shows "\<exists>p s' l r. tdelete_walk compar key h p0 s = Some (Some (p, s')) \<and> sub_at s t s' (Node l a r) \<and> p \<in> insert p0 (set_tree t)"
  using assms(1,3)
proof (induction t arbitrary: s p0)
  case (Node l b r)
  note sub = search_tree_sub [OF Node.prems(1)] and step = tdelete_walk_step [OF Node.prems(1) assms(2), of p0]
  from Node.prems(2) consider "a = b" | "a \<in> set_tree l" | "a \<in> set_tree r" by auto
  then show ?case
  proof cases
    case 1
    then show ?thesis using step assms(4) sub_here by fastforce
  next
    case 2
    then have "tdelete_walk compar key h p0 s = tdelete_walk compar key h b (Left_slot b)" using step assms(4) sub(6) [OF 2] by auto
    moreover from Node.IH(1) [OF sub(1) 2, of b] obtain p s' l' r' where "tdelete_walk compar key h b (Left_slot b) = Some (Some (p, s'))"
      "sub_at (Left_slot b) l s' (Node l' a r')" "p \<in> insert b (set_tree l)" by blast
    ultimately show ?thesis using sub_left by fastforce
  next
    case 3
    then have "tdelete_walk compar key h p0 s = tdelete_walk compar key h b (Right_slot b)"
      using step assms(4) sub(7) [OF 3] by (auto dest: less_not_sym)
    moreover from Node.IH(2) [OF sub(2) 3, of b] obtain p s' l' r' where "tdelete_walk compar key h b (Right_slot b) = Some (Some (p, s'))"
      "sub_at (Right_slot b) r s' (Node l' a r')" "p \<in> insert b (set_tree r)" by blast
    ultimately show ?thesis using sub_right by fastforce
  qed
qed simp

end

lemma search_tree_shrink:
  assumes "search_tree K rank h s t" "tree_at h' (rd h' s) t'" "inorder t' = remove1 a (inorder t)"
    "tree_keys h' t' = map (\<lambda>a. t_key (t_node h a)) (inorder t')"
  shows "search_tree K rank h' s t'"
proof -
  have d: "distinct (inorder t)" using assms(1) by (simp add: search_tree_def)
  have f: "inorder t' = filter ((\<noteq>) a) (inorder t)" using d by (simp add: assms(3) distinct_remove1_removeAll removeAll_filter_not_eq)
  have "set_tree t' \<subseteq> set_tree t" using arg_cong [OF f, of set] by auto
  moreover have "sorted_wrt (\<lambda>x y. rank (t_key (t_node h x)) < rank (t_key (t_node h y))) (inorder t')"
    using assms(1) unfolding f by (simp add: search_tree_def tree_keys_def sorted_wrt_map sorted_wrt_filter)
  then have "sorted_wrt (<) (map rank (tree_keys h' t'))" by (simp add: assms(4) sorted_wrt_map)
  moreover have "(\<lambda>a. t_key (t_node h a)) ` set_tree t \<subseteq> K" using assms(1) by (simp add: search_tree_def tree_keys_def)
  then have "set (tree_keys h' t') \<subseteq> K" using \<open>set_tree t' \<subseteq> set_tree t\<close> by (auto simp: assms(4))
  ultimately show ?thesis using assms(1,2) d f by (auto simp: search_tree_def)
qed

text \<open>C32: \<^verbatim>\<open>tdelete\<close> takes out exactly one node. If a node of the tree compares equal to the key, that node is freed, the other nodes stay
  in the tree with their keys and in their order, so that it is a search tree again, and the result is a pointer into the old tree; if
  there is none, the result is NULL and nothing changes.\<close>

theorem tdelete_removes_node:
  assumes "key_order compar K rank" "search_tree K rank h s t" "key \<in> K"
  shows "if \<exists>a \<in> set_tree t. rank (t_key (t_node h a)) = rank key
    then \<exists>p h' t' a. tdelete compar key (Some s) h = Some (p, h') \<and> search_tree K rank h' s t' \<and> p \<in> set_tree t
      \<and> a \<in> set_tree t \<and> rank (t_key (t_node h a)) = rank key \<and> inorder t' = remove1 a (inorder t)
      \<and> tree_keys h' t' = map (\<lambda>a. t_key (t_node h a)) (remove1 a (inorder t))
      \<and> t_freed h' = a # t_freed h
    else tdelete compar key (Some s) h = Some (NULL, h)"
proof (cases "t = Leaf")
  case True
  then show ?thesis using assms(2) by (simp add: tdelete_def search_tree_def)
next
  case t: False
  have tree: "tree_at h (rd h s) t" "distinct (inorder t)" "owner s \<inter> set_tree t = {}" using assms(2) by (simp_all add: search_tree_def)
  have root: "rd h s \<noteq> NULL" "rd h s \<in> set_tree t" using tree(1) t by (cases t; simp)+
  show ?thesis
  proof (cases "\<exists>a \<in> set_tree t. rank (t_key (t_node h a)) = rank key")
    case False
    then show ?thesis using key_order.tdelete_walk_missing [OF assms t, of "rd h s"] root(1) by (simp add: tdelete_def)
  next
    case True
    then obtain a where a: "a \<in> set_tree t" "rank (t_key (t_node h a)) = rank key" by blast
    from key_order.tdelete_walk_found [OF assms a] root(2) obtain p s' l r where
      w: "tdelete_walk compar key h (rd h s) s = Some (Some (p, s'))" "sub_at s t s' (Node l a r)" "p \<in> set_tree t" by blast
    from sub_at_tree [OF w(2) tree] tdelete_node_run [of h s' l a r] obtain h' u where d: "tdelete_node s' h = Some h'"
      "tree_at h' (rd h' s') u" "inorder u = inorder l @ inorder r" "t_freed h' = a # t_freed h"
      "\<forall>b. t_key (t_node h' b) = t_key (t_node h b)" "only_slot h h' s' (set_tree (Node l a r))" by blast
    from sub_replace [OF w(2) tree d(6,2)] obtain t' xs ys where t': "tree_at h' (rd h' s) t'"
      "inorder t = xs @ (inorder l @ a # inorder r) @ ys" "inorder t' = xs @ (inorder l @ inorder r) @ ys" by (auto simp: d(3))
    have rm: "inorder t' = remove1 a (inorder t)" using tree(2) unfolding t'(2,3) by (simp add: remove1_append)
    have keys: "tree_keys h' t' = map (\<lambda>a. t_key (t_node h a)) (inorder t')" by (simp add: tree_keys_def d(5))
    have "tdelete compar key (Some s) h = Some (p, h')" using w(1) d(1) root(1) by (simp add: tdelete_def)
    moreover have "search_tree K rank h' s t'" by (rule search_tree_shrink [OF assms(2) t'(1) rm keys])
    ultimately show ?thesis using True w(3) a d(4) rm keys by (simp only: if_True) blast
  qed
qed

theorem tdelete_removes_node_witness:
  "\<exists>p h'. tdelete (\<lambda>a b. the (strcmp_asm demo_texts a b)) 100 (Some Root_slot) demo_tree = Some (p, h') \<and> t_freed h' = [0x1000]"
proof -
  have "100 \<in> {a. \<exists>bs. str_at demo_texts a bs}" using demo_tree_search(2) by blast
  from tdelete_removes_node [OF strcmp_keys.key_order_axioms demo_tree_search(1) this] show ?thesis
    by (auto simp: demo_tree_def)
qed

end
