(* ===== verification/Chash.thy ===== *)
theory Chash
  imports Ctree
begin

text \<open>
  The hash tables of \<^verbatim>\<open>uClibc/libc/misc/search/_hsearch_r.c\<close> and \<^verbatim>\<open>hsearch.c\<close>: double hashing with open addressing. The keys are strings in a
  memory that the routines only read; the table is a function from indices. The theorems say that a size that \<^verbatim>\<open>hcreate_r\<close> chooses is a
  prime number, that probing then reaches every entry, and that entering a key and looking it up go together: \<^verbatim>\<open>FIND\<close> returns the entry
  that \<^verbatim>\<open>ENTER\<close> returned, and the entries of all other keys stay where they are. \<open>None\<close> means that a loop does not end or that a
  division by zero traps.
\<close>

record hentry =
  h_used :: u32
  h_key :: u32
  h_data :: u32

record hsearch_data =
  h_table :: u32
  h_size :: u32
  h_filled :: u32
  h_at :: "u32 \<Rightarrow> hentry"

datatype haction = FIND | ENTER

definition EINVAL :: u32 where "EINVAL = 22"
definition ENOMEM :: u32 where "ENOMEM = 12"
definition ESRCH :: u32 where "ESRCH = 3"

partial_function (option) isprime_loop :: "u32 \<Rightarrow> u32 \<Rightarrow> bool option" where
  "isprime_loop number divisor =
     (if divisor * divisor < number \<and> number mod divisor \<noteq> 0 then isprime_loop number (divisor + 2)
      else Some (number mod divisor \<noteq> 0))"

definition isprime :: "u32 \<Rightarrow> bool option" where
  "isprime number = isprime_loop number 3"

partial_function (option) next_prime :: "u32 \<Rightarrow> u32 option" where
  "next_prime nel = Option.bind (isprime nel) (\<lambda>p. if p then Some nel else next_prime (nel + 2))"

text \<open>\<^verbatim>\<open>calloc\<close> returns an address; the entries it returns are zero. The result: the status, the error number if one is set, the table.\<close>

definition hcreate_r :: "(u32 \<Rightarrow> u32 \<Rightarrow> u32) \<Rightarrow> u32 \<Rightarrow> hsearch_data option \<Rightarrow> (bool \<times> u32 option \<times> hsearch_data option) option" where
  "hcreate_r calloc nel htab =
     (case htab of None \<Rightarrow> Some (False, Some EINVAL, None)
      | Some h \<Rightarrow>
          if h_table h \<noteq> NULL then Some (False, None, Some h)
          else Option.bind (next_prime (nel OR 1)) (\<lambda>nel.
            let t = calloc (nel + 1) 12;
                h = h\<lparr>h_size := nel, h_filled := 0, h_table := t\<rparr> in
            if t = NULL then Some (False, None, Some h)
            else Some (True, None, Some (h\<lparr>h_at := \<lambda>_. \<lparr>h_used = 0, h_key = 0, h_data = 0\<rparr>\<rparr>))))"

text \<open>The error number if one is set, the blocks that are freed, the table.\<close>

definition hdestroy_r :: "hsearch_data option \<Rightarrow> u32 option \<times> u32 list \<times> hsearch_data option" where
  "hdestroy_r htab = (case htab of None \<Rightarrow> (Some EINVAL, [], None) | Some h \<Rightarrow> (None, [h_table h], Some (h\<lparr>h_table := NULL\<rparr>)))"

text \<open>The value of the key: a character is signed.\<close>

function hash_loop :: "bytes \<Rightarrow> u32 \<Rightarrow> u32 \<Rightarrow> u32 \<Rightarrow> u32" where
  "hash_loop m key cnt hval =
     (if cnt > 0 then hash_loop m key (cnt - 1) (push_bit 4 hval + scast (m (key + (cnt - 1)))) else hval)"
  by pat_completeness auto
termination by (relation "measure (\<lambda>(_, _, cnt, _). unat cnt)") (auto simp: unat_minus_one unat_gt_0)

declare hash_loop.simps [simp del]

definition first_index :: "bytes \<Rightarrow> hsearch_data \<Rightarrow> u32 \<Rightarrow> u32" where
  "first_index m h key =
     (let len = strlen m key; hval = hash_loop m key len len mod h_size h in if hval = 0 then hval + 1 else hval)"

definition entry_matches :: "bytes \<Rightarrow> hsearch_data \<Rightarrow> u32 \<Rightarrow> u32 \<Rightarrow> u32 \<Rightarrow> bool option" where
  "entry_matches m h key hval idx =
     (if h_used (h_at h idx) = hval then map_option (\<lambda>r. r = 0) (strcmp_asm m key (h_key (h_at h idx))) else Some False)"

definition probe_step :: "u32 \<Rightarrow> u32 \<Rightarrow> u32 \<Rightarrow> u32" where
  "probe_step sz hval2 idx = (if idx \<le> hval2 then sz + idx - hval2 else idx - hval2)"

text \<open>The loop: the entry that was found, or where it stopped.\<close>

partial_function (option) probe_loop :: "bytes \<Rightarrow> hsearch_data \<Rightarrow> u32 \<Rightarrow> u32 \<Rightarrow> u32 \<Rightarrow> u32 \<Rightarrow> (u32 + u32) option" where
  "probe_loop m h key hval hval2 idx =
     (let idx = probe_step (h_size h) hval2 idx in
      if idx = hval then Some (Inr idx)
      else Option.bind (entry_matches m h key hval idx) (\<lambda>found.
        if found then Some (Inl idx)
        else if h_used (h_at h idx) \<noteq> 0 then probe_loop m h key hval hval2 idx else Some (Inr idx)))"

definition hsearch_find :: "bytes \<Rightarrow> hsearch_data \<Rightarrow> u32 \<Rightarrow> (u32 + u32) option" where
  "hsearch_find m h key =
     (if h_size h = 0 then None
      else let hval = first_index m h key in
        if h_used (h_at h hval) \<noteq> 0 then
          Option.bind (entry_matches m h key hval hval) (\<lambda>found.
          if found then Some (Inl hval)
          else if h_size h = 2 then None
          else probe_loop m h key hval (1 + hval mod (h_size h - 2)) hval)
        else Some (Inr hval))"

text \<open>The result: the status, the index of the entry or \<open>None\<close> for NULL, the error number if one is set, the table.\<close>

definition hsearch_r :: "bytes \<Rightarrow> u32 \<Rightarrow> u32 \<Rightarrow> haction \<Rightarrow> hsearch_data \<Rightarrow> (bool \<times> u32 option \<times> u32 option \<times> hsearch_data) option" where
  "hsearch_r m key data action h =
     Option.bind (hsearch_find m h key) (\<lambda>r. case r of
       Inl idx \<Rightarrow> Some (True, Some idx, None, h)
     | Inr idx \<Rightarrow>
         if action = ENTER then
           if h_filled h = h_size h then Some (False, None, Some ENOMEM, h)
           else Some (True, Some idx, None,
             h\<lparr>h_at := (h_at h)(idx := \<lparr>h_used = first_index m h key, h_key = key, h_data = data\<rparr>), h_filled := h_filled h + 1\<rparr>)
         else Some (False, None, Some ESRCH, h))"

text \<open>The versions with the one static table.\<close>

definition hsearch :: "bytes \<Rightarrow> u32 \<Rightarrow> u32 \<Rightarrow> haction \<Rightarrow> hsearch_data \<Rightarrow> (u32 option \<times> hsearch_data) option" where
  "hsearch m key data action htab = map_option (\<lambda>(_, result, _, htab). (result, htab)) (hsearch_r m key data action htab)"

definition hcreate :: "(u32 \<Rightarrow> u32 \<Rightarrow> u32) \<Rightarrow> u32 \<Rightarrow> hsearch_data \<Rightarrow> (bool \<times> hsearch_data) option" where
  "hcreate calloc nel htab = map_option (\<lambda>(ok, _, h). (ok, the h)) (hcreate_r calloc nel (Some htab))"

definition hdestroy :: "hsearch_data \<Rightarrow> u32 list \<times> hsearch_data" where
  "hdestroy htab = (case hdestroy_r (Some htab) of (_, bs, h) \<Rightarrow> (bs, the h))"

subsection \<open>Probing\<close>

text \<open>The index after \<open>j\<close> steps, as a number from 1 to the size \<open>p\<close>.\<close>

primrec probe :: "nat \<Rightarrow> nat \<Rightarrow> nat \<Rightarrow> nat \<Rightarrow> nat" where
  "probe p d i 0 = i"
| "probe p d i (Suc j) = (if probe p d i j \<le> d then p + probe p d i j - d else probe p d i j - d)"

lemma probe_range: "1 \<le> i \<Longrightarrow> i \<le> p \<Longrightarrow> d < p \<Longrightarrow> 1 \<le> probe p d i j \<and> probe p d i j \<le> p"
  by (induction j) auto

lemma probe_mod: "1 \<le> i \<Longrightarrow> i \<le> p \<Longrightarrow> d < p \<Longrightarrow> (probe p d i j + j * d) mod p = i mod p"
proof (induction j)
  case (Suc j)
  let ?x = "probe p d i j"
  have x: "1 \<le> ?x" "?x \<le> p" using probe_range Suc.prems by simp_all
  have "probe p d i (Suc j) + Suc j * d = (if ?x \<le> d then p + (?x + j * d) else ?x + j * d)" using Suc.prems(3) x by auto
  then show ?case using Suc by (cases "?x \<le> d") simp_all
qed simp

lemma mod_range_eq: "1 \<le> x \<Longrightarrow> x \<le> p \<Longrightarrow> 1 \<le> y \<Longrightarrow> y \<le> p \<Longrightarrow> x mod p = y mod p \<Longrightarrow> x = (y :: nat)"
  by (metis le_neq_implies_less less_numeral_extra(1) mod_less mod_self not_less order.strict_trans2)

lemma probe_inj:
  assumes "1 \<le> i" "i \<le> p" "d < p" "coprime d p" "j < k" "k < j + p"
  shows "probe p d i j \<noteq> probe p d i k"
proof
  let ?x = "probe p d i j"
  assume eq: "probe p d i j = probe p d i k"
  have "(?x + k * d) mod p = (?x + j * d) mod p" using probe_mod [OF assms(1-3), of j] probe_mod [OF assms(1-3), of k] eq by simp
  moreover have "?x + j * d \<le> ?x + k * d" using assms(5) by simp
  ultimately have "p dvd (?x + k * d) - (?x + j * d)" by (simp only: mod_eq_dvd_iff_nat)
  then have "p dvd (k - j) * d" by (simp add: diff_mult_distrib)
  then have "p dvd k - j" using assms(4) by (simp add: coprime_commute coprime_dvd_mult_left_iff)
  then show False using assms(5,6) by (auto dest: dvd_imp_le)
qed

lemma probe_back:
  assumes "1 \<le> i" "i \<le> p" "d < p"
  shows "probe p d i p = i"
proof (rule mod_range_eq)
  show "probe p d i p mod p = i mod p" using probe_mod [OF assms, of p] by simp
qed (use probe_range [OF assms] assms in auto)

lemma probe_all:
  assumes "1 \<le> i" "i \<le> p" "d < p" "coprime d p" "1 \<le> x" "x \<le> p"
  shows "\<exists>j < p. x = probe p d i j"
proof -
  have "inj_on (probe p d i) {..<p}"
    using probe_inj [OF assms(1-4)] by (intro inj_onI) (metis lessThan_iff linorder_neqE_nat trans_less_add2)
  then have "card (probe p d i ` {..<p}) = card {1..p}" by (simp add: card_image)
  moreover have "probe p d i ` {..<p} \<subseteq> {1..p}" using probe_range [OF assms(1-3)] by auto
  ultimately have "probe p d i ` {..<p} = {1..p}" by (intro card_subset_eq) simp_all
  then show ?thesis using assms(5,6) by (metis atLeastAtMost_iff imageE lessThan_iff)
qed

subsection \<open>The table\<close>

definition hused :: "hsearch_data \<Rightarrow> nat \<Rightarrow> bool" where
  "hused h i \<longleftrightarrow> h_used (h_at h (of_nat i)) \<noteq> 0"

definition htext :: "bytes \<Rightarrow> hsearch_data \<Rightarrow> nat \<Rightarrow> u8 list" where
  "htext m h i = text_at m (h_key (h_at h (of_nat i)))"

definition hstart :: "bytes \<Rightarrow> hsearch_data \<Rightarrow> u32 \<Rightarrow> nat" where
  "hstart m h key = unat (first_index m h key)"

definition hskip :: "bytes \<Rightarrow> hsearch_data \<Rightarrow> u32 \<Rightarrow> nat" where
  "hskip m h key = 1 + hstart m h key mod (unat (h_size h) - 2)"

definition hprobe :: "bytes \<Rightarrow> hsearch_data \<Rightarrow> u32 \<Rightarrow> nat \<Rightarrow> nat" where
  "hprobe m h key = probe (unat (h_size h)) (hskip m h key) (hstart m h key)"

text \<open>A key: a string that does not fill the address space.\<close>

definition key_at :: "bytes \<Rightarrow> u32 \<Rightarrow> u8 list \<Rightarrow> bool" where
  "key_at m key bs \<longleftrightarrow> str_at m key bs \<and> length bs < 2 ^ 32 - 1"

text \<open>The invariant: the size is a prime number; a used entry has a key, its index and a probe path without gaps to it; the keys differ;
  the used entries are counted.\<close>

definition hash_wf :: "bytes \<Rightarrow> hsearch_data \<Rightarrow> bool" where
  "hash_wf m h \<longleftrightarrow> 5 \<le> unat (h_size h) \<and> (\<forall>d. 1 \<le> d \<longrightarrow> d < unat (h_size h) \<longrightarrow> coprime d (unat (h_size h)))
     \<and> (\<forall>i. 1 \<le> i \<longrightarrow> i \<le> unat (h_size h) \<longrightarrow> hused h i \<longrightarrow>
          (\<exists>bs. key_at m (h_key (h_at h (of_nat i))) bs)
          \<and> h_used (h_at h (of_nat i)) = first_index m h (h_key (h_at h (of_nat i)))
          \<and> (\<exists>j < unat (h_size h). i = hprobe m h (h_key (h_at h (of_nat i))) j
               \<and> (\<forall>j' < j. hused h (hprobe m h (h_key (h_at h (of_nat i))) j'))))
     \<and> (\<forall>i k. 1 \<le> i \<longrightarrow> i \<le> unat (h_size h) \<longrightarrow> 1 \<le> k \<longrightarrow> k \<le> unat (h_size h) \<longrightarrow> hused h i \<longrightarrow> hused h k \<longrightarrow>
          htext m h i = htext m h k \<longrightarrow> i = k)
     \<and> unat (h_filled h) = card {i. 1 \<le> i \<and> i \<le> unat (h_size h) \<and> hused h i}"

lemma hash_loop_cong: "(\<And>i. i < unat n \<Longrightarrow> m (a + of_nat i) = m (b + of_nat i)) \<Longrightarrow> hash_loop m a n v = hash_loop m b n v"
proof (induction "unat n" arbitrary: n v)
  case 0
  then show ?case by (simp add: hash_loop.simps [of m _ 0] unat_eq_zero)
next
  case (Suc k)
  then have n: "n \<noteq> 0" by auto
  then have k: "unat (n - 1) = k" using Suc.hyps(2) by (simp add: unat_minus_one)
  then have "n - 1 = of_nat k" by auto
  moreover have "hash_loop m a (n - 1) w = hash_loop m b (n - 1) w" for w by (rule Suc.hyps(1)) (use k Suc.prems Suc.hyps(2) in auto)
  ultimately show ?case using Suc.prems [of k] Suc.hyps(2) n by (simp add: hash_loop.simps [of m _ n] word_gt_0)
qed

lemma buf_bytes_nth: "i < n \<Longrightarrow> buf_bytes m a n ! i = m (a + of_nat i)"
  by (simp add: buf_bytes_def)

lemma first_index_text: "key_at m a bs \<Longrightarrow> key_at m b bs \<Longrightarrow> first_index m h a = first_index m h b"
proof -
  assume a: "key_at m a bs" "key_at m b bs"
  then have "buf_bytes m a (length bs) = bs" "buf_bytes m b (length bs) = bs" by (simp_all add: key_at_def str_at_bytes)
  then have "m (a + of_nat i) = m (b + of_nat i)" if "i < length bs" for i using that by (metis buf_bytes_nth)
  then have "hash_loop m a (of_nat (length bs)) v = hash_loop m b (of_nat (length bs)) v" for v
    using a by (intro hash_loop_cong) (auto simp: key_at_def unat_of_nat)
  moreover have "strlen m a = of_nat (length bs)" "strlen m b = of_nat (length bs)" using a by (auto simp: key_at_def intro!: strlen_run)
  ultimately show ?thesis by (simp add: first_index_def)
qed

lemma first_index_range:
  assumes "5 \<le> unat (h_size h)"
  shows "1 \<le> hstart m h key" "hstart m h key < unat (h_size h)" "first_index m h key = of_nat (hstart m h key)" "first_index m h key \<noteq> 0"
    "1 \<le> hskip m h key" "hskip m h key < unat (h_size h)"
proof -
  let ?v = "hash_loop m key (strlen m key) (strlen m key) mod h_size h"
  have "unat ?v < unat (h_size h)" using assms by (simp add: unat_mod)
  then show r: "1 \<le> hstart m h key" "hstart m h key < unat (h_size h)" using assms
    by (auto simp: hstart_def first_index_def Let_def unat_eq_zero Suc_le_eq unat_gt_0)
  show "first_index m h key = of_nat (hstart m h key)" by (simp add: hstart_def)
  show "first_index m h key \<noteq> 0" using r(1) by (auto simp: hstart_def)
  have "hstart m h key mod (unat (h_size h) - 2) < unat (h_size h) - 2" using assms by (intro mod_less_divisor) simp
  then show "1 \<le> hskip m h key" "hskip m h key < unat (h_size h)" using assms unfolding hskip_def by linarith+
qed

lemma hprobe_facts:
  assumes "hash_wf m h"
  shows "1 \<le> hprobe m h key j" "hprobe m h key j \<le> unat (h_size h)" "hprobe m h key 0 = hstart m h key"
    "j < k \<Longrightarrow> k < j + unat (h_size h) \<Longrightarrow> hprobe m h key j \<noteq> hprobe m h key k"
    "hprobe m h key (unat (h_size h)) = hstart m h key"
    "1 \<le> x \<Longrightarrow> x \<le> unat (h_size h) \<Longrightarrow> \<exists>j < unat (h_size h). x = hprobe m h key j"
proof -
  have p: "5 \<le> unat (h_size h)" using assms by (simp add: hash_wf_def)
  note r = first_index_range [OF p, of m key]
  have c: "coprime (hskip m h key) (unat (h_size h))" using assms r(5,6) unfolding hash_wf_def by blast
  have r2: "hstart m h key \<le> unat (h_size h)" using r(2) by simp
  show "1 \<le> hprobe m h key j" "hprobe m h key j \<le> unat (h_size h)" using probe_range [OF r(1) r2 r(6), of j] by (simp_all add: hprobe_def)
  show "hprobe m h key 0 = hstart m h key" by (simp add: hprobe_def)
  show "j < k \<Longrightarrow> k < j + unat (h_size h) \<Longrightarrow> hprobe m h key j \<noteq> hprobe m h key k"
    unfolding hprobe_def by (rule probe_inj [OF r(1) r2 r(6) c])
  show "hprobe m h key (unat (h_size h)) = hstart m h key" unfolding hprobe_def by (rule probe_back [OF r(1) r2 r(6)])
  show "1 \<le> x \<Longrightarrow> x \<le> unat (h_size h) \<Longrightarrow> \<exists>j < unat (h_size h). x = hprobe m h key j"
    unfolding hprobe_def by (rule probe_all [OF r(1) r2 r(6) c])
qed

definition holds_key :: "bytes \<Rightarrow> hsearch_data \<Rightarrow> u8 list \<Rightarrow> nat \<Rightarrow> bool" where
  "holds_key m h bs i \<longleftrightarrow> hused h i \<and> htext m h i = bs"

lemma entry_matches_run:
  assumes "hash_wf m h" "key_at m key bs" "1 \<le> i" "i \<le> unat (h_size h)"
  shows "entry_matches m h key (first_index m h key) (of_nat i) = Some (holds_key m h bs i)"
proof -
  let ?e = "h_at h (of_nat i)"
  have p: "5 \<le> unat (h_size h)" using assms(1) by (simp add: hash_wf_def)
  show ?thesis
  proof (cases "hused h i")
    case False
    then show ?thesis using first_index_range(4) [OF p, of m key] by (simp add: entry_matches_def holds_key_def hused_def)
  next
    case True
    then obtain cs where e: "key_at m (h_key ?e) cs" "h_used ?e = first_index m h (h_key ?e)" using assms(1,3,4) unfolding hash_wf_def by blast
    have t: "htext m h i = cs" using e(1) by (simp add: htext_def key_at_def text_at_eq)
    show ?thesis
    proof (cases "h_used ?e = first_index m h key")
      case eq: True
      from strcmp_lex [of m key bs "h_key ?e" cs] assms(2) e(1) obtain r where "strcmp_asm m key (h_key ?e) = Some r" "r = 0 \<longleftrightarrow> bs = cs"
        by (auto simp: key_at_def)
      then show ?thesis using eq True t by (auto simp: entry_matches_def holds_key_def)
    next
      case False
      then have "bs \<noteq> cs" using first_index_text [OF assms(2), of "h_key ?e" h] e by auto
      then show ?thesis using False t by (simp add: entry_matches_def holds_key_def)
    qed
  qed
qed

lemma probe_step_word:
  assumes "d < unat sz" "i \<le> unat sz"
  shows "probe_step sz (of_nat d) (of_nat i) = of_nat (if i \<le> d then unat sz + i - d else i - d)"
proof -
  have "unat (of_nat d :: u32) = d" "unat (of_nat i :: u32) = i" using assms unat_lt32 [of sz] by (simp_all add: unat_of_nat)
  then have "(of_nat i :: u32) \<le> of_nat d \<longleftrightarrow> i \<le> d" by (simp add: word_le_nat_alt)
  moreover have "sz + of_nat i - of_nat d = of_nat (unat sz + i - d)" using assms(1) by (simp add: of_nat_diff)
  ultimately show ?thesis by (simp add: probe_step_def of_nat_diff)
qed

text \<open>One step of the loop.\<close>

lemma probe_loop_step:
  assumes "hash_wf m h" "key_at m key bs" "j < unat (h_size h)"
  shows "probe_loop m h key (first_index m h key) (of_nat (hskip m h key)) (of_nat (hprobe m h key j)) =
    (let i = hprobe m h key (Suc j) in
     if Suc j = unat (h_size h) then Some (Inr (first_index m h key))
     else if holds_key m h bs i then Some (Inl (of_nat i))
     else if hused h i then probe_loop m h key (first_index m h key) (of_nat (hskip m h key)) (of_nat i) else Some (Inr (of_nat i)))"
proof -
  let ?i = "hprobe m h key (Suc j)" and ?p = "unat (h_size h)"
  have p: "5 \<le> ?p" using assms(1) by (simp add: hash_wf_def)
  note r = first_index_range [OF p, of m key] and P = hprobe_facts [OF assms(1), where key = key]
  have step: "probe_step (h_size h) (of_nat (hskip m h key)) (of_nat (hprobe m h key j)) = of_nat ?i"
    using probe_step_word [OF r(6) P(2) [of j]] by (simp add: hprobe_def)
  have "?i = hstart m h key \<longleftrightarrow> Suc j = ?p"
    using P(3,5) P(4) [of 0 "Suc j"] assms(3) by (metis Suc_lessI add_0 zero_less_Suc)
  moreover have "?i < 2 ^ 32" "hstart m h key < 2 ^ 32" using P(2) [of "Suc j"] r(2) unat_lt32 [of "h_size h"] by linarith+
  ultimately have "(of_nat ?i :: u32) = first_index m h key \<longleftrightarrow> Suc j = ?p" unfolding r(3) by (simp only: of_nat_inj32)
  then show ?thesis unfolding probe_loop.simps [of m h key _ _ "of_nat (hprobe m h key j)"] Let_def step
    using entry_matches_run [OF assms(1,2) P(1,2) [of "Suc j"]] P(5) r(3) by (simp add: hused_def)
qed

lemma probe_loop_stop:
  assumes "hash_wf m h" "key_at m key bs" "j < k" "k < unat (h_size h)"
    "\<And>l. j < l \<Longrightarrow> l < k \<Longrightarrow> hused h (hprobe m h key l) \<and> \<not> holds_key m h bs (hprobe m h key l)"
    "holds_key m h bs (hprobe m h key k) \<or> \<not> hused h (hprobe m h key k)"
  shows "probe_loop m h key (first_index m h key) (of_nat (hskip m h key)) (of_nat (hprobe m h key j)) =
    Some (if hused h (hprobe m h key k) then Inl (of_nat (hprobe m h key k)) else Inr (of_nat (hprobe m h key k)))"
  using assms(3,5)
proof (induction "k - j" arbitrary: j)
  case (Suc n)
  have j: "j < unat (h_size h)" "Suc j \<noteq> unat (h_size h)" using Suc.prems(1) assms(4) by simp_all
  note step = probe_loop_step [OF assms(1,2) j(1)]
  show ?case
  proof (cases "Suc j = k")
    case True
    then show ?thesis using step j(2) assms(6) by (auto simp: Let_def holds_key_def)
  next
    case False
    then have "Suc j < k" using Suc.prems(1) by simp
    then have "hused h (hprobe m h key (Suc j))" "\<not> holds_key m h bs (hprobe m h key (Suc j))" using Suc.prems(2) [of "Suc j"] by simp_all
    then show ?thesis using step j(2) Suc.hyps(1) [of "Suc j"] Suc.hyps(2) Suc.prems \<open>Suc j < k\<close> by (simp add: Let_def)
  qed
qed simp

lemma probe_loop_full:
  assumes "hash_wf m h" "key_at m key bs" "j < unat (h_size h)"
    "\<And>l. j < l \<Longrightarrow> l < unat (h_size h) \<Longrightarrow> hused h (hprobe m h key l) \<and> \<not> holds_key m h bs (hprobe m h key l)"
  shows "probe_loop m h key (first_index m h key) (of_nat (hskip m h key)) (of_nat (hprobe m h key j)) = Some (Inr (first_index m h key))"
  using assms(3,4)
proof (induction "unat (h_size h) - j" arbitrary: j)
  case (Suc n)
  note step = probe_loop_step [OF assms(1,2) Suc.prems(1)]
  show ?case
  proof (cases "Suc j = unat (h_size h)")
    case True
    then show ?thesis using step by (simp add: Let_def)
  next
    case False
    then have "Suc j < unat (h_size h)" using Suc.prems(1) by simp
    then show ?thesis using step False Suc.prems(2) [of "Suc j"] Suc.hyps(1) [of "Suc j"] Suc.hyps(2) Suc.prems(2) by (simp add: Let_def)
  qed
qed simp

lemma find_start:
  assumes "hash_wf m h" "key_at m key bs"
  shows "hsearch_find m h key =
    (if hused h (hstart m h key) then if holds_key m h bs (hstart m h key) then Some (Inl (first_index m h key))
       else probe_loop m h key (first_index m h key) (of_nat (hskip m h key)) (of_nat (hprobe m h key 0))
     else Some (Inr (first_index m h key)))"
proof -
  have p: "5 \<le> unat (h_size h)" using assms(1) by (simp add: hash_wf_def)
  note r = first_index_range [OF p, of m key] and P = hprobe_facts [OF assms(1), where key = key]
  have "unat (h_size h - 2) = unat (h_size h) - 2" using p by (simp add: unat_sub word_le_nat_alt)
  then have "1 + first_index m h key mod (h_size h - 2) = of_nat (hskip m h key)" by (simp add: hskip_def hstart_def word_arith_nat_mod)
  moreover have "h_size h \<noteq> 0" "h_size h \<noteq> 2" using p by auto
  moreover have "entry_matches m h key (first_index m h key) (first_index m h key) = Some (holds_key m h bs (hstart m h key))"
    using entry_matches_run [OF assms r(1)] r(2,3) by simp
  ultimately show ?thesis using r(3) P(3) by (simp add: hsearch_find_def Let_def hused_def)
qed

lemma find_stop:
  assumes "hash_wf m h" "key_at m key bs" "k < unat (h_size h)"
    "\<And>l. l < k \<Longrightarrow> hused h (hprobe m h key l) \<and> \<not> holds_key m h bs (hprobe m h key l)"
    "holds_key m h bs (hprobe m h key k) \<or> \<not> hused h (hprobe m h key k)"
  shows "hsearch_find m h key =
    Some (if hused h (hprobe m h key k) then Inl (of_nat (hprobe m h key k)) else Inr (of_nat (hprobe m h key k)))"
proof -
  have p: "5 \<le> unat (h_size h)" using assms(1) by (simp add: hash_wf_def)
  note r = first_index_range(3) [OF p, of m key] and P = hprobe_facts(3) [OF assms(1), where key = key]
  show ?thesis
  proof (cases "k = 0")
    case True
    then show ?thesis using find_start [OF assms(1,2)] assms(5) P r by (auto simp: holds_key_def)
  next
    case False
    then have "hused h (hstart m h key)" "\<not> holds_key m h bs (hstart m h key)" using assms(4) [of 0] P by simp_all
    then show ?thesis using find_start [OF assms(1,2)] False probe_loop_stop [OF assms(1,2) _ assms(3), of 0] assms(4,5) by simp
  qed
qed

lemma find_full:
  assumes "hash_wf m h" "key_at m key bs" "\<And>l. l < unat (h_size h) \<Longrightarrow> hused h (hprobe m h key l) \<and> \<not> holds_key m h bs (hprobe m h key l)"
  shows "hsearch_find m h key = Some (Inr (first_index m h key))"
proof -
  have "0 < unat (h_size h)" using assms(1) by (simp add: hash_wf_def)
  moreover have "hprobe m h key 0 = hstart m h key" by (rule hprobe_facts(3) [OF assms(1)])
  ultimately show ?thesis
    using find_start [OF assms(1,2)] assms(3) [of 0] probe_loop_full [OF assms(1,2), of 0] assms(3) by simp
qed

text \<open>What a search finds: the entry of the key; or the first free entry on its path; or nothing, and then the table is full.\<close>

lemma find_held:
  assumes "hash_wf m h" "key_at m key bs" "1 \<le> i" "i \<le> unat (h_size h)" "holds_key m h bs i"
  shows "hsearch_find m h key = Some (Inl (of_nat i))"
proof -
  let ?k = "h_key (h_at h (of_nat i))"
  from assms(1,3-5) obtain cs j where e: "key_at m ?k cs" "j < unat (h_size h)" "i = hprobe m h ?k j" "\<forall>j' < j. hused h (hprobe m h ?k j')"
    unfolding hash_wf_def holds_key_def by blast
  have "cs = bs" using e(1) assms(5) text_at_eq [of m ?k cs] by (simp add: holds_key_def htext_def key_at_def)
  then have "first_index m h ?k = first_index m h key" using first_index_text [OF assms(2), of ?k h] e(1) by simp
  then have P: "hprobe m h ?k = hprobe m h key" by (simp add: hprobe_def hskip_def hstart_def)
  note e' = e(3,4) [unfolded P]
  have "\<not> holds_key m h bs (hprobe m h key l)" if "l < j" for l
  proof
    assume l: "holds_key m h bs (hprobe m h key l)"
    have "hprobe m h key l = i" using assms(1,3-5) l hprobe_facts(1,2) [OF assms(1)] unfolding hash_wf_def holds_key_def by metis
    then show False using hprobe_facts(4) [OF assms(1), of l j key] that e(2) e'(1) by simp
  qed
  then show ?thesis using find_stop [OF assms(1,2) e(2)] e' assms(5) by (simp add: holds_key_def)
qed

lemma find_missing:
  assumes "hash_wf m h" "key_at m key bs" "\<And>i. 1 \<le> i \<Longrightarrow> i \<le> unat (h_size h) \<Longrightarrow> \<not> holds_key m h bs i"
  shows "if \<exists>i. 1 \<le> i \<and> i \<le> unat (h_size h) \<and> \<not> hused h i
    then \<exists>k < unat (h_size h). \<not> hused h (hprobe m h key k) \<and> (\<forall>l < k. hused h (hprobe m h key l))
      \<and> hsearch_find m h key = Some (Inr (of_nat (hprobe m h key k)))
    else hsearch_find m h key = Some (Inr (first_index m h key))"
proof -
  note P = hprobe_facts [OF assms(1), where key = key]
  have none: "\<not> holds_key m h bs (hprobe m h key l)" for l using assms(3) P(1,2) by simp
  show ?thesis
  proof (cases "\<exists>i. 1 \<le> i \<and> i \<le> unat (h_size h) \<and> \<not> hused h i")
    case True
    then have "\<exists>k. k < unat (h_size h) \<and> \<not> hused h (hprobe m h key k)" using P(6) by metis
    then obtain k where k: "k < unat (h_size h)" "\<not> hused h (hprobe m h key k)" "\<forall>l < k. hused h (hprobe m h key l)"
      using exists_least_iff [of "\<lambda>k. k < unat (h_size h) \<and> \<not> hused h (hprobe m h key k)"] by (metis order.strict_trans)
    then show ?thesis using True find_stop [OF assms(1,2) k(1)] none by (simp only: if_True) fastforce
  next
    case False
    then show ?thesis using find_full [OF assms(1,2)] none P(1,2) by (simp only: if_False) blast
  qed
qed

subsection \<open>Entering\<close>

definition put_entry :: "hsearch_data \<Rightarrow> u32 \<Rightarrow> hentry \<Rightarrow> hsearch_data" where
  "put_entry h idx e = h\<lparr>h_at := (h_at h)(idx := e), h_filled := h_filled h + 1\<rparr>"

lemma put_entry_index [simp]: "h_size (put_entry h idx e) = h_size h" "first_index m (put_entry h idx e) key = first_index m h key"
  "hprobe m (put_entry h idx e) key = hprobe m h key"
  by (simp_all add: put_entry_def first_index_def hprobe_def hskip_def hstart_def)

lemma put_entry_at:
  assumes "i < 2 ^ 32" "k < 2 ^ 32"
  shows "h_at (put_entry h (of_nat k) e) (of_nat i) = (if i = k then e else h_at h (of_nat i))"
  using of_nat_inj32 [OF assms] by (simp add: put_entry_def)

lemma put_entry_used:
  assumes "i < 2 ^ 32" "k < 2 ^ 32" "h_used e \<noteq> 0"
  shows "hused (put_entry h (of_nat k) e) i \<longleftrightarrow> i = k \<or> hused h i"
  using put_entry_at [OF assms(1,2), of h e] assms(3) by (simp add: hused_def)

lemma hash_wf_enter:
  assumes "hash_wf m h" "key_at m key bs" "\<And>i. 1 \<le> i \<Longrightarrow> i \<le> unat (h_size h) \<Longrightarrow> \<not> holds_key m h bs i"
    "k < unat (h_size h)" "\<not> hused h (hprobe m h key k)" "\<forall>l < k. hused h (hprobe m h key l)"
  shows "hash_wf m (put_entry h (of_nat (hprobe m h key k)) \<lparr>h_used = first_index m h key, h_key = key, h_data = data\<rparr>)"
    (is "hash_wf m ?h")
proof -
  let ?e = "\<lparr>h_used = first_index m h key, h_key = key, h_data = data\<rparr>" and ?p = "unat (h_size h)" and ?i = "hprobe m h key k"
  have p: "5 \<le> ?p" using assms(1) by (simp add: hash_wf_def)
  note P = hprobe_facts(1,2) [OF assms(1)]
  have lt: "i < 2 ^ 32" if "i \<le> ?p" for i using that unat_lt32 [of "h_size h"] by linarith
  have e_at: "h_at ?h (of_nat i) = (if i = ?i then ?e else h_at h (of_nat i))" if "i \<le> ?p" for i using put_entry_at [OF lt lt] that P(2) by blast
  have used: "hused ?h i \<longleftrightarrow> i = ?i \<or> hused h i" if "i \<le> ?p" for i
    using put_entry_used [OF lt lt] that P(2) first_index_range(4) [OF p] by simp
  have used_probe: "hused ?h (hprobe m h x l) \<longleftrightarrow> hprobe m h x l = ?i \<or> hused h (hprobe m h x l)" for x l by (rule used [OF P(2)])
  have ktext: "htext m ?h i = (if i = ?i then bs else htext m h i)" if "i \<le> ?p" for i
    using e_at [OF that] assms(2) text_at_eq [of m key bs] by (simp add: htext_def key_at_def)
  have "{i. 1 \<le> i \<and> i \<le> ?p \<and> hused ?h i} = insert ?i {i. 1 \<le> i \<and> i \<le> ?p \<and> hused h i}" using used P by auto
  then have card: "card {i. 1 \<le> i \<and> i \<le> ?p \<and> hused ?h i} = Suc (unat (h_filled h))" using assms(1,5) by (simp add: hash_wf_def)
  have entry: "(\<exists>bs. key_at m (h_key (h_at ?h (of_nat i))) bs) \<and> h_used (h_at ?h (of_nat i)) = first_index m h (h_key (h_at ?h (of_nat i)))
    \<and> (\<exists>j < ?p. i = hprobe m h (h_key (h_at ?h (of_nat i))) j \<and> (\<forall>j' < j. hused ?h (hprobe m h (h_key (h_at ?h (of_nat i))) j')))"
    if "1 \<le> i" "i \<le> ?p" "hused ?h i" for i
  proof (cases "i = ?i")
    case True
    then show ?thesis using e_at [OF that(2)] assms(2,4,6) used_probe by auto
  next
    case False
    then have "hused h i" "h_at ?h (of_nat i) = h_at h (of_nat i)" using used [OF that(2)] that(3) e_at [OF that(2)] by simp_all
    moreover from this(1) assms(1) that(1,2) obtain cs j where "key_at m (h_key (h_at h (of_nat i))) cs"
      "h_used (h_at h (of_nat i)) = first_index m h (h_key (h_at h (of_nat i)))" "j < ?p" "i = hprobe m h (h_key (h_at h (of_nat i))) j"
      "\<forall>j' < j. hused h (hprobe m h (h_key (h_at h (of_nat i))) j')" unfolding hash_wf_def by blast
    ultimately show ?thesis unfolding used_probe by (simp only:) blast
  qed
  have inj: "i = j" if "1 \<le> i" "i \<le> ?p" "1 \<le> j" "j \<le> ?p" "hused ?h i" "hused ?h j" "htext m ?h i = htext m ?h j" for i j
  proof -
    have no: "hused h l \<Longrightarrow> htext m h l \<noteq> bs" if "1 \<le> l" "l \<le> ?p" for l using assms(3) [OF that] by (simp add: holds_key_def)
    show ?thesis
    proof (cases "i = ?i \<or> j = ?i")
      case True
      then show ?thesis using that(5-7) used [OF that(2)] used [OF that(4)] ktext [OF that(2)] ktext [OF that(4)] no [OF that(1,2)] no [OF that(3,4)]
        by (cases "i = ?i"; cases "j = ?i") auto
    next
      case False
      then have "hused h i" "hused h j" "htext m h i = htext m h j"
        using that(5-7) used [OF that(2)] used [OF that(4)] ktext [OF that(2)] ktext [OF that(4)] by simp_all
      then show ?thesis using assms(1) that(1-4) unfolding hash_wf_def by blast
    qed
  qed
  have fill: "unat (h_filled ?h) = card {i. 1 \<le> i \<and> i \<le> ?p \<and> hused ?h i}"
  proof -
    have "{i. 1 \<le> i \<and> i \<le> ?p \<and> hused ?h i} \<subseteq> {1..?p}" by auto
    from card_mono [OF finite_atLeastAtMost this] have "Suc (unat (h_filled h)) \<le> ?p" unfolding card by simp
    then have "Suc (unat (h_filled h)) < 2 ^ 32" using unat_lt32 [of "h_size h"] by linarith
    then show ?thesis unfolding card by (simp add: put_entry_def unat_word_ariths)
  qed
  have "\<forall>d. 1 \<le> d \<longrightarrow> d < ?p \<longrightarrow> coprime d ?p" using assms(1) by (simp add: hash_wf_def)
  then show ?thesis unfolding hash_wf_def put_entry_index by (intro conjI allI impI p fill) (use entry inj in blast)+
qed

text \<open>The free entries and the count.\<close>

lemma filled_full:
  assumes "hash_wf m h"
  shows "h_filled h = h_size h \<longleftrightarrow> \<not> (\<exists>i. 1 \<le> i \<and> i \<le> unat (h_size h) \<and> \<not> hused h i)"
proof -
  let ?A = "{i. 1 \<le> i \<and> i \<le> unat (h_size h) \<and> hused h i}"
  have c: "unat (h_filled h) = card ?A" using assms by (simp add: hash_wf_def)
  have sub: "?A \<subseteq> {1..unat (h_size h)}" by auto
  have "h_filled h = h_size h \<longleftrightarrow> unat (h_filled h) = unat (h_size h)" by (rule word_unat_eq_iff)
  also have "\<dots> \<longleftrightarrow> card ?A = card {1..unat (h_size h)}" unfolding c by simp
  also have "\<dots> \<longleftrightarrow> ?A = {1..unat (h_size h)}" by (rule iffI) (rule card_subset_eq [OF finite_atLeastAtMost sub], assumption, erule arg_cong)
  also have "\<dots> \<longleftrightarrow> \<not> (\<exists>i. 1 \<le> i \<and> i \<le> unat (h_size h) \<and> \<not> hused h i)" unfolding set_eq_iff mem_Collect_eq atLeastAtMost_iff by blast
  finally show ?thesis .
qed

text \<open>Searching a well-formed table: every outcome of \<^verbatim>\<open>hsearch_r\<close>.\<close>

lemma hsearch_r_held:
  assumes "hash_wf m h" "key_at m key bs" "1 \<le> i" "i \<le> unat (h_size h)" "holds_key m h bs i"
  shows "hsearch_r m key data action h = Some (True, Some (of_nat i), None, h)"
  using find_held [OF assms] by (simp add: hsearch_r_def)

lemma hsearch_r_missing:
  assumes "hash_wf m h" "key_at m key bs" "\<forall>i. 1 \<le> i \<longrightarrow> i \<le> unat (h_size h) \<longrightarrow> \<not> holds_key m h bs i"
  shows "hsearch_r m key data FIND h = Some (False, None, Some ESRCH, h)"
    and "h_filled h = h_size h \<Longrightarrow> hsearch_r m key data ENTER h = Some (False, None, Some ENOMEM, h)"
    and "h_filled h \<noteq> h_size h \<Longrightarrow> \<exists>i. 1 \<le> i \<and> i \<le> unat (h_size h) \<and> \<not> hused h i
      \<and> hsearch_r m key data ENTER h = Some (True, Some (of_nat i), None,
          put_entry h (of_nat i) \<lparr>h_used = first_index m h key, h_key = key, h_data = data\<rparr>)
      \<and> hash_wf m (put_entry h (of_nat i) \<lparr>h_used = first_index m h key, h_key = key, h_data = data\<rparr>)"
proof -
  note none = assms(3) [rule_format]
  note miss = find_missing [OF assms(1,2) none] and full = filled_full [OF assms(1)]
  have ex: "\<exists>idx. hsearch_find m h key = Some (Inr idx)" using miss by (auto split: if_splits)
  then show "hsearch_r m key data FIND h = Some (False, None, Some ESRCH, h)" by (auto simp: hsearch_r_def)
  show "hsearch_r m key data ENTER h = Some (False, None, Some ENOMEM, h)" if "h_filled h = h_size h"
    using ex that by (auto simp: hsearch_r_def)
  assume "h_filled h \<noteq> h_size h"
  with full have free: "\<exists>i. 1 \<le> i \<and> i \<le> unat (h_size h) \<and> \<not> hused h i" by blast
  from miss [unfolded if_P [OF free]] obtain k where k: "k < unat (h_size h)" "\<not> hused h (hprobe m h key k)" "\<forall>l < k. hused h (hprobe m h key l)"
    "hsearch_find m h key = Some (Inr (of_nat (hprobe m h key k)))" by blast
  note wf = hash_wf_enter [OF assms(1,2) none k(1-3), of data]
  show "\<exists>i. 1 \<le> i \<and> i \<le> unat (h_size h) \<and> \<not> hused h i
      \<and> hsearch_r m key data ENTER h = Some (True, Some (of_nat i), None,
          put_entry h (of_nat i) \<lparr>h_used = first_index m h key, h_key = key, h_data = data\<rparr>)
      \<and> hash_wf m (put_entry h (of_nat i) \<lparr>h_used = first_index m h key, h_key = key, h_data = data\<rparr>)"
    by (intro exI [of _ "hprobe m h key k"] conjI wf k(2) hprobe_facts(1,2) [OF assms(1)])
      (use k(4) \<open>h_filled h \<noteq> h_size h\<close> in \<open>simp add: hsearch_r_def put_entry_def\<close>)
qed

subsection \<open>The table as a map\<close>

text \<open>The map of a table: the text of a key to the index and the data of its entry.\<close>

definition hmap :: "bytes \<Rightarrow> hsearch_data \<Rightarrow> u8 list \<rightharpoonup> u32 \<times> u32" where
  "hmap m h bs = map_option (\<lambda>i. (of_nat i, h_data (h_at h (of_nat i)))) (find (holds_key m h bs) [1 ..< Suc (unat (h_size h))])"

lemma hmap_held:
  assumes "hash_wf m h" "1 \<le> i" "i \<le> unat (h_size h)" "holds_key m h bs i"
  shows "hmap m h bs = Some (of_nat i, h_data (h_at h (of_nat i)))"
proof -
  have "\<exists>j. find (holds_key m h bs) [1 ..< Suc (unat (h_size h))] = Some j"
    using assms(2-4) unfolding not_None_eq [symmetric] find_None_iff set_upt atLeastLessThan_iff less_Suc_eq_le by blast
  then obtain j where j: "find (holds_key m h bs) [1 ..< Suc (unat (h_size h))] = Some j" ..
  then have "holds_key m h bs j" "1 \<le> j" "j \<le> unat (h_size h)"
    by (auto simp: find_Some_iff simp del: upt_Suc)
  then have "j = i" using assms unfolding hash_wf_def holds_key_def by blast
  then show ?thesis using j by (simp add: hmap_def)
qed

lemma hmap_None: "hmap m h bs = None \<longleftrightarrow> (\<forall>i. 1 \<le> i \<longrightarrow> i \<le> unat (h_size h) \<longrightarrow> \<not> holds_key m h bs i)"
  unfolding hmap_def option.map_disc_iff find_None_iff set_upt atLeastLessThan_iff less_Suc_eq_le by blast

lemma hmap_cases:
  obtains "hmap m h bs = None" "\<forall>i. 1 \<le> i \<longrightarrow> i \<le> unat (h_size h) \<longrightarrow> \<not> holds_key m h bs i"
  | i where "1 \<le> i" "i \<le> unat (h_size h)" "holds_key m h bs i"
proof (cases "hmap m h bs")
  case None
  show thesis by (rule that(1) [OF None None [unfolded hmap_None]])
next
  case (Some a)
  then have "\<not> (\<forall>i. 1 \<le> i \<longrightarrow> i \<le> unat (h_size h) \<longrightarrow> \<not> holds_key m h bs i)" unfolding hmap_None [symmetric] by simp
  then show thesis using that(2) by blast
qed

lemma dom_hmap: "dom (hmap m h) = htext m h ` {i. 1 \<le> i \<and> i \<le> unat (h_size h) \<and> hused h i}"
proof -
  have "hmap m h bs \<noteq> None \<longleftrightarrow> bs \<in> htext m h ` {i. 1 \<le> i \<and> i \<le> unat (h_size h) \<and> hused h i}" for bs
    unfolding hmap_None holds_key_def image_iff by blast
  then show ?thesis by (simp only: dom_def Collect_mem_eq)
qed

lemma card_hmap: "hash_wf m h \<Longrightarrow> card (dom (hmap m h)) = unat (h_filled h)"
proof -
  assume wf: "hash_wf m h"
  then have "inj_on (htext m h) {i. 1 \<le> i \<and> i \<le> unat (h_size h) \<and> hused h i}" unfolding hash_wf_def inj_on_def by blast
  then show ?thesis using wf unfolding dom_hmap by (simp add: card_image hash_wf_def)
qed

lemma hmap_put_entry:
  assumes "hash_wf m h" "key_at m key bs" "1 \<le> i" "i \<le> unat (h_size h)" "\<not> hused h i"
    "hash_wf m (put_entry h (of_nat i) e)" "h_used e \<noteq> 0" "h_key e = key"
  shows "hmap m (put_entry h (of_nat i) e) = (hmap m h)(bs \<mapsto> (of_nat i, h_data e))"
proof
  let ?h = "put_entry h (of_nat i) e" and ?p = "unat (h_size h)"
  fix cs
  have lt: "j < 2 ^ 32" if "j \<le> ?p" for j using that unat_lt32 [of "h_size h"] by linarith
  note at = put_entry_at [OF lt lt, OF _ assms(4), of _ h e] and used = put_entry_used [OF lt lt assms(7), OF _ assms(4), of _ h]
  have bs: "text_at m key = bs" using assms(2) text_at_eq [of m key bs] by (simp add: key_at_def)
  have held: "holds_key m ?h cs j \<longleftrightarrow> (if j = i then cs = bs else holds_key m h cs j)" if "j \<le> ?p" for j
    using used [OF that] at [OF that] bs assms(8) by (auto simp: holds_key_def htext_def)
  show "hmap m ?h cs = ((hmap m h)(bs \<mapsto> (of_nat i, h_data e))) cs"
  proof (cases "cs = bs")
    case True
    then have "hmap m ?h cs = Some (of_nat i, h_data (h_at ?h (of_nat i)))" using held [OF assms(4)] assms(3,4)
      by (intro hmap_held [OF assms(6)]) simp_all
    then show ?thesis using True at [OF assms(4)] by simp
  next
    case other: False
    show ?thesis
    proof (cases rule: hmap_cases [of m h cs])
      case 1
      then have "\<not> holds_key m ?h cs j" if "1 \<le> j" "j \<le> ?p" for j using held [OF that(2)] other that by simp
      then have "hmap m ?h cs = None" unfolding hmap_None by simp
      then show ?thesis using 1(1) other by simp
    next
      case (2 j)
      then have ne: "j \<noteq> i" using assms(5) by (auto simp: holds_key_def)
      then have "hmap m ?h cs = Some (of_nat j, h_data (h_at ?h (of_nat j)))" using held [OF 2(2)] 2
        by (intro hmap_held [OF assms(6)]) simp_all
      then show ?thesis using hmap_held [OF assms(1) 2] at [OF 2(2)] ne other by simp
    qed
  qed
qed


subsection \<open>Creating a table\<close>

definition prime_size :: "nat \<Rightarrow> bool" where
  "prime_size n \<longleftrightarrow> (\<forall>d. 1 \<le> d \<longrightarrow> d < n \<longrightarrow> coprime d n)"

text \<open>An odd number without odd divisors up to its root is coprime to every smaller number; a divisor disproves it.\<close>

lemma prime_sizeI:
  assumes "odd n" "1 < n" "\<And>e. 3 \<le> e \<Longrightarrow> odd e \<Longrightarrow> e * e \<le> n \<Longrightarrow> \<not> e dvd n"
  shows "prime_size n"
  unfolding prime_size_def
proof (intro allI impI, rule ccontr)
  fix d assume d: "1 \<le> d" "d < n" "\<not> coprime d n"
  let ?g = "gcd d n" and ?k = "n div gcd d n"
  have odds: "odd e" if "e dvd n" for e using that assms(1) dvd_trans by blast
  have no: "\<not> (e dvd n \<and> 1 < e \<and> e * e \<le> n)" for e
  proof
    assume e: "e dvd n \<and> 1 < e \<and> e * e \<le> n"
    then have "odd e" using odds by blast
    moreover from this e have "3 \<le> e" by (cases "e = 2") auto
    ultimately show False using assms(3) e by blast
  qed
  have g: "?g dvd n" "?g * ?k = n" by simp_all
  have "?g \<noteq> 1" using d(3) by (simp add: coprime_iff_gcd_eq_1)
  moreover have "?g \<noteq> 0" using d(1) by simp
  ultimately have g1: "1 < ?g" by linarith
  have gd: "?g \<le> d" using d(1) by (intro gcd_le1_nat) simp
  have k1: "1 < ?k"
  proof (rule ccontr)
    assume "\<not> 1 < ?k"
    then have "?g * ?k \<le> ?g * 1" by (intro mult_le_mono2) simp
    then show False using g(2) gd d(2) by simp
  qed
  have "?k dvd n" using g(2) by (metis dvd_triv_right)
  moreover have "?g * ?g \<le> ?g * ?k \<or> ?k * ?k \<le> ?g * ?k" using mult_le_mono1 mult_le_mono2 nat_le_linear by blast
  ultimately show False using no [of ?g] no [of ?k] g(1) g1 k1 unfolding g(2) by blast
qed

lemma prime_sizeD: "prime_size n \<Longrightarrow> 1 < e \<Longrightarrow> e < n \<Longrightarrow> \<not> e dvd n"
  unfolding prime_size_def by (metis coprime_absorb_left less_imp_le_nat less_numeral_extra(4) nat_dvd_1_iff_1)

lemma isprime_loop_correct:
  assumes "odd (unat n)" "5 \<le> unat n" "unat n \<le> 65535 * 65535" "odd d" "3 \<le> d" "d \<le> 65535" "d < unat n"
    "\<And>e. 3 \<le> e \<Longrightarrow> odd e \<Longrightarrow> e < d \<Longrightarrow> \<not> e dvd unat n"
  shows "isprime_loop n (of_nat d) = Some (prime_size (unat n))"
  using assms(4-8)
proof (induction "65535 - d" arbitrary: d rule: less_induct)
  case less
  have dd: "d * d \<le> 65535 * 65535" using less.prems(3) by (intro mult_le_mono)
  have ud: "unat (of_nat d :: u32) = d" using less.prems(3) by (simp add: unat_of_nat)
  have "unat (of_nat d * of_nat d :: u32) = d * d" using dd by (simp add: unat_word_ariths ud)
  then have sq: "(of_nat d :: u32) * of_nat d < n \<longleftrightarrow> d * d < unat n" by (simp add: word_less_nat_alt)
  have "unat (n mod of_nat d) = unat n mod d" by (simp add: unat_mod ud)
  then have dv: "n mod of_nat d \<noteq> 0 \<longleftrightarrow> \<not> d dvd unat n" by (metis dvd_eq_mod_eq_0 unat_0 unat_eq_zero)
  show ?case
  proof (cases "d dvd unat n")
    case True
    then have "\<not> prime_size (unat n)" using prime_sizeD [of "unat n" d] less.prems(2,4) by auto
    then show ?thesis using True dv by (simp add: isprime_loop.simps [of n "of_nat d"])
  next
    case nd: False
    have below: "\<not> e dvd unat n" if "3 \<le> e" "odd e" "e < d + 2" for e
    proof (cases "e < d")
      case False
      then have "e = d \<or> e = d + 1" using that(3) by linarith
      then show ?thesis using nd that(2) less.prems(1) by auto
    qed (use less.prems(5) that in blast)
    show ?thesis
    proof (cases "d * d < unat n")
      case True
      have "d \<noteq> 65535" using True assms(3) by auto
      moreover have "d \<noteq> 65534" using less.prems(1) by auto
      ultimately have hi: "d + 2 \<le> 65535" using less.prems(3) by linarith
      have "d * 3 \<le> d * d" using less.prems(2) by (intro mult_le_mono2)
      then have "d + 2 < unat n" using True less.prems(2) by linarith
      then have "isprime_loop n (of_nat (d + 2)) = Some (prime_size (unat n))"
        using hi less.prems(1,2) by (intro less.hyps below) auto
      then show ?thesis using True sq dv nd by (simp add: isprime_loop.simps [of n "of_nat d"] add.commute)
    next
      case False
      have "\<not> e dvd unat n" if "3 \<le> e" "odd e" "e * e \<le> unat n" for e
      proof (rule below [OF that(1,2)])
        have "e * e \<le> d * d" using that(3) False by linarith
        then show "e < d + 2" using mult_le_mono [of "d + 1" e "d + 1" e] by (cases "e \<le> d") auto
      qed
      then have "prime_size (unat n)" using assms(1,2) by (intro prime_sizeI) auto
      then show ?thesis using False sq dv nd by (simp add: isprime_loop.simps [of n "of_nat d"])
    qed
  qed
qed

text \<open>\<^verbatim>\<open>isprime\<close> decides primality for the odd numbers from 5 to the square of 65535, where the square of the divisor does not overflow: it returns
  whether the number is coprime to every smaller positive number.\<close>

theorem isprime_correct:
  assumes "odd (unat n)" "5 \<le> unat n" "unat n \<le> 65535 * 65535"
  shows "isprime n = Some (\<forall>d. 1 \<le> d \<longrightarrow> d < unat n \<longrightarrow> coprime d (unat n))"
  using isprime_loop_correct [OF assms, of 3] assms(2) by (simp add: isprime_def prime_size_def)

theorem isprime_correct_witness: "isprime 35 = Some (\<forall>d. 1 \<le> d \<longrightarrow> d < 35 \<longrightarrow> coprime d (35 :: nat))"
  using isprime_correct [of 35] by simp

lemma prime_size_65537: "prime_size 65537"
proof (rule prime_sizeI)
  fix e :: nat assume e: "3 \<le> e" "odd e" "e * e \<le> 65537"
  have "e < 257" using e(3) mult_le_mono [of 257 e 257 e] by (cases "e < 257") auto
  then have "e \<in> set [3 ..< 257]" using e(1) unfolding set_upt atLeastLessThan_iff by blast
  moreover have "list_all (\<lambda>e. 65537 mod e \<noteq> (0 :: nat)) [3 ..< 257]" by (simp add: upt_rec)
  ultimately have "65537 mod e \<noteq> 0" unfolding list_all_iff by blast
  then show "\<not> e dvd 65537" by (simp only: dvd_eq_mod_eq_0 not_False_eq_True)
qed simp_all

lemma next_prime_run:
  assumes "odd k" "5 \<le> k" "k \<le> 65537"
  shows "\<exists>p. next_prime (of_nat k) = Some (of_nat p) \<and> k \<le> p \<and> p \<le> 65537 \<and> prime_size p"
  using assms
proof (induction "65537 - k" arbitrary: k rule: less_induct)
  case less
  have u: "unat (of_nat k :: u32) = k" using less.prems(3) by (simp add: unat_of_nat)
  have p: "isprime (of_nat k) = Some (prime_size k)"
    unfolding isprime_def using isprime_loop_correct [of "of_nat k" 3] less.prems u by simp
  show ?case
  proof (cases "prime_size k")
    case True
    then show ?thesis using p less.prems(3) by (intro exI [of _ k]) (simp add: next_prime.simps [of "of_nat k"])
  next
    case False
    then have "k \<noteq> 65537" "k \<noteq> 65536" using prime_size_65537 less.prems(1) by auto
    then have "k + 2 \<le> 65537" using less.prems(3) by linarith
    then have "65537 - (k + 2) < 65537 - k" "odd (k + 2)" "5 \<le> k + 2" using less.prems(1,2) by auto
    from less.hyps [OF this \<open>k + 2 \<le> 65537\<close>] obtain q where "next_prime (of_nat (k + 2)) = Some (of_nat q)" "k + 2 \<le> q" "q \<le> 65537" "prime_size q" by blast
    then show ?thesis using False p by (intro exI [of _ q]) (simp add: next_prime.simps [of "of_nat k"] add.commute)
  qed
qed

lemma hash_wf_new:
  assumes "h_size h = of_nat p" "5 \<le> p" "p \<le> 65537" "prime_size p" "h_filled h = 0" "\<And>i. h_used (h_at h i) = 0"
  shows "hash_wf m h" "hmap m h = Map.empty"
proof -
  have u: "unat (h_size h) = p" using assms(1,3) by (simp add: unat_of_nat)
  show "hash_wf m h" using assms(2,4-6) unfolding hash_wf_def u prime_size_def by (simp add: hused_def)
  show "hmap m h = Map.empty" using assms(6) hmap_None [of m h] by (auto simp: holds_key_def hused_def)
qed

text \<open>\<^verbatim>\<open>hcreate_r\<close> for 2 to 65537 entries, when no table is in use and \<^verbatim>\<open>calloc\<close> has room, makes a table of at least that size, whose size is prime, that
  is well-formed and empty: the search for a prime ends.\<close>

lemma hcreate_r_makes_table:
  assumes "h_table h = NULL" "2 \<le> unat nel" "unat nel \<le> 65537" "\<And>n s. calloc n s \<noteq> NULL"
  shows "\<exists>h'. hcreate_r calloc nel (Some h) = Some (True, None, Some h') \<and> hash_wf m h' \<and> hmap m h' = Map.empty
    \<and> unat nel \<le> unat (h_size h')"
proof -
  define k where "k = unat nel + of_bool (even (unat nel))"
  have "unat (nel OR 1) = k" unfolding k_def by (simp only: unsigned_or_eq [of nel 1] unsigned_1 or_one_eq [of "unat nel"])
  then have k1: "nel OR 1 = of_nat k" by auto
  have "even (unat nel) \<Longrightarrow> unat nel \<noteq> 65537" by auto
  then have k: "odd k" "3 \<le> k" "unat nel \<le> k" "k \<le> 65537" using assms(2,3) unfolding k_def by (cases "even (unat nel)"; cases "unat nel = 2"; simp)+
  have "\<exists>p. next_prime (of_nat k) = Some (of_nat p) \<and> k \<le> p \<and> 5 \<le> p \<and> p \<le> 65537 \<and> prime_size p"
  proof (cases "k = 3")
    case True
    have "isprime 3 = Some False" by (simp add: isprime_def isprime_loop.simps)
    then have "next_prime 3 = next_prime 5" by (simp add: next_prime.simps [of 3])
    then show ?thesis using next_prime_run [of 5] True by auto
  next
    case False
    then have "5 \<le> k" using k(1,2) by (cases "k = 4") auto
    then show ?thesis using next_prime_run [OF k(1) _ k(4)] by fastforce
  qed
  then obtain p where p: "next_prime (nel OR 1) = Some (of_nat p)" "k \<le> p" "5 \<le> p" "p \<le> 65537" "prime_size p" unfolding k1 by blast
  let ?h = "h\<lparr>h_size := of_nat p, h_filled := 0, h_table := calloc (of_nat p + 1) 12, h_at := \<lambda>_. \<lparr>h_used = 0, h_key = 0, h_data = 0\<rparr>\<rparr>"
  have "hcreate_r calloc nel (Some h) = Some (True, None, Some ?h)" using assms(1,4) p(1) by (simp add: hcreate_r_def Let_def)
  moreover have "unat nel \<le> unat (h_size ?h)" using p(2,4) k(3) by (simp add: unat_of_nat)
  ultimately show ?thesis using hash_wf_new [of ?h p m] p(3-5) by auto
qed

text \<open>A new table for five entries, and a memory that holds the key ``a'' at address 16.\<close>

definition a_table :: hsearch_data where
  "a_table = \<lparr>h_table = 64, h_size = 5, h_filled = 0, h_at = \<lambda>_. \<lparr>h_used = 0, h_key = 0, h_data = 0\<rparr>\<rparr>"

definition a_key :: bytes where
  "a_key = (\<lambda>a. if a = 16 then 97 else 0)"


subsection \<open>What a client relies on\<close>

text \<open>The contract of a store of keys with a capacity, as a client uses it: \<open>key\<close> says which key a reference stands for, \<open>view\<close> what the store
  holds. A new key can be entered while there is room, and every key that is held is found.\<close>

locale keyed_store =
  fixes ok :: "'s \<Rightarrow> bool"
    and key :: "'p \<Rightarrow> 'k \<Rightarrow> bool"
    and view :: "'s \<Rightarrow> 'k \<rightharpoonup> 'e \<times> 'd"
    and cap :: "'s \<Rightarrow> nat"
    and enter :: "'p \<Rightarrow> 'd \<Rightarrow> 's \<Rightarrow> ('e \<times> 's) option"
    and look :: "'p \<Rightarrow> 's \<Rightarrow> 'e option"
  assumes enter_new: "ok s \<Longrightarrow> key p k \<Longrightarrow> view s k = None \<Longrightarrow> card (dom (view s)) < cap s \<Longrightarrow>
      \<exists>i s'. enter p d s = Some (i, s') \<and> ok s' \<and> view s' = (view s)(k \<mapsto> (i, d)) \<and> cap s' = cap s"
    and look_held: "ok s \<Longrightarrow> key p k \<Longrightarrow> view s k = Some (i, d) \<Longrightarrow> look p s = Some i"
    and finite_view: "finite (dom (view s))"

primrec enter_all :: "('p \<Rightarrow> 'd \<Rightarrow> 's \<Rightarrow> ('e \<times> 's) option) \<Rightarrow> ('p \<times> 'd) list \<Rightarrow> 's \<Rightarrow> 's option" where
  "enter_all enter [] s = Some s"
| "enter_all enter (x # xs) s = Option.bind (enter (fst x) (snd x) s) (\<lambda>(_, s'). enter_all enter xs s')"

context keyed_store
begin

lemma enter_all_view:
  assumes "ok s" "\<forall>x \<in> set xs. key (fst x) (K (fst x))" "distinct (map (K \<circ> fst) xs)" "(K \<circ> fst) ` set xs \<inter> dom (view s) = {}"
    "card (dom (view s)) + length xs \<le> cap s"
  shows "\<exists>s'. enter_all enter xs s = Some s' \<and> ok s' \<and> (\<forall>x \<in> set xs. \<exists>i. view s' (K (fst x)) = Some (i, snd x))
    \<and> (\<forall>k. k \<in> dom (view s) \<longrightarrow> view s' k = view s k)"
  using assms
proof (induction xs arbitrary: s)
  case (Cons x xs)
  let ?k = "K (fst x)"
  have new: "view s ?k = None" using Cons.prems(4) by auto
  then obtain i s1 where e: "enter (fst x) (snd x) s = Some (i, s1)" "ok s1" "view s1 = (view s)(?k \<mapsto> (i, snd x))" "cap s1 = cap s"
    using enter_new [OF Cons.prems(1) _ new, of "fst x" "snd x"] Cons.prems(2,5) by auto
  have "dom (view s1) = insert ?k (dom (view s))" using e(3) by simp
  moreover have "?k \<notin> dom (view s)" using new by auto
  ultimately have c: "card (dom (view s1)) = Suc (card (dom (view s)))" using finite_view by simp
  have "(K \<circ> fst) ` set xs \<inter> dom (view s1) = {}" using Cons.prems(3,4) e(3) by auto
  then obtain s' where s': "enter_all enter xs s1 = Some s'" "ok s'" "\<forall>x \<in> set xs. \<exists>i. view s' (K (fst x)) = Some (i, snd x)"
    "\<forall>k. k \<in> dom (view s1) \<longrightarrow> view s' k = view s1 k"
    using Cons.IH [OF e(2)] Cons.prems(2,3,5) c e(4) by auto
  moreover have "view s' ?k = Some (i, snd x)" using s'(4) e(3) by simp
  moreover have "view s' k = view s k" if "k \<in> dom (view s)" for k
    using that s'(4) e(3) \<open>?k \<notin> dom (view s)\<close> by (cases "k = ?k") auto
  ultimately show ?case using e(1) by (intro exI [of _ s']) auto
qed simp

lemma enter_all_found:
  assumes "ok s" "\<forall>x \<in> set xs. key (fst x) (K (fst x))" "distinct (map (K \<circ> fst) xs)" "view s = Map.empty" "length xs \<le> cap s"
  shows "\<exists>s'. enter_all enter xs s = Some s' \<and> ok s' \<and> (\<forall>x \<in> set xs. \<exists>i. look (fst x) s' = Some i \<and> view s' (K (fst x)) = Some (i, snd x))"
proof -
  obtain s' where s': "enter_all enter xs s = Some s'" "ok s'" "\<forall>x \<in> set xs. \<exists>i. view s' (K (fst x)) = Some (i, snd x)"
    using enter_all_view [OF assms(1-3)] assms(4,5) by auto
  then show ?thesis using look_held [OF s'(2)] assms(2) by blast
qed

end

text \<open>The two uses of \<^verbatim>\<open>hsearch_r\<close>: a call that succeeds gives the index of the entry.\<close>

definition hash_enter :: "bytes \<Rightarrow> u32 \<Rightarrow> u32 \<Rightarrow> hsearch_data \<Rightarrow> (u32 \<times> hsearch_data) option" where
  "hash_enter m key data h = Option.bind (hsearch_r m key data ENTER h)
     (\<lambda>(done_ok, result, _, h'). if done_ok then map_option (\<lambda>i. (i, h')) result else None)"

definition hash_look :: "bytes \<Rightarrow> u32 \<Rightarrow> hsearch_data \<Rightarrow> u32 option" where
  "hash_look m key h = Option.bind (hsearch_r m key 0 FIND h) (\<lambda>(done_ok, result, _, _). if done_ok then result else None)"

lemma hash_enter_new:
  assumes "hash_wf m h" "key_at m key bs" "hmap m h bs = None" "card (dom (hmap m h)) < unat (h_size h)"
  shows "\<exists>i h'. hash_enter m key d h = Some (i, h') \<and> hash_wf m h' \<and> hmap m h' = (hmap m h)(bs \<mapsto> (i, d)) \<and> unat (h_size h') = unat (h_size h)"
proof -
  let ?e = "\<lparr>h_used = first_index m h key, h_key = key, h_data = d\<rparr>"
  have "h_filled h \<noteq> h_size h" using assms(4) unfolding card_hmap [OF assms(1)] by auto
  from hsearch_r_missing(3) [OF assms(1,2) assms(3) [unfolded hmap_None] this, of d] obtain i where i: "1 \<le> i" "i \<le> unat (h_size h)" "\<not> hused h i"
    "hsearch_r m key d ENTER h = Some (True, Some (of_nat i), None, put_entry h (of_nat i) ?e)" "hash_wf m (put_entry h (of_nat i) ?e)" by blast
  have "first_index m h key \<noteq> 0" using assms(1) by (intro first_index_range(4)) (simp add: hash_wf_def)
  then have "hmap m (put_entry h (of_nat i) ?e) = (hmap m h)(bs \<mapsto> (of_nat i, d))" using hmap_put_entry [OF assms(1,2) i(1-3,5)] by simp
  then show ?thesis using i(4,5) by (simp add: hash_enter_def)
qed

lemma hash_look_held:
  assumes "hash_wf m h" "key_at m key bs" "hmap m h bs = Some (i, d)"
  shows "hash_look m key h = Some i" "h_data (h_at h i) = d" "hsearch_r m key data FIND h = Some (True, Some i, None, h)"
proof -
  obtain j where j: "1 \<le> j" "j \<le> unat (h_size h)" "holds_key m h bs j" using assms(3) by (cases rule: hmap_cases [of m h bs]) auto
  then have "i = of_nat j" "h_data (h_at h i) = d" using hmap_held [OF assms(1) j] assms(3) by simp_all
  then show "hash_look m key h = Some i" "h_data (h_at h i) = d" "hsearch_r m key data FIND h = Some (True, Some i, None, h)"
    using hsearch_r_held [OF assms(1,2) j] by (simp_all add: hash_look_def)
qed

interpretation hash_store: keyed_store "hash_wf m" "key_at m" "hmap m" "\<lambda>h. unat (h_size h)" "hash_enter m" "hash_look m" for m
proof unfold_locales
  show "finite (dom (hmap m h))" for h unfolding dom_hmap by simp
  show "hash_wf m h \<Longrightarrow> key_at m p k \<Longrightarrow> hmap m h k = None \<Longrightarrow> card (dom (hmap m h)) < unat (h_size h) \<Longrightarrow>
    \<exists>i h'. hash_enter m p d h = Some (i, h') \<and> hash_wf m h' \<and> hmap m h' = (hmap m h)(k \<mapsto> (i, d)) \<and> unat (h_size h') = unat (h_size h)" for h p k d
    by (rule hash_enter_new)
  show "hash_wf m h \<Longrightarrow> key_at m p k \<Longrightarrow> hmap m h k = Some (i, d) \<Longrightarrow> hash_look m p h = Some i" for h p k i d by (rule hash_look_held(1))
qed

text \<open>C34: A hash table serves its keys. \<^verbatim>\<open>hcreate_r\<close>, asked for 2 to 65537 entries when no table is in use and \<^verbatim>\<open>calloc\<close> has room, succeeds: the search for a
  prime size ends. In the new table up to that many keys with different texts can be entered one after the other, and afterwards \<^verbatim>\<open>FIND\<close> returns
  for every one of them the entry with its own data.\<close>

theorem hash_table_serves_keys:
  assumes "h_table h = NULL" "2 \<le> unat nel" "unat nel \<le> 65537" "\<And>n s. calloc n s \<noteq> NULL"
    and "\<forall>x \<in> set xs. \<exists>bs. key_at m (fst x) bs" "distinct (map (text_at m \<circ> fst) xs)" "length xs \<le> unat nel"
  shows "\<exists>h1 h2. hcreate_r calloc nel (Some h) = Some (True, None, Some h1) \<and> enter_all (hash_enter m) xs h1 = Some h2
    \<and> (\<forall>x \<in> set xs. \<exists>i. hsearch_r m (fst x) 0 FIND h2 = Some (True, Some i, None, h2) \<and> h_data (h_at h2 i) = snd x)"
proof -
  obtain h1 where h1: "hcreate_r calloc nel (Some h) = Some (True, None, Some h1)" "hash_wf m h1" "hmap m h1 = Map.empty" "unat nel \<le> unat (h_size h1)"
    using hcreate_r_makes_table [OF assms(1-3), of calloc m] assms(4) by blast
  have keys: "\<forall>x \<in> set xs. key_at m (fst x) (text_at m (fst x))" using assms(5) text_at_eq by (auto simp: key_at_def)
  obtain h2 where h2: "enter_all (hash_enter m) xs h1 = Some h2" "hash_wf m h2" "\<forall>x \<in> set xs. \<exists>i. hmap m h2 (text_at m (fst x)) = Some (i, snd x)"
    using hash_store.enter_all_found [OF h1(2) keys assms(6) h1(3)] assms(7) h1(4) by (meson order.trans)
  have "\<exists>i. hsearch_r m (fst x) 0 FIND h2 = Some (True, Some i, None, h2) \<and> h_data (h_at h2 i) = snd x" if "x \<in> set xs" for x
  proof -
    from h2(3) that obtain i where i: "hmap m h2 (text_at m (fst x)) = Some (i, snd x)" by blast
    show ?thesis using hash_look_held(2,3) [OF h2(2) keys [rule_format, OF that] i] by blast
  qed
  then show ?thesis using h1(1) h2(1) by blast
qed

text \<open>A memory with the keys ``a'' at 16 and ``b'' at 32.\<close>

definition ab_keys :: bytes where
  "ab_keys = (\<lambda>a. if a = 16 then 97 else if a = 32 then 98 else 0)"

theorem hash_table_serves_keys_witness:
  "\<exists>h1 h2. hcreate_r (\<lambda>_ _. 64) 6 (Some (a_table\<lparr>h_table := NULL\<rparr>)) = Some (True, None, Some h1)
    \<and> enter_all (hash_enter ab_keys) [(16, 7), (32, 9)] h1 = Some h2
    \<and> (\<forall>x \<in> {(16, 7), (32, 9)}. \<exists>i. hsearch_r ab_keys (fst x) 0 FIND h2 = Some (True, Some i, None, h2) \<and> h_data (h_at h2 i) = snd x)"
proof -
  have k: "key_at ab_keys 16 [97]" "key_at ab_keys 32 [98]" by (simp_all add: key_at_def ab_keys_def)
  then have "text_at ab_keys 16 = [97]" "text_at ab_keys 32 = [98]" by (simp_all add: key_at_def text_at_eq)
  then show ?thesis
    using hash_table_serves_keys [of "a_table\<lparr>h_table := NULL\<rparr>" 6 "\<lambda>_ _. 64" "[(16, 7), (32, 9)]" ab_keys] k by auto
qed

end
