(* ===== verification/Cmatch.thy ===== *)
theory Cmatch
  imports Cstring
begin

text \<open>
  Searching and comparing strings in \<^verbatim>\<open>uClibc/libc/string\<close>: \<^verbatim>\<open>strstr\<close> of \<^verbatim>\<open>generic\<close>, which looks for the first two characters in
  turn before it compares the rest; \<^verbatim>\<open>strcasestr\<close>, \<^verbatim>\<open>strcasecmp\<close> and \<^verbatim>\<open>strncasecmp\<close> without regard to case; the copies \<^verbatim>\<open>stpcpy\<close>,
  \<^verbatim>\<open>stpncpy\<close> and \<^verbatim>\<open>memccpy\<close>; and \<^verbatim>\<open>ffs\<close>. The theorems relate the searches to the first position at which the needle occurs in
  the list of characters. \<open>None\<close> means that a loop does not end.
\<close>

subsection \<open>strstr\<close>

text \<open>The label \<^verbatim>\<open>ret0\<close> is the inner \<open>None\<close>. First the loop to the first character; \<^verbatim>\<open>haystack\<close> is one before the next to read.\<close>

partial_function (option) strstr_first :: "bytes \<Rightarrow> u8 \<Rightarrow> u32 \<Rightarrow> u32 option option" where
  "strstr_first m b haystack =
     (let haystack = haystack + 1; a = m haystack in
      if a = 0 then Some None else if a \<noteq> b then strstr_first m b haystack else Some (Some haystack))"

text \<open>The loop to the next first character, two at a time, and the loop around it to both characters.\<close>

partial_function (option) strstr_b :: "bytes \<Rightarrow> u8 \<Rightarrow> u32 \<Rightarrow> u8 \<Rightarrow> u32 option option" where
  "strstr_b m b haystack a =
     (if a \<noteq> b then
        if a = 0 then Some None
        else let haystack = haystack + 1; a = m haystack in
          if a = b then Some (Some haystack)
          else if a = 0 then Some None
          else let haystack = haystack + 1; a = m haystack in strstr_b m b haystack a
      else Some (Some haystack))"

partial_function (option) strstr_bc :: "bytes \<Rightarrow> u8 \<Rightarrow> u8 \<Rightarrow> u32 \<Rightarrow> u8 \<Rightarrow> u32 option option" where
  "strstr_bc m b c haystack a =
     Option.bind (strstr_b m b haystack a) (\<lambda>r. case r of
       None \<Rightarrow> Some None
     | Some haystack \<Rightarrow>
         let haystack = haystack + 1; a = m haystack in
         if a \<noteq> c then strstr_bc m b c haystack a else Some (Some haystack))"

text \<open>The comparison of the rest: whether the needle's end was reached (\<^verbatim>\<open>foundneedle\<close>, or a last character \<^verbatim>\<open>a\<close> that is 0).\<close>

partial_function (option) strstr_rest_loop :: "bytes \<Rightarrow> u32 \<Rightarrow> u32 \<Rightarrow> u8 \<Rightarrow> bool option" where
  "strstr_rest_loop m rhaystack needle a =
     (if a = 0 then Some True
      else let rhaystack = rhaystack + 1; needle = needle + 1; a = m needle in
        if m rhaystack \<noteq> a then Some (a = 0)
        else if a = 0 then Some True
        else let rhaystack = rhaystack + 1; needle = needle + 1; a = m needle in
          if m rhaystack = a then strstr_rest_loop m rhaystack needle a else Some (a = 0))"

definition strstr_rest :: "bytes \<Rightarrow> u32 \<Rightarrow> u32 \<Rightarrow> bool option" where
  "strstr_rest m rhaystack needle =
     (let a = m needle in if m rhaystack = a then strstr_rest_loop m rhaystack needle a else Some (a = 0))"

text \<open>From the label \<^verbatim>\<open>crest\<close> on, with \<^verbatim>\<open>haystack\<close> at a second character.\<close>

partial_function (option) strstr_crest :: "bytes \<Rightarrow> u8 \<Rightarrow> u8 \<Rightarrow> u32 \<Rightarrow> u32 \<Rightarrow> u32 option" where
  "strstr_crest m b c needle haystack =
     (let rhaystack = haystack + 1; haystack = haystack - 1 in
      Option.bind (strstr_rest m rhaystack needle) (\<lambda>found.
      if found then Some haystack
      else let haystack = haystack + 1; a = m haystack in
        Option.bind (strstr_bc m b c haystack a) (\<lambda>r. case r of
          None \<Rightarrow> Some NULL | Some haystack \<Rightarrow> strstr_crest m b c needle haystack)))"

definition strstr :: "bytes \<Rightarrow> u32 \<Rightarrow> u32 \<Rightarrow> u32 option" where
  "strstr m haystack needle =
     (let b = m needle in
      if b \<noteq> 0 then
        Option.bind (strstr_first m b (haystack - 1)) (\<lambda>r. case r of
          None \<Rightarrow> Some NULL
        | Some haystack \<Rightarrow>
            let needle = needle + 1; c = m needle in
            if c = 0 then Some haystack
            else let needle = needle + 1; haystack = haystack + 1; a = m haystack in
              if a = c then strstr_crest m b c needle haystack
              else Option.bind (strstr_bc m b c haystack a) (\<lambda>r. case r of
                None \<Rightarrow> Some NULL | Some haystack \<Rightarrow> strstr_crest m b c needle haystack))
      else Some haystack)"

subsection \<open>Without regard to case\<close>

text \<open>The table has a row for every integer from -128 to 255; the others are left as they are.\<close>

definition C_ctype_tolower :: "int \<Rightarrow> int" where
  "C_ctype_tolower c = (if 65 \<le> c \<and> c \<le> 90 then c + 32 else c)"

definition tolower :: "int \<Rightarrow> int" where
  "tolower c = (if - 128 \<le> c \<and> c \<le> 255 then C_ctype_tolower c else c)"

partial_function (option) strcasecmp_loop :: "bytes \<Rightarrow> u32 \<Rightarrow> u32 \<Rightarrow> int \<Rightarrow> int option" where
  "strcasecmp_loop m s1 s2 r =
     (let r = (if s1 = s2 then r else tolower (uint (m s1)) - tolower (uint (m s2))) in
      if s1 = s2 \<or> r = 0 then if m s1 \<noteq> 0 then strcasecmp_loop m (s1 + 1) (s2 + 1) r else Some r
      else Some r)"

definition strcasecmp :: "bytes \<Rightarrow> u32 \<Rightarrow> u32 \<Rightarrow> int option" where
  "strcasecmp m s1 s2 = strcasecmp_loop m s1 s2 0"

function strncasecmp_loop :: "bytes \<Rightarrow> u32 \<Rightarrow> u32 \<Rightarrow> u32 \<Rightarrow> int \<Rightarrow> int" where
  "strncasecmp_loop m s1 s2 n r =
     (if n \<noteq> 0 then
        let r = (if s1 = s2 then r else tolower (uint (m s1)) - tolower (uint (m s2))) in
        if s1 = s2 \<or> r = 0 then if m s1 \<noteq> 0 then strncasecmp_loop m (s1 + 1) (s2 + 1) (n - 1) r else r
        else r
      else r)"
  by pat_completeness auto
termination by (relation "measure (\<lambda>(_, _, _, n, _). unat n)") (auto simp: unat_minus_one unat_gt_0)

declare strncasecmp_loop.simps [simp del]

definition strncasecmp :: "bytes \<Rightarrow> u32 \<Rightarrow> u32 \<Rightarrow> u32 \<Rightarrow> int" where
  "strncasecmp m s1 s2 n = strncasecmp_loop m s1 s2 n 0"

partial_function (option) strcasestr_loop :: "bytes \<Rightarrow> u32 \<Rightarrow> u32 \<Rightarrow> u32 \<Rightarrow> u32 \<Rightarrow> u32 option" where
  "strcasestr_loop m s1 s2 s p =
     (if m p = 0 then Some s1
      else if m p = m s \<or> tolower (uint (m p)) = tolower (uint (m s)) then strcasestr_loop m s1 s2 (s + 1) (p + 1)
      else if m s = 0 then Some NULL
      else strcasestr_loop m (s1 + 1) s2 (s1 + 1) s2)"

definition strcasestr :: "bytes \<Rightarrow> u32 \<Rightarrow> u32 \<Rightarrow> u32 option" where
  "strcasestr m s1 s2 = strcasestr_loop m s1 s2 s1 s2"

subsection \<open>Copies that return the end, and the lowest bit\<close>

partial_function (option) stpcpy_loop :: "bytes \<Rightarrow> u32 \<Rightarrow> u32 \<Rightarrow> (u32 \<times> bytes) option" where
  "stpcpy_loop m s1 s2 =
     (let c = m s2; m = m(s1 := c); s1 = s1 + 1; s2 = s2 + 1 in if c \<noteq> 0 then stpcpy_loop m s1 s2 else Some (s1, m))"

definition stpcpy :: "bytes \<Rightarrow> u32 \<Rightarrow> u32 \<Rightarrow> (u32 \<times> bytes) option" where
  "stpcpy m s1 s2 = map_option (\<lambda>(s1, m). (s1 - 1, m)) (stpcpy_loop m s1 s2)"

function stpncpy_loop :: "bytes \<Rightarrow> u32 \<Rightarrow> u32 \<Rightarrow> u32 \<Rightarrow> u32 \<times> bytes" where
  "stpncpy_loop m s s2 n =
     (if n \<noteq> 0 then
        let c = m s2; m = m(s := c); s2 = (if c \<noteq> 0 then s2 + 1 else s2) in stpncpy_loop m (s + 1) s2 (n - 1)
      else (s2, m))"
  by pat_completeness auto
termination by (relation "measure (\<lambda>(_, _, _, n). unat n)") (auto simp: unat_minus_one unat_gt_0)

declare stpncpy_loop.simps [simp del]

definition stpncpy :: "bytes \<Rightarrow> u32 \<Rightarrow> u32 \<Rightarrow> u32 \<Rightarrow> u32 \<times> bytes" where
  "stpncpy m s1 s2 n = (case stpncpy_loop m s1 s2 n of (s2', m') \<Rightarrow> (s1 + (s2' - s2), m'))"

text \<open>The counter is decremented before it is looked at after the loop, so -1 stands for a loop that ran out.\<close>

function memccpy_loop :: "bytes \<Rightarrow> u32 \<Rightarrow> u32 \<Rightarrow> u8 \<Rightarrow> u32 \<Rightarrow> u32 \<times> u32 \<times> bytes" where
  "memccpy_loop m r1 r2 c n =
     (if n \<noteq> 0 then
        let b = m r2; m = m(r1 := b) in
        if b \<noteq> c then memccpy_loop m (r1 + 1) (r2 + 1) c (n - 1) else (r1 + 1, n - 1, m)
      else (r1, n - 1, m))"
  by pat_completeness auto
termination by (relation "measure (\<lambda>(_, _, _, _, n). unat n)") (auto simp: unat_minus_one unat_gt_0)

declare memccpy_loop.simps [simp del]

definition memccpy :: "bytes \<Rightarrow> u32 \<Rightarrow> u32 \<Rightarrow> u32 \<Rightarrow> u32 \<Rightarrow> u32 \<times> bytes" where
  "memccpy m s1 s2 c n = (case memccpy_loop m s1 s2 (ucast c) n of (r1, n, m) \<Rightarrow> (if n = - 1 then NULL else r1, m))"

definition ffs :: "u32 \<Rightarrow> nat" where
  "ffs i =
     (let (n, i) = (if i AND 0xffff = 0 then (1 + 16, signed_drop_bit 16 i) else (1, i));
          (n, i) = (if i AND 0xff = 0 then (n + 8, signed_drop_bit 8 i) else (n, i));
          (n, i) = (if i AND 0x0f = 0 then (n + 4, signed_drop_bit 4 i) else (n, i));
          (n, i) = (if i AND 0x03 = 0 then (n + 2, signed_drop_bit 2 i) else (n, i)) in
      if i \<noteq> 0 then n + unat ((i + 1) AND 1) else 0)"

definition ffsll :: "64 word \<Rightarrow> nat" where
  "ffsll i = (if i AND - i \<le> 0xffffffff then ffs (ucast i) else 32 + ffs (ucast (signed_drop_bit 32 i)))"

subsection \<open>The first position\<close>

text \<open>The first position from which on a list satisfies a predicate.\<close>

fun first_match :: "('a list \<Rightarrow> bool) \<Rightarrow> 'a list \<Rightarrow> nat option" where
  "first_match P [] = (if P [] then Some 0 else None)"
| "first_match P (x # xs) = (if P (x # xs) then Some 0 else map_option Suc (first_match P xs))"

lemma first_match_Some: "first_match P xs = Some i \<longleftrightarrow> i \<le> length xs \<and> P (drop i xs) \<and> (\<forall>j < i. \<not> P (drop j xs))"
proof (induction xs arbitrary: i)
  case (Cons x xs)
  show ?case
  proof (cases "P (x # xs)")
    case True
    then show ?thesis by (cases i) auto
  next
    case False
    then show ?thesis using Cons.IH by (cases i) (auto simp: All_less_Suc2)
  qed
qed auto

lemma first_match_None: "first_match P xs = None \<longleftrightarrow> (\<forall>i \<le> length xs. \<not> P (drop i xs))"
proof (induction xs)
  case (Cons x xs)
  have "(\<forall>i \<le> Suc (length xs). \<not> P (drop i (x # xs))) \<longleftrightarrow> \<not> P (x # xs) \<and> (\<forall>i \<le> length xs. \<not> P (drop i xs))"
    by (metis Suc_le_mono drop0 drop_Suc_Cons le0 not0_implies_Suc)
  then show ?case using Cons by simp
qed simp

lemma first_match_skip:
  "k \<le> length xs \<Longrightarrow> (\<And>j. j < k \<Longrightarrow> \<not> P (drop j xs)) \<Longrightarrow> first_match P xs = map_option ((+) k) (first_match P (drop k xs))"
proof (induction k arbitrary: xs)
  case (Suc k)
  then obtain x ys where xs: "xs = x # ys" by (cases xs) auto
  have "\<not> P xs" using Suc.prems(2) [of 0] by simp
  moreover have "first_match P ys = map_option ((+) k) (first_match P (drop k ys))"
    by (rule Suc.IH) (use Suc.prems(1) Suc.prems(2) [of "Suc _"] xs in auto)
  ultimately show ?case using xs by (simp add: option.map_comp comp_def)
qed (simp add: option.map_ident [unfolded id_def] map_option_case split: option.split)

text \<open>A search for a stronger predicate can begin where a weaker one holds first.\<close>

lemma first_match_weaker:
  assumes "\<And>ys. P ys \<Longrightarrow> Q ys"
  shows "first_match P xs = (case first_match Q xs of None \<Rightarrow> None | Some k \<Rightarrow> map_option ((+) k) (first_match P (drop k xs)))"
proof (cases "first_match Q xs")
  case None
  then have "first_match P xs = None" using assms unfolding first_match_None by blast
  then show ?thesis using None by simp
next
  case (Some k)
  then have "k \<le> length xs" "\<And>j. j < k \<Longrightarrow> \<not> P (drop j xs)" using assms by (auto simp: first_match_Some)
  then show ?thesis using Some first_match_skip [of k xs P] by simp
qed

lemma str_at_skip: "str_at m h xs \<Longrightarrow> k \<le> length xs \<Longrightarrow> str_at m (h + of_nat k) (drop k xs)"
  using str_at_append [of m h "take k xs" "drop k xs"] by simp

lemma str_at_head: "str_at m h xs \<Longrightarrow> b \<noteq> 0 \<Longrightarrow> m h = b \<longleftrightarrow> take 1 xs = [b]"
  by (cases xs) auto

subsection \<open>strstr\<close>

lemma strstr_first_run:
  "str_at m h xs \<Longrightarrow> b \<noteq> 0 \<Longrightarrow> strstr_first m b (h - 1) = Some (map_option (\<lambda>i. h + of_nat i) (first_match (\<lambda>ys. take 1 ys = [b]) xs))"
proof (induction xs arbitrary: h)
  case Nil
  then show ?case by (simp add: strstr_first.simps [of m b "h - 1"])
next
  case (Cons x xs)
  then show ?case using Cons.IH [of "h + 1"] by (auto simp: strstr_first.simps [of m b "h - 1"] option.map_comp comp_def add.assoc)
qed

lemma strstr_b_run:
  "str_at m h xs \<Longrightarrow> b \<noteq> 0 \<Longrightarrow> strstr_b m b h (m h) = Some (map_option (\<lambda>i. h + of_nat i) (first_match (\<lambda>ys. take 1 ys = [b]) xs))"
proof (induction xs arbitrary: h rule: induct_list012)
  case 1
  then show ?case by (simp add: strstr_b.simps [of m b h])
next
  case (2 x)
  then show ?case by (auto simp: strstr_b.simps [of m b h])
next
  case (3 x y xs)
  have "h + 1 + 1 = h + 2" by simp
  then show ?case using 3 by (auto simp: strstr_b.simps [of m b h] option.map_comp comp_def add.assoc)
qed

lemma strstr_bc_run:
  assumes "str_at m h xs" "b \<noteq> 0" "c \<noteq> 0"
  shows "strstr_bc m b c h (m h) = Some (map_option (\<lambda>i. h + of_nat i + 1) (first_match (\<lambda>ys. take 2 ys = [b, c]) xs))"
  using assms(1)
proof (induction "length xs" arbitrary: h xs rule: less_induct)
  case less
  let ?P = "\<lambda>ys. take 2 ys = [b, c]" and ?Q = "\<lambda>ys. take 1 ys = [b]"
  have weak: "?P ys \<Longrightarrow> ?Q ys" for ys by (cases ys) auto
  note start = strstr_b_run [OF less.prems assms(2)] first_match_weaker [of ?P ?Q, OF weak]
  show ?case
  proof (cases "first_match ?Q xs")
    case None
    then show ?thesis using start by (simp add: strstr_bc.simps [of m b c h])
  next
    case (Some k)
    then have k: "k \<le> length xs" "take 1 (drop k xs) = [b]" by (auto simp: first_match_Some)
    then obtain ys where ys: "drop k xs = b # ys" by (cases "drop k xs") auto
    have "str_at m (h + of_nat k) (b # ys)" using str_at_skip [OF less.prems k(1)] ys by simp
    then have str: "str_at m (h + of_nat k + 1) ys" by simp
    have "length (drop k xs) = Suc (length ys)" using ys by simp
    then have "length ys < length xs" by simp
    from less.hyps [OF this str] have IH: "strstr_bc m b c (h + of_nat k + 1) (m (h + of_nat k + 1))
      = Some (map_option (\<lambda>i. h + of_nat k + 1 + of_nat i + 1) (first_match ?P ys))" .
    have eq: "first_match ?P xs = (if m (h + of_nat k + 1) = c then Some k else map_option (\<lambda>i. k + Suc i) (first_match ?P ys))"
      using start(2) [of xs] Some ys str_at_head [OF str assms(3)] by (auto simp: option.map_comp comp_def numeral_2_eq_2)
    show ?thesis unfolding eq using start(1) Some IH
      by (auto simp: strstr_bc.simps [of m b c h] option.map_comp comp_def algebra_simps)
  qed
qed

lemma strstr_rest_loop_run:
  "str_at m h xs \<Longrightarrow> str_at m n ys \<Longrightarrow> m h = m n \<Longrightarrow> strstr_rest_loop m h n (m n) = Some (take (length ys) xs = ys)"
proof (induction ys arbitrary: h n xs rule: induct_list012)
  case 1
  then show ?case by (simp add: strstr_rest_loop.simps [of m h n])
next
  case (2 y)
  then show ?case by (cases xs) (auto simp: strstr_rest_loop.simps [of m h n] Let_def)
next
  case (3 y z ys)
  obtain x xs' where xs: "xs = x # xs'" using "3.prems" by (cases xs) auto
  have IH: "str_at m (h + 2) xs'' \<Longrightarrow> m (h + 2) = m (n + 2) \<Longrightarrow> strstr_rest_loop m (h + 2) (n + 2) (m (n + 2)) = Some (take (length ys) xs'' = ys)" for xs''
    using "3.IH"(1) [of "h + 2" xs'' "n + 2"] "3.prems"(2) by (simp add: add.assoc)
  show ?case
  proof (cases xs')
    case Nil
    then show ?thesis using "3.prems" xs by (auto simp: strstr_rest_loop.simps [of m h n])
  next
    case (Cons x' xs'')
    have end_ne: "m (h + 2) \<noteq> m (n + 2) \<Longrightarrow> (m (n + 2) = 0) = (take (length ys) xs'' = ys)"
      using "3.prems" xs Cons by (cases ys; cases xs'') (auto simp: add.assoc)
    show ?thesis using "3.prems" xs Cons IH [of xs''] end_ne by (auto simp: strstr_rest_loop.simps [of m h n] add.assoc Let_def)
  qed
qed

lemma strstr_rest_run:
  assumes "str_at m h xs" "str_at m n ys"
  shows "strstr_rest m h n = Some (take (length ys) xs = ys)"
proof (cases "m h = m n")
  case True
  then show ?thesis using strstr_rest_loop_run [OF assms] by (simp add: strstr_rest_def Let_def)
next
  case False
  then show ?thesis using assms by (cases xs; cases ys) (auto simp: strstr_rest_def)
qed

lemma strstr_crest_run:
  assumes "b \<noteq> 0" "c \<noteq> 0" "str_at m n ys" "str_at m h (b # c # xs)"
  shows "strstr_crest m b c n (h + 1) =
    Some (case first_match (\<lambda>zs. take (length (b # c # ys)) zs = b # c # ys) (b # c # xs) of None \<Rightarrow> NULL | Some i \<Rightarrow> h + of_nat i)"
  using assms(4)
proof (induction "length xs" arbitrary: h xs rule: less_induct)
  case less
  let ?P = "\<lambda>zs. take (length (b # c # ys)) zs = b # c # ys" and ?Q = "\<lambda>ys. take 2 ys = [b, c]"
  have weak: "?P zs \<Longrightarrow> ?Q zs" for zs by (cases zs; cases "tl zs") auto
  have rest: "strstr_rest m (h + 1 + 1) n = Some (?P (b # c # xs))"
    using strstr_rest_run [OF _ assms(3), of "h + 1 + 1" xs] less.prems by simp
  have str: "str_at m (h + 1) (c # xs)" using less.prems by simp
  note bc = strstr_bc_run [OF str assms(1,2)]
  show ?case
  proof (cases "?P (b # c # xs)")
    case True
    then show ?thesis using rest by (simp add: strstr_crest.simps [of m b c n "h + 1"])
  next
    case False
    then have step: "first_match ?P (b # c # xs) = map_option Suc (first_match ?P (c # xs))" by (simp only: first_match.simps if_False)
    have run: "strstr_crest m b c n (h + 1) = Option.bind (strstr_bc m b c (h + 1) (m (h + 1)))
      (\<lambda>r. case r of None \<Rightarrow> Some NULL | Some haystack \<Rightarrow> strstr_crest m b c n haystack)"
      unfolding strstr_crest.simps [of m b c n "h + 1"] Let_def rest using False by (simp del: length_Cons take_Suc_Cons)
    show ?thesis
    proof (cases "first_match ?Q (c # xs)")
      case None
      then have "first_match ?P (c # xs) = None" using first_match_weaker [of ?P ?Q, OF weak, of "c # xs"] by simp
      then show ?thesis unfolding run bc None step by simp
    next
      case (Some k)
      then have k: "k \<le> length (c # xs)" "take 2 (drop k (c # xs)) = [b, c]" by (simp_all only: first_match_Some)
      then obtain zs where zs: "drop k (c # xs) = b # c # zs" by (cases "drop k (c # xs)"; cases "tl (drop k (c # xs))") auto
      then have "length (drop k (c # xs)) = Suc (Suc (length zs))" by simp
      then have lt: "length zs < length xs" by simp
      have "str_at m (h + 1 + of_nat k) (b # c # zs)" using str_at_skip [OF str k(1)] zs by simp
      note IH = less.hyps [OF lt this]
      have "first_match ?P (c # xs) = map_option ((+) k) (first_match ?P (b # c # zs))"
        using first_match_weaker [of ?P ?Q, OF weak, of "c # xs"] unfolding Some option.case zs .
      then show ?thesis unfolding run bc Some step using IH by (cases "first_match ?P (b # c # zs)") (simp_all del: first_match.simps add: add.assoc)
    qed
  qed
qed

text \<open>The search for both characters, and from where it leads on.\<close>

lemma strstr_from:
  assumes "b \<noteq> 0" "c \<noteq> 0" "str_at m n ys" "str_at m h xs"
  shows "Option.bind (strstr_bc m b c h (m h)) (\<lambda>r. case r of None \<Rightarrow> Some NULL | Some haystack \<Rightarrow> strstr_crest m b c n haystack) =
    Some (case first_match (\<lambda>zs. take (length (b # c # ys)) zs = b # c # ys) xs of None \<Rightarrow> NULL | Some i \<Rightarrow> h + of_nat i)"
proof -
  let ?P = "\<lambda>zs. take (length (b # c # ys)) zs = b # c # ys" and ?Q = "\<lambda>zs. take 2 zs = [b, c]"
  have weak: "?P zs \<Longrightarrow> ?Q zs" for zs by (cases zs; cases "tl zs") auto
  note bc = strstr_bc_run [OF assms(4,1,2)] and P = first_match_weaker [of ?P ?Q, OF weak, of xs]
  show ?thesis
  proof (cases "first_match ?Q xs")
    case None
    then show ?thesis using bc P by simp
  next
    case (Some k)
    then have k: "k \<le> length xs" "take 2 (drop k xs) = [b, c]" by (simp_all only: first_match_Some)
    then obtain zs where zs: "drop k xs = b # c # zs" by (cases "drop k xs"; cases "tl (drop k xs)") auto
    have "str_at m (h + of_nat k) (b # c # zs)" using str_at_skip [OF assms(4) k(1)] zs by simp
    from strstr_crest_run [OF assms(1-3) this] P [unfolded Some option.case zs] bc Some
    show ?thesis by (cases "first_match ?P (b # c # zs)") (simp_all del: first_match.simps add: add.assoc)
  qed
qed

text \<open>C29: \<^verbatim>\<open>strstr\<close> ends on every two strings and returns the address of the first occurrence of the second in the first, or NULL if there is
  none: the search for the first two characters by turns misses no occurrence.\<close>

theorem strstr_finds_first:
  assumes "str_at m haystack xs" "str_at m needle ys"
  shows "strstr m haystack needle =
    Some (case first_match (\<lambda>zs. take (length ys) zs = ys) xs of None \<Rightarrow> NULL | Some i \<Rightarrow> haystack + of_nat i)"
proof (cases ys rule: remdups_adj.cases)
  case 1
  then show ?thesis using assms(2) by (cases xs) (simp_all add: strstr_def)
next
  case (2 b)
  then have b: "b \<noteq> 0" "m needle = b" "m (needle + 1) = 0" using assms(2) by auto
  show ?thesis using strstr_first_run [OF assms(1) b(1)] b 2
    by (cases "first_match (\<lambda>ys. take 1 ys = [b]) xs") (simp_all add: strstr_def Let_def)
next
  case (3 b c rest)
  have s: "b \<noteq> 0" "c \<noteq> 0" "m needle = b" "m (needle + 1) = c" "str_at m (needle + 2) rest" using assms(2) 3 by (auto simp: add.assoc)
  let ?P = "\<lambda>zs. take (length (b # c # rest)) zs = b # c # rest" and ?R = "\<lambda>zs. take 1 zs = [b]"
  have weak: "?P zs \<Longrightarrow> ?R zs" for zs by (cases zs) auto
  note first = strstr_first_run [OF assms(1) s(1)]
  have two: "needle + 1 + 1 = needle + 2" by simp
  show ?thesis
  proof (cases "first_match ?R xs")
    case None
    then have "first_match ?P xs = None" using first_match_weaker [of ?P ?R, OF weak, of xs] by simp
    then show ?thesis using first None s 3 by (simp add: strstr_def Let_def)
  next
    case (Some k)
    then have k: "k \<le> length xs" "take 1 (drop k xs) = [b]" by (simp_all only: first_match_Some)
    then obtain zs where zs: "drop k xs = b # zs" by (cases "drop k xs") auto
    have P: "first_match ?P xs = map_option ((+) k) (first_match ?P (b # zs))"
      using first_match_weaker [of ?P ?R, OF weak, of xs] unfolding Some option.case zs .
    let ?h = "haystack + of_nat k"
    have str: "str_at m ?h (b # zs)" "str_at m (?h + 1) zs" using str_at_skip [OF assms(1) k(1)] zs by simp_all
    have run: "strstr m haystack needle = (if m (?h + 1) = c then strstr_crest m b c (needle + 2) (?h + 1)
      else Option.bind (strstr_bc m b c (?h + 1) (m (?h + 1))) (\<lambda>r. case r of None \<Rightarrow> Some NULL | Some h \<Rightarrow> strstr_crest m b c (needle + 2) h))"
      unfolding strstr_def s(3,4) Let_def first Some two using s(1,2) by simp
    show ?thesis
    proof (cases "m (?h + 1) = c")
      case True
      then obtain us where "zs = c # us" using str_at_head [OF str(2) s(2)] by (cases zs) auto
      then show ?thesis using run True strstr_crest_run [OF s(1,2,5), of ?h us] str(1) P 3
        by (cases "first_match ?P (b # zs)") (simp_all del: first_match.simps add: add.assoc)
    next
      case False
      have "\<not> ?P (b # zs)" using False str_at_head [OF str(2) s(2)] by (cases zs) auto
      then have P': "first_match ?P (b # zs) = map_option Suc (first_match ?P zs)" by (simp only: first_match.simps if_False)
      show ?thesis using run False strstr_from [OF s(1,2,5) str(2)] P P' 3
        by (cases "first_match ?P zs") (simp_all del: first_match.simps add: algebra_simps)
    qed
  qed
qed

theorem strstr_finds_first_witness:
  "strstr ((\<lambda>_. 0)(16 := 97, 17 := 97, 18 := 98, 32 := 97, 33 := 98)) 16 32 = Some 17"
  using strstr_finds_first [of "(\<lambda>_. 0)(16 := 97, 17 := 97, 18 := 98, 32 := 97, 33 := 98)" 16 "[97, 97, 98]" 32 "[97, 98]"] by simp

subsection \<open>Without regard to case\<close>

definition low :: "u8 \<Rightarrow> int" where
  "low b = tolower (uint b)"

lemma low_zero: "low b = 0 \<longleftrightarrow> b = 0"
  by (auto simp: low_def tolower_def C_ctype_tolower_def uint_0_iff)

lemma tolower_0 [simp]: "tolower 0 = 0"
  by (simp add: tolower_def C_ctype_tolower_def)

lemma low_0 [simp]: "low 0 = 0"
  by (simp add: low_zero)

lemma low_nonneg: "0 \<le> low b"
  by (auto simp: low_def tolower_def C_ctype_tolower_def)

lemma low_pos: "b \<noteq> 0 \<Longrightarrow> 0 < low b"
  using low_zero [of b] low_nonneg [of b] by linarith

lemma strcasecmp_loop_step:
  "strcasecmp_loop m a b 0 =
    (if low (m a) = low (m b) then if m a \<noteq> 0 then strcasecmp_loop m (a + 1) (b + 1) 0 else Some 0 else Some (low (m a) - low (m b)))"
  by (simp add: strcasecmp_loop.simps [of m a b] Let_def low_zero flip: low_def)

lemma strncasecmp_loop_step:
  "n \<noteq> 0 \<Longrightarrow> strncasecmp_loop m a b n 0 =
    (if low (m a) = low (m b) then if m a \<noteq> 0 then strncasecmp_loop m (a + 1) (b + 1) (n - 1) 0 else 0 else low (m a) - low (m b))"
  by (simp add: strncasecmp_loop.simps [of m a b n] Let_def low_zero flip: low_def)

text \<open>What a comparison's result says: zero for equal texts, negative for the smaller one.\<close>

definition orders :: "int \<Rightarrow> int list \<Rightarrow> int list \<Rightarrow> bool" where
  "orders r xs ys \<longleftrightarrow> (r = 0 \<longleftrightarrow> xs = ys) \<and> (r < 0 \<longleftrightarrow> ord_class.lexordp xs ys)"

lemma orders_simps:
  "orders 0 [] []" "y > 0 \<Longrightarrow> orders (- y) [] (y # ys)" "x > 0 \<Longrightarrow> orders x (x # xs) []"
  "x \<noteq> y \<Longrightarrow> orders (x - y) (x # xs) (y # ys)" "orders r (x # xs) (x # ys) \<longleftrightarrow> orders r xs ys"
  by (auto simp: orders_def)

lemma strcasecmp_run: "str_at m a xs \<Longrightarrow> str_at m b ys \<Longrightarrow> \<exists>r. strcasecmp_loop m a b 0 = Some r \<and> orders r (map low xs) (map low ys)"
proof (induction xs arbitrary: a b ys)
  case Nil
  then show ?case using low_pos by (cases ys) (auto simp: strcasecmp_loop_step [of m a b] orders_simps low_zero)
next
  case (Cons x xs)
  show ?case
  proof (cases ys)
    case Nil
    then show ?thesis using Cons.prems low_pos by (auto simp: strcasecmp_loop_step [of m a b] orders_simps low_zero)
  next
    case (Cons y ys')
    then show ?thesis using Cons.prems Cons.IH [of "a + 1" "b + 1" ys'] by (auto simp: strcasecmp_loop_step [of m a b] orders_simps)
  qed
qed

lemma strncasecmp_run:
  "str_at m a xs \<Longrightarrow> str_at m b ys \<Longrightarrow> orders (strncasecmp_loop m a b n 0) (take (unat n) (map low xs)) (take (unat n) (map low ys))"
proof (induction xs arbitrary: a b ys n)
  case Nil
  then show ?case
    by (cases "n = 0"; cases ys; cases "unat n")
      (auto simp: strncasecmp_loop.simps [of m a b 0] strncasecmp_loop_step [of n m a b] orders_simps low_zero low_pos unat_eq_zero)
next
  case (Cons x xs)
  show ?case
  proof (cases "n = 0")
    case True
    then show ?thesis by (simp add: strncasecmp_loop.simps [of m a b 0] orders_simps)
  next
    case False
    then have n: "unat n = Suc (unat (n - 1))" by (simp add: unat_minus_one unat_gt_0 Suc_diff_1)
    show ?thesis
    proof (cases ys)
      case Nil
      then show ?thesis using Cons.prems False by (auto simp: n strncasecmp_loop_step [of n m a b] orders_simps low_zero low_pos)
    next
      case (Cons y ys')
      then show ?thesis using Cons.prems Cons.IH [of "a + 1" "b + 1" ys' "n - 1"] False
        by (auto simp: n strncasecmp_loop_step [of n m a b] orders_simps)
    qed
  qed
qed

text \<open>\<^verbatim>\<open>strcasecmp\<close> ends on every two strings; its result is 0 exactly when they are equal but for the case of letters, and negative exactly when
  the first comes before the second in the order of the lower-case texts. \<^verbatim>\<open>strncasecmp\<close> does the same for the first \<^verbatim>\<open>n\<close> characters.\<close>

theorem strcasecmp_orders:
  assumes "str_at m s1 xs" "str_at m s2 ys"
  shows "(\<exists>r. strcasecmp m s1 s2 = Some r \<and> (r = 0 \<longleftrightarrow> map low xs = map low ys) \<and> (r < 0 \<longleftrightarrow> ord_class.lexordp (map low xs) (map low ys)))
    \<and> (strncasecmp m s1 s2 n = 0 \<longleftrightarrow> take (unat n) (map low xs) = take (unat n) (map low ys))
    \<and> (strncasecmp m s1 s2 n < 0 \<longleftrightarrow> ord_class.lexordp (take (unat n) (map low xs)) (take (unat n) (map low ys)))"
  using strcasecmp_run [OF assms] strncasecmp_run [OF assms, of n] by (auto simp: orders_def strcasecmp_def strncasecmp_def)

subsection \<open>strcasestr\<close>

definition low_prefix :: "u8 list \<Rightarrow> u8 list \<Rightarrow> bool" where
  "low_prefix ys zs \<longleftrightarrow> map low (take (length ys) zs) = map low ys"

lemma low_prefix_simps [simp]: "low_prefix [] zs" "\<not> low_prefix (y # ys) []" "low_prefix (y # ys) (z # zs) \<longleftrightarrow> low y = low z \<and> low_prefix ys zs"
  by (auto simp: low_prefix_def)

lemma low_prefix_length: "low_prefix ys zs \<Longrightarrow> length ys \<le> length zs"
  by (auto simp: low_prefix_def dest: arg_cong [of _ _ length])

lemma strcasestr_inner:
  "str_at m s xs \<Longrightarrow> str_at m p ys \<Longrightarrow> strcasestr_loop m s1 s2 s p =
    (if low_prefix ys xs then Some s1 else if low_prefix xs ys then Some NULL else strcasestr_loop m (s1 + 1) s2 (s1 + 1) s2)"
proof (induction ys arbitrary: s p xs)
  case Nil
  then show ?case by (simp add: strcasestr_loop.simps [of m s1 s2 s p])
next
  case (Cons y ys)
  then show ?case by (cases xs) (auto simp: strcasestr_loop.simps [of m s1 s2 s p] low_zero simp flip: low_def)
qed

lemma strcasestr_run:
  "str_at m s1 xs \<Longrightarrow> str_at m s2 ys \<Longrightarrow>
    strcasestr_loop m s1 s2 s1 s2 = Some (case first_match (low_prefix ys) xs of None \<Rightarrow> NULL | Some i \<Rightarrow> s1 + of_nat i)"
proof (induction xs arbitrary: s1)
  case Nil
  then show ?case using strcasestr_inner [of m s1 "[]" s2 ys s1 s2] by (cases ys) simp_all
next
  case (Cons x xs)
  show ?case
  proof (cases "low_prefix ys (x # xs)")
    case True
    then show ?thesis using strcasestr_inner [OF Cons.prems] by simp
  next
    case no: False
    show ?thesis
    proof (cases "low_prefix (x # xs) ys")
      case True
      have "\<not> low_prefix ys (drop i (x # xs))" if "i \<le> length (x # xs)" for i
      proof
        assume "low_prefix ys (drop i (x # xs))"
        from low_prefix_length [OF this] low_prefix_length [OF True] have "i = 0" by (auto simp: Suc_le_eq)
        then show False using \<open>low_prefix ys (drop i (x # xs))\<close> no by simp
      qed
      then have "first_match (low_prefix ys) (x # xs) = None" by (simp only: first_match_None) blast
      then show ?thesis using strcasestr_inner [OF Cons.prems, of s1 s2] True no by (simp del: first_match.simps)
    next
      case False
      then show ?thesis using strcasestr_inner [OF Cons.prems, of s1 s2] no Cons.IH [of "s1 + 1"] Cons.prems
        by (cases "first_match (low_prefix ys) xs") (simp_all add: add.assoc)
    qed
  qed
qed

text \<open>\<^verbatim>\<open>strcasestr\<close> ends and returns the first occurrence without regard to case, or NULL.\<close>

theorem strcasestr_finds_first:
  assumes "str_at m s1 xs" "str_at m s2 ys"
  shows "strcasestr m s1 s2 =
    Some (case first_match (\<lambda>zs. map low (take (length ys) zs) = map low ys) xs of None \<Rightarrow> NULL | Some i \<Rightarrow> s1 + of_nat i)"
  using strcasestr_run [OF assms] by (simp add: strcasestr_def low_prefix_def [abs_def])

subsection \<open>Copies that return the end\<close>

lemma count_down: "Suc k = unat n \<Longrightarrow> n \<noteq> 0 \<and> k = unat (n - 1)" for n :: u32
  by (cases "n = 0") (simp_all add: unat_minus_one)

text \<open>\<^verbatim>\<open>stpcpy\<close> copies like the assembly of \<^verbatim>\<open>strcpy\<close> and returns the address of the terminating zero it wrote.\<close>

lemma stpcpy_loop_strcpy:
  assumes "str_at m s2 bs" "addrs s1 (Suc (length bs)) \<inter> addrs s2 (Suc (length bs)) = {}"
  shows "stpcpy_loop m s1 s2 = map_option (\<lambda>m'. (s1 + of_nat (Suc (length bs)), m')) (strcpy_loop m s1 s2)"
  using assms
proof (induction bs arbitrary: m s1 s2)
  case Nil
  then show ?case by (simp add: stpcpy_loop.simps [of m] strcpy_loop.simps [of m])
next
  case (Cons b bs)
  have dis: "s1 \<notin> addrs (s2 + 1) (Suc (length bs))" "addrs (s1 + 1) (Suc (length bs)) \<inter> addrs (s2 + 1) (Suc (length bs)) = {}"
    using Cons.prems(2) by (auto simp: addrs_Suc [of _ "Suc (length bs)"])
  have "str_at (m(s1 := b)) (s2 + 1) bs" using Cons.prems(1) by (simp only: str_at_upd [OF dis(1)] str_at.simps)
  from Cons.IH [OF this dis(2)] show ?case using Cons.prems(1) by (simp add: stpcpy_loop.simps [of m] strcpy_loop.simps [of m] add.assoc fun_upd_def)
qed

theorem stpcpy_copies:
  assumes "str_at m s2 bs" "addrs s1 (Suc (length bs)) \<inter> addrs s2 (Suc (length bs)) = {}" "length bs < 2 ^ 32"
  shows "stpcpy m s1 s2 = Some (s1 + of_nat (length bs), buf_put m s1 (bs @ [0]))"
  using strcpy_run [OF assms] by (auto simp: stpcpy_def stpcpy_loop_strcpy [OF assms(1,2)] strcpy_def)

text \<open>\<^verbatim>\<open>stpncpy\<close> writes exactly what the assembly of \<^verbatim>\<open>strncpy\<close> writes, whatever the two buffers are.\<close>

lemma stpncpy_zeros: "m s2 = 0 \<Longrightarrow> snd (stpncpy_loop m s s2 n) = rep_stosb (unat n) s 0 m"
proof (induction "unat n" arbitrary: n m s)
  case 0
  then show ?case by (simp add: stpncpy_loop.simps [of m s s2 0] unat_eq_zero)
next
  case (Suc k)
  then have n: "n \<noteq> 0" "k = unat (n - 1)" using count_down [of k n] by simp_all
  have "(m(s := 0)) s2 = 0" using Suc.prems by simp
  from Suc.hyps(1) [of "n - 1" "m(s := 0)" "s + 1", OF n(2) this] show ?case using n Suc.prems Suc.hyps(2) by (simp add: stpncpy_loop.simps [of m s s2 n] flip: Suc.hyps(2))
qed

theorem stpncpy_writes_like_strncpy: "snd (stpncpy m s1 s2 n) = snd (strncpy m s1 s2 n)"
proof -
  have "snd (stpncpy_loop m s1 s2 n) = strncpy_loop m s1 s2 n"
  proof (induction "unat n" arbitrary: n m s1 s2)
    case 0
    then show ?case by (simp add: stpncpy_loop.simps [of m s1 s2 0] strncpy_loop.simps [of m s1 s2 0] unat_eq_zero)
  next
    case (Suc k)
    then have n: "n \<noteq> 0" "k = unat (n - 1)" using count_down [of k n] by simp_all
    show ?case
    proof (cases "m s2 = 0")
      case True
      have "unat n = Suc (unat (n - 1))" using Suc.hyps(2) n(2) by simp
      then show ?thesis using True n(1) stpncpy_zeros [of m s2 s1 n] by (simp add: strncpy_loop.simps [of m s1 s2 n])
    next
      case False
      then show ?thesis using Suc.hyps(1) [OF n(2)] n(1) by (simp add: stpncpy_loop.simps [of m s1 s2 n] strncpy_loop.simps [of m s1 s2 n])
    qed
  qed
  then show ?thesis by (cases "stpncpy_loop m s1 s2 n") (simp add: stpncpy_def strncpy_def)
qed

text \<open>\<^verbatim>\<open>memccpy\<close> copies up to and with the first byte that is \<^verbatim>\<open>c\<close>, and returns the address after it; without one it copies all and returns
  NULL. (Written without the case of a copy that ends at the top of the address space.)\<close>

lemma memccpy_loop_run:
  assumes "addrs r1 (unat n) \<inter> addrs r2 (unat n) = {}"
  shows "memccpy_loop m r1 r2 c n =
    (case first_match (\<lambda>zs. take 1 zs = [c]) (buf_bytes m r2 (unat n)) of
      None \<Rightarrow> (r1 + n, - 1, rep_movsb (unat n) 1 r1 r2 m)
    | Some i \<Rightarrow> (r1 + of_nat i + 1, n - of_nat i - 1, rep_movsb (Suc i) 1 r1 r2 m))"
  using assms
proof (induction "unat n" arbitrary: n m r1 r2)
  case 0
  then show ?case by (simp add: memccpy_loop.simps [of m r1 r2 c 0] unat_eq_zero)
next
  case (Suc k)
  then have n: "n \<noteq> 0" "k = unat (n - 1)" using count_down [of k n] by simp_all
  have dis: "r1 \<notin> addrs (r2 + 1) k" "addrs (r1 + 1) k \<inter> addrs (r2 + 1) k = {}"
    using Suc.prems unfolding Suc.hyps(2) [symmetric] by (auto simp: addrs_Suc)
  have bytes: "buf_bytes (m(r1 := v)) (r2 + 1) k = buf_bytes m (r2 + 1) k" for v
    using dis(1) by (auto simp: buf_bytes_def addrs_def)
  show ?case
  proof (cases "m r2 = c")
    case True
    then show ?thesis using n(1) unfolding Suc.hyps(2) [symmetric] by (simp add: memccpy_loop.simps [of m r1 r2 c n] buf_bytes_Suc)
  next
    case False
    note IH = Suc.hyps(1) [OF n(2), of "r1 + 1" "r2 + 1" "m(r1 := m r2)", unfolded n(2) [symmetric], OF dis(2), unfolded bytes]
    show ?thesis unfolding Suc.hyps(2) [symmetric] using n(1) False IH
      by (cases "first_match (\<lambda>zs. take 1 zs = [c]) (buf_bytes m (r2 + 1) k)")
        (simp_all add: memccpy_loop.simps [of m r1 r2 c n] buf_bytes_Suc algebra_simps Let_def)
  qed
qed

theorem memccpy_copies:
  assumes "addrs s1 (unat n) \<inter> addrs s2 (unat n) = {}"
  shows "memccpy m s1 s2 c n =
    (case first_match (\<lambda>zs. take 1 zs = [ucast c]) (buf_bytes m s2 (unat n)) of
      None \<Rightarrow> (NULL, buf_put m s1 (buf_bytes m s2 (unat n)))
    | Some i \<Rightarrow> (s1 + of_nat i + 1, buf_put m s1 (buf_bytes m s2 (Suc i))))"
proof (cases "first_match (\<lambda>zs. take 1 zs = [ucast c :: u8]) (buf_bytes m s2 (unat n))")
  case None
  have "rep_movsb (unat n) 1 s1 s2 m = buf_put m s1 (buf_bytes m s2 (unat n))"
    by (rule movsb_forward) (use forward_apart [OF assms] less_imp_le [OF unat_lt32] in auto)
  then show ?thesis using None by (simp add: memccpy_def memccpy_loop_run [OF assms])
next
  case (Some i)
  then have "take 1 (drop i (buf_bytes m s2 (unat n))) = [ucast c]" by (simp add: first_match_Some)
  then have lt: "i < unat n" by (cases "i < unat n") (simp_all add: buf_bytes_def)
  have le: "Suc i \<le> 2 ^ 32" using lt unat_lt32 [of n] by linarith
  have "rep_movsb (Suc i) 1 s1 s2 m = buf_put m s1 (buf_bytes m s2 (Suc i))"
    by (rule movsb_forward [OF le]) (use forward_apart [OF assms] lt in auto)
  moreover have "n - of_nat i - 1 \<noteq> - 1"
  proof
    assume "n - of_nat i - 1 = - 1"
    then have "n = of_nat i" by (simp add: algebra_simps)
    then show False using lt unat_of_nat [of i, where 'a = 32] unat_lt32 [of n] by (simp add: take_bit_eq_mod)
  qed
  ultimately show ?thesis using Some by (simp add: memccpy_def memccpy_loop_run [OF assms])
qed

subsection \<open>The lowest bit\<close>

definition lowest :: "u32 \<Rightarrow> nat \<Rightarrow> bool" where
  "lowest i k \<longleftrightarrow> bit i k \<and> (\<forall>j < k. \<not> bit i j)"

lemma low_bits_zero: "i AND mask s = 0 \<longleftrightarrow> (\<forall>j < s. \<not> bit i j)" for i :: u32
  
proof -
  have "bit i j \<Longrightarrow> j < 32" for j using bit_imp_le_length [of i j] by simp
  then show ?thesis by (auto simp: bit_eq_iff bit_simps)
qed

lemma ffs_step:
  assumes "lowest i k" "k < 2 * s" "2 * s \<le> 32" "w = mask s"
  obtains k' where "lowest (if i AND w = 0 then signed_drop_bit s i else i) k'" "k' < s"
    "(if i AND w = 0 then n + s else n) + k' = n + k"
proof (cases "i AND w = 0")
  case True
  then have "\<not> k < s" using assms(1,4) by (auto simp: low_bits_zero lowest_def)
  then have ge: "s \<le> k" by simp
  have drop: "bit (signed_drop_bit s i) j = bit i (s + j)" if "j + s < 32" for j
    using that by (subst bit_signed_drop_bit_iff) auto
  have "k < 32" using assms(2,3) by simp
  then have "bit (signed_drop_bit s i) (k - s)" "\<forall>j < k - s. \<not> bit (signed_drop_bit s i) j"
    using ge assms(1) drop [of "k - s"] by (auto simp: lowest_def drop)
  then have "lowest (signed_drop_bit s i) (k - s)" by (simp add: lowest_def)
  then show thesis using that [of "k - s"] True ge assms(2) by simp
next
  case False
  then obtain j where "j < s" "bit i j" using assms(4) by (auto simp: low_bits_zero)
  moreover have "k \<le> j" using assms(1) \<open>bit i j\<close> unfolding lowest_def by (metis not_le)
  ultimately have "k < s" by simp
  then show thesis using that [of k] False assms(1) by simp
qed

lemma ffs_run:
  assumes "lowest i k" "k < 32"
  shows "ffs i = Suc k"
proof -
  have masks: "(0xffff :: u32) = mask 16" "(0xff :: u32) = mask 8" "(0x0f :: u32) = mask 4" "(3 :: u32) = mask 2"
    by (simp_all add: mask_eq_exp_minus_1)
  define i1 n1 where "i1 = (if i AND 0xffff = 0 then signed_drop_bit 16 i else i)" and "n1 = (if i AND 0xffff = 0 then 1 + 16 else 1 :: nat)"
  define i2 n2 where "i2 = (if i1 AND 0xff = 0 then signed_drop_bit 8 i1 else i1)" and "n2 = (if i1 AND 0xff = 0 then n1 + 8 else n1)"
  define i3 n3 where "i3 = (if i2 AND 0x0f = 0 then signed_drop_bit 4 i2 else i2)" and "n3 = (if i2 AND 0x0f = 0 then n2 + 4 else n2)"
  define i4 n4 where "i4 = (if i3 AND 3 = 0 then signed_drop_bit 2 i3 else i3)" and "n4 = (if i3 AND 3 = 0 then n3 + 2 else n3)"
  obtain k1 where k1: "lowest i1 k1" "k1 < 16" "n1 + k1 = 1 + k"
    using ffs_step [OF assms(1), of 16 "0xffff" 1] assms(2) masks(1) by (auto simp: i1_def n1_def)
  obtain k2 where k2: "lowest i2 k2" "k2 < 8" "n2 + k2 = n1 + k1"
    using ffs_step [OF k1(1), of 8 "0xff" n1] k1(2) masks(2) by (auto simp: i2_def n2_def)
  obtain k3 where k3: "lowest i3 k3" "k3 < 4" "n3 + k3 = n2 + k2"
    using ffs_step [OF k2(1), of 4 "0x0f" n2] k2(2) masks(3) by (auto simp: i3_def n3_def)
  obtain k4 where k4: "lowest i4 k4" "k4 < 2" "n4 + k4 = n3 + k3"
    using ffs_step [OF k3(1), of 2 3 n3] k3(2) masks(4) by (auto simp: i4_def n4_def)
  have "i4 \<noteq> 0" using k4(1) by (auto simp: lowest_def)
  moreover have "unat ((i4 + 1) AND 1) = k4"
  proof -
    have "even (i4 + 1) \<longleftrightarrow> k4 = 0" using k4(1,2) by (cases k4) (auto simp: lowest_def bit_0 less_Suc_eq)
    then show ?thesis using k4(2) by (cases "k4 = 0") (simp_all add: and_one_eq mod_2_eq_odd)
  qed
  moreover have "ffs i = (if i4 \<noteq> 0 then n4 + unat ((i4 + 1) AND 1) else 0)"
    unfolding ffs_def i4_def n4_def i3_def n3_def i2_def n2_def i1_def n1_def by (simp add: Let_def split: prod.splits if_split)
  ultimately show ?thesis using k1(3) k2(3) k3(3) k4(3) by simp
qed

text \<open>\<^verbatim>\<open>ffs\<close> returns the number of the lowest bit that is set, counted from 1, or 0 if none is.\<close>

theorem ffs_finds_lowest: "ffs i = (if i = 0 then 0 else Suc (LEAST k. bit i k))"
proof (cases "i = 0")
  case True
  then show ?thesis by (simp add: ffs_def)
next
  case False
  then obtain j where "bit i j \<noteq> bit (0 :: u32) j" using bit_eqI [of i 0] by blast
  then have j: "bit i j" by simp
  then have "bit i (LEAST k. bit i k)" by (rule LeastI)
  moreover have "\<forall>j < (LEAST k. bit i k). \<not> bit i j" by (intro allI impI) (rule not_less_Least)
  ultimately have "lowest i (LEAST k. bit i k)" unfolding lowest_def by blast
  moreover have "(LEAST k. bit i k) < LENGTH(32)" by (rule bit_imp_le_length [OF \<open>bit i (LEAST k. bit i k)\<close>])
  ultimately show ?thesis using ffs_run [of i "LEAST k. bit i k"] False unfolding len_bit0 len_num1 by fastforce
qed

end
