(* ===== verification/Spec2Isabelle.thy ===== *)
theory Spec2Isabelle
  imports Chash Cmatch
begin

text \<open>
  This library models and verifies \<^verbatim>\<open>ak\<close>, a small Unix-like kernel for the 32-bit x86, together with the part of its C library
  (uClibc, \<^verbatim>\<open>src/uClibc\<close>) that works on memory alone.

  \<^bold>\<open>The program.\<close> The boot loader starts \<^verbatim>\<open>arch_init\<close>, which sets up descriptor tables, interrupts, paging and the frame allocator
  from the loader's memory map, and then \<^verbatim>\<open>kmain\<close>, which runs the modules' initialisers, mounts the boot archive and starts the
  first program. From then on the kernel runs when a program makes a system call, when the timer asks for another task, when a key is
  pressed and when a page is missing. Tasks have an address space, a break, a table of file descriptors and signal handlers; files are
  nodes of a tree whose leaves are devices, files in memory or files of the archive.

  \<^bold>\<open>How code becomes definitions.\<close> One definition per C function, in the order of the source and with its name; loops and inlined
  pieces have definitions of their own. Integers are words of their C width, addresses are 32-bit words, structures are records, and the
  global variables of each part extend one state record: \<open>machine\<close>, \<open>intr\<close>, \<open>frames\<close>, \<open>procs\<close> and so on up to the
  state of the system calls, each theory adding the variables of its files. A kernel routine is a function of type \<open>('s, 'a) kern\<close>
  (theory Prelude): \<open>Some (Inr (a, s))\<close> is a return, \<open>Some (Inl e)\<close> a stop (a panic, an access outside an object, a call through
  a null pointer, an endless wait that the code means), and \<open>None\<close> is a routine that does not return. A loop that need not end is a
  \<^verbatim>\<open>partial_function (option)\<close>, so there is no fuel and no bound on iterations; the theorems about such loops state that the result is
  \<open>Some\<close>. A loop over pages whose 32-bit index may wrap is a partial function for that reason. The predicate
  \<open>runs\<close> with its rules in the collection \<open>wp\<close> is total correctness: the routine returns, and in such a state.

  Memory has two views. The paging code works on physical memory, \<open>mem\<close>, through the temporary window, and \<open>translate\<close> is the
  processor's walk of the tables; programs, the loader and the boot code read and write through it (theory Usermem). The file system and
  the console see the memory of the running task as one array of bytes, \<open>vmem\<close>. The C library is modelled on an array of bytes too.

  \<^bold>\<open>The theories.\<close> Paths are below \<^verbatim>\<open>src\<close>.

  \<^item> Prelude: words, stops, the state monad and its rules, lemmas on lists and words.
  \<^item> Machine (\<^verbatim>\<open>arch/x86/io.c\<close>, \<^verbatim>\<open>mem/types.h\<close>, \<^verbatim>\<open>map.h\<close>): memory, registers, ports and the trace of port accesses.
  \<^item> Interrupts (\<^verbatim>\<open>arch/x86/mem/gdt.c\<close>, \<^verbatim>\<open>intr/\<close>): descriptor tables with encoders, the interrupt controllers, the timer, the dispatcher. The
    encoding of a segment descriptor can be read back.
  \<^item> Framealloc (\<^verbatim>\<open>arch/x86/mem/framealloc.c\<close>): the bitmap refines a set of used frames; frames claimed one after the other are distinct.
  \<^item> Klist (\<^verbatim>\<open>kernel/list.c\<close>): the operations keep rings and refine lists of addresses.
  \<^item> Task (\<^verbatim>\<open>kernel/proc/task.c\<close>): clone, exit, signals; the ring of tasks and the uniqueness of process ids are invariants.
  \<^item> Mmu, Paging (\<^verbatim>\<open>arch/x86/mem/mmu.c\<close>): Mmu has the code, Paging what it does to \<open>translate\<close>: mapping, allocating and reserving
    pages, the outcomes of the page fault handler.
  \<^item> Clonedir (\<^verbatim>\<open>mmu_clone_dir.c\<close>, \<^verbatim>\<open>memcpy_phys\<close>): copying an address space; the copy by pages equals a copy by bytes.
  \<^item> Usermem: memory as the running task sees it, and what owning a part of it means.
  \<^item> Brk (\<^verbatim>\<open>brk.c\<close>, \<^verbatim>\<open>early_malloc.c\<close>): the break and the early allocator.
  \<^item> Fdio (\<^verbatim>\<open>kernel/io/fdio.c\<close>): descriptor tables: open, look up, duplicate, close.
  \<^item> Fs, Tmpfs, Cpio (\<^verbatim>\<open>kernel/fs/\<close>, \<^verbatim>\<open>kernel/initrd.c\<close>): the tree of nodes and its lookup, files in memory, the boot archive: what is
    written is read back, and a mounted archive serves the files it contains.
  \<^item> Console (\<^verbatim>\<open>arch/x86/vga_console.c\<close>, \<^verbatim>\<open>kbd.c\<close>, \<^verbatim>\<open>console.c\<close>): the screen, the keyboard, reading a line.
  \<^item> Sched (\<^verbatim>\<open>kernel/proc/sched.c\<close>, \<^verbatim>\<open>arch/x86/proc/task.c\<close>): the scheduler; \<open>kstep\<close> is the step relation of the task operations, \<open>kreach\<close>
    its closure, along which the ring of tasks stays sound; every ready task gets its turn.
  \<^item> Elf (\<^verbatim>\<open>kernel/proc/elf/\<close>, \<^verbatim>\<open>arch/x86/proc/exec.c\<close>): reading program files, loading segments, the initial stack.
  \<^item> Syscall (\<^verbatim>\<open>arch/x86/syscall.c\<close>, \<^verbatim>\<open>kernel/syscall/\<close>): the dispatcher and every call; opening then reading, waiting for a child.
  \<^item> Boot (\<^verbatim>\<open>arch/x86/boot/\<close>, \<^verbatim>\<open>kernel/module.c\<close>, \<^verbatim>\<open>kernel/kmain.c\<close>): the loader's information, initialisation, \<^verbatim>\<open>kmain\<close>.
  \<^item> Cstring, Cwords (\<^verbatim>\<open>uClibc/libc/string/\<close>): blocks and strings by bytes, in the versions the configuration selects (the i386 string
    instructions, otherwise the portable ones), and \<^verbatim>\<open>memcmp\<close>, \<^verbatim>\<open>memmem\<close> and \<^verbatim>\<open>memrchr\<close> by words, shown to equal their reference by bytes.
    \<^verbatim>\<open>strtok\<close> is what Fs takes apart paths with.
  \<^item> Cmatch (\<^verbatim>\<open>libc/string/generic/strstr.c\<close>, \<^verbatim>\<open>strcasestr.c\<close>, \<^verbatim>\<open>strcasecmp.c\<close> and others): searches return the first occurrence, comparison without
    regard to case is the order of the lower-case texts, \<^verbatim>\<open>stpncpy\<close> writes what \<^verbatim>\<open>strncpy\<close> writes, \<^verbatim>\<open>ffs\<close> finds the lowest bit.
  \<^item> Csort (\<^verbatim>\<open>libc/stdlib/stdlib.c\<close>, \<^verbatim>\<open>libc/misc/search/_lsearch.c\<close>): the Shell sort sorts and ends, the binary search finds.
  \<^item> Cnum (\<^verbatim>\<open>libc/stdlib/stdlib.c\<close>): numbers from strings with their bounds.
  \<^item> Ctree, Chash (\<^verbatim>\<open>libc/misc/search/_tsearch.c\<close>, \<^verbatim>\<open>_hsearch_r.c\<close>): search trees in a heap stay search trees; a hash table implements a
    finite map of bounded size, and its creation and its probing end.

  \<^bold>\<open>Interfaces.\<close> Where one part relies on another the contract is a locale, interpreted on the model's own routines:
  \<open>frame_store\<close> (the frame allocator), \<open>ring_ops\<close> (the list), \<open>user_memory\<close> (the paging code, for the loader), \<open>node_heap\<close> (the early
  allocator, for the mount), \<open>key_queue\<close> (the keyboard buffer, for the console), \<open>comparison\<close> (\<^verbatim>\<open>memcmp\<close>, for the sort), \<open>digit_step\<close> (the
  two ways of adding a digit), \<open>key_order\<close> (\<^verbatim>\<open>strcmp\<close>, for the trees) and \<open>keyed_store\<close> (the hash table, for its clients).

  \<^bold>\<open>Arguments.\<close> What the code calls and this library does not model is an argument of the definitions that call it, with what is relied
  on as hypotheses: the C library's allocator and files, the comparison function of a sort, what interrupts and other tasks do while a
  routine waits, the values a device port returns. The addresses that the linker chooses are the record \<open>symtab\<close>. The C library is
  built for i386 without assertions (\<^verbatim>\<open>uClibc/.config\<close>); \<^verbatim>\<open>qsort_r\<close> has its assertion as a branch that an argument switches on.

  \<^bold>\<open>Bounds.\<close> Page tables have 1024 entries, the keyboard buffer has \<open>CONS_RBUF_LEN\<close> characters, a hash table's size is shown to be found
  for up to 65537 entries (a prime number; the primality test is right up to the square of 65535). Strings and records are assumed not
  to fill the address space where their length is a 32-bit number.

  \<^bold>\<open>Where the code departs from its intent.\<close> The theorems describe the code as it is. Among others: the frame allocator reads past its
  bitmap when no frame is free, \<^verbatim>\<open>frame_alloc_4m\<close> can return used frames, the timer is programmed with a wrong divisor, \<^verbatim>\<open>pg_reserve_range\<close>
  maps pages to the top frame, a full descriptor table is overrun, a backspace in the first cell writes before the screen, closing
  a file frees data that its node keeps, and \<^verbatim>\<open>ENTER\<close> of a key that a hash table holds leaves its data alone although the header says
  otherwise.

  \<^bold>\<open>Not modelled.\<close> The assembly entry points (\<^verbatim>\<open>boot.S\<close>, \<^verbatim>\<open>gdt_load.S\<close>, \<^verbatim>\<open>isr_root.S\<close>), which have no C semantics; \<^verbatim>\<open>context.S\<close> appears as the
  fields it moves. The output of \<^verbatim>\<open>printf\<close>. The rest of uClibc (files, formatted output, the allocator \<^verbatim>\<open>malloc-standard\<close>, locales,
  threads, the resolver) and the user programs (\<^verbatim>\<open>src/userspace\<close>), which are third-party code that the kernel's behaviour does not
  depend on beyond the arguments above. Of \<^verbatim>\<open>libc/string\<close>: the message tables of \<^verbatim>\<open>strerror\<close> and
  \<^verbatim>\<open>strsignal\<close>, \<^verbatim>\<open>strxfrm\<close> and the wide-character versions.
\<close>

end
